(* ===== verification/Adapter_Prelude.thy ===== *)
theory Adapter_Prelude
  imports Main "HOL-Library.Word" "HOL-Library.Char_ord" "HOL-Library.List_Lexorder"
begin

text \<open>
  What every component of the development shares: the machine integers of the Go sources, the
  clock, Go byte slices and strings, ranging over a Go map, and the contract of a state machine
  whose operations keep an invariant.
\<close>

section \<open>Collections of facts\<close>

named_theorems relay_defs \<open>the operations of the report relay table\<close>
named_theorems net_defs \<open>the parts of Go's net package the sources use\<close>

section \<open>Machine integers\<close>

type_synonym u8 = "8 word"
type_synonym u32 = "32 word"
type_synonym u64 = "64 word"

lemma unat_u8_less: "unat x < 256" for x :: u8
  using unsigned_less [of x, where ?'a = nat] by simp

lemma unat_u32_Suc: "x < y \<Longrightarrow> unat (x + 1) = Suc (unat x)" for x y :: u32
  by unat_arith

lemma word_succ_le: "x < y \<Longrightarrow> x + 1 \<le> y" for x y :: u32
  by (simp add: inc_le)

section \<open>Time\<close>

text \<open>
  A \<^verbatim>\<open>time.Time\<close> is a number of nanoseconds since Go's zero time, so that
  \<^verbatim>\<open>time.Time{}\<close> is 0. \<^verbatim>\<open>Time.Sub\<close> saturates at the ends of the 64-bit
  \<^verbatim>\<open>Duration\<close>.
\<close>

type_synonym time = int

definition maxDuration :: int where "maxDuration = 2 ^ 63 - 1"

definition minDuration :: int where "minDuration = - (2 ^ 63)"

definition Sub :: "time \<Rightarrow> time \<Rightarrow> int" where
  "Sub t u = max minDuration (min maxDuration (t - u))"

abbreviation Second :: int where "Second \<equiv> 1000000000"

abbreviation Minute :: int where "Minute \<equiv> 60000000000"

lemma Sub_le_iff:
  assumes "minDuration \<le> d" "d < maxDuration"
  shows "Sub t u \<le> d \<longleftrightarrow> t - u \<le> d"
  using assms by (auto simp: Sub_def)

lemma Sub_less_iff:
  assumes "minDuration < d" "d \<le> maxDuration"
  shows "Sub t u < d \<longleftrightarrow> t - u < d"
  using assms by (auto simp: Sub_def)

section \<open>Byte slices and strings\<close>

text \<open>
  A Go string is a sequence of bytes and so is \<^typ>\<open>string\<close>. A \<^verbatim>\<open>[]byte\<close> is an
  optional list, because the sources test \<^verbatim>\<open>net.IP\<close> values against nil and a nil
  slice is not an empty one.
\<close>

type_synonym slice = "u8 list option"

definition octets :: "slice \<Rightarrow> u8 list" where
  "octets s = (case s of None \<Rightarrow> [] | Some b \<Rightarrow> b)"

lemma octets_simps [simp]: "octets None = []" "octets (Some b) = b"
  by (simp_all add: octets_def)

definition byte_char :: "u8 \<Rightarrow> char" where
  "byte_char b = char_of (unat b)"

definition char_byte :: "char \<Rightarrow> u8" where
  "char_byte c = of_nat (of_char c)"

definition go_string :: "u8 list \<Rightarrow> string" where
  "go_string = map byte_char"

definition go_bytes :: "string \<Rightarrow> u8 list" where
  "go_bytes = map char_byte"

lemma char_byte_byte_char [simp]: "char_byte (byte_char b) = b"
proof -
  have "unat b < 256" by (rule unat_u8_less)
  then show ?thesis by (simp add: char_byte_def byte_char_def)
qed

lemma byte_char_char_byte [simp]: "byte_char (char_byte c) = c"
proof -
  have "of_char c < (256::nat)" by simp
  then have "unat (of_nat (of_char c) :: u8) = (of_char c :: nat)"
    by (simp add: unat_of_nat)
  then show ?thesis by (simp add: char_byte_def byte_char_def)
qed

lemma go_bytes_go_string [simp]: "go_bytes (go_string b) = b"
  by (simp add: go_bytes_def go_string_def comp_def)

lemma go_string_go_bytes [simp]: "go_string (go_bytes s) = s"
  by (simp add: go_bytes_def go_string_def comp_def)

lemma go_string_inject [simp]: "go_string a = go_string b \<longleftrightarrow> a = b"
  by (metis go_bytes_go_string)

lemma length_go_bytes [simp]: "length (go_bytes s) = length s"
  by (simp add: go_bytes_def)

section \<open>Ranging over a Go map\<close>

text \<open>
  A Go map is a partial function. Ranging over it visits each key once, in an order the runtime
  chooses anew each time: an order is a function from the key set at the start of the loop to a
  list, and a legal one enumerates every finite set without repetition. A key that the body
  deletes before the loop reaches it is not visited, so each visit looks the key up again.
\<close>

type_synonym 'k order = "'k set \<Rightarrow> 'k list"

definition enumerates :: "'k order \<Rightarrow> bool" where
  "enumerates ord \<longleftrightarrow> (\<forall>S. finite S \<longrightarrow> distinct (ord S) \<and> set (ord S) = S)"

lemma enumerates_set [simp]: "enumerates ord \<Longrightarrow> finite S \<Longrightarrow> set (ord S) = S"
  by (simp add: enumerates_def)

lemma enumerates_distinct [simp]: "enumerates ord \<Longrightarrow> finite S \<Longrightarrow> distinct (ord S)"
  by (simp add: enumerates_def)

lemma enumerates_sorted [simp]: "enumerates sorted_list_of_set"
  by (simp add: enumerates_def)

primrec range_map :: "('s \<Rightarrow> 'k \<rightharpoonup> 'v) \<Rightarrow> ('k \<Rightarrow> 'v \<Rightarrow> 's \<Rightarrow> 's) \<Rightarrow> 'k list \<Rightarrow> 's \<Rightarrow> 's" where
  "range_map tab body [] s = s"
| "range_map tab body (k # ks) s =
     range_map tab body ks (case tab s k of None \<Rightarrow> s | Some v \<Rightarrow> body k v s)"

text \<open>A loop that returns from its body: the first key, in the order, with an answer.\<close>

primrec range_find :: "('k \<Rightarrow> 'r option) \<Rightarrow> 'k list \<Rightarrow> 'r option" where
  "range_find f [] = None"
| "range_find f (k # ks) = (case f k of Some r \<Rightarrow> Some r | None \<Rightarrow> range_find f ks)"

lemma range_find_None: "range_find f ks = None \<longleftrightarrow> (\<forall>k \<in> set ks. f k = None)"
  by (induction ks) (auto split: option.splits)

lemma range_find_SomeD: "range_find f ks = Some r \<Longrightarrow> \<exists>k \<in> set ks. f k = Some r"
  by (induction ks) (auto split: option.splits)

lemma range_map_invariant:
  assumes "P s" "\<And>k v s. P s \<Longrightarrow> tab s k = Some v \<Longrightarrow> P (body k v s)"
  shows "P (range_map tab body ks s)"
  using assms(1)
proof (induction ks arbitrary: s)
  case Nil
  then show ?case by simp
next
  case (Cons k ks)
  show ?case
  proof (cases "tab s k")
    case None
    with Cons show ?thesis by simp
  next
    case (Some v)
    with Cons.prems assms(2) have "P (body k v s)" by blast
    with Some Cons.IH show ?thesis by simp
  qed
qed

lemma range_map_frame:
  assumes "\<And>k v s. field (body k v s) = field s"
  shows "field (range_map tab body ks s) = field s"
  by (rule range_map_invariant [where P = "\<lambda>t. field t = field s"]) (simp_all add: assms)

text \<open>A loop whose body deletes the current key where a condition holds filters the map.\<close>

definition map_keep :: "('k \<Rightarrow> 'v \<Rightarrow> bool) \<Rightarrow> ('k \<rightharpoonup> 'v) \<Rightarrow> ('k \<rightharpoonup> 'v)" where
  "map_keep P m k = (case m k of None \<Rightarrow> None | Some v \<Rightarrow> if P k v then Some v else None)"

lemma map_keep_Some [simp]: "map_keep P m k = Some v \<longleftrightarrow> m k = Some v \<and> P k v"
  by (auto simp: map_keep_def split: option.splits)

lemma map_keep_None: "map_keep P m k = None \<longleftrightarrow> (\<forall>v. m k = Some v \<longrightarrow> \<not> P k v)"
  by (auto simp: map_keep_def split: option.splits)

lemma dom_map_keep: "dom (map_keep P m) = {k. \<exists>v. m k = Some v \<and> P k v}"
  by (auto simp: dom_def map_keep_def split: option.splits)

lemma map_keep_cong: "(\<And>k v. m k = Some v \<Longrightarrow> P k v = Q k v) \<Longrightarrow> map_keep P m = map_keep Q m"
  by (rule ext) (auto simp: map_keep_def split: option.splits)

lemma map_keep_delete: "map_keep P (m(k := None)) = map_keep (\<lambda>x v. x \<noteq> k \<and> P x v) m"
  by (rule ext) (auto simp: map_keep_def split: option.splits)

lemma map_keep_all: "(\<And>k v. m k = Some v \<Longrightarrow> P k v) \<Longrightarrow> map_keep P m = m"
  by (rule ext) (auto simp: map_keep_def split: option.splits)

lemma finite_map_keep [simp]: "finite (dom m) \<Longrightarrow> finite (dom (map_keep P m))"
  by (rule finite_subset [of _ "dom m"]) (auto simp: dom_map_keep)

lemma range_map_delete:
  assumes "\<And>k v s. tab (body k v s) = (if D k v then (tab s)(k := None) else tab s)"
  shows "tab (range_map tab body ks s) x
    = (if x \<in> set ks \<and> (\<exists>v. tab s x = Some v \<and> D x v) then None else tab s x)"
proof (induction ks arbitrary: s)
  case Nil
  then show ?case by simp
next
  case (Cons k ks)
  show ?case
  proof (cases "tab s k")
    case None
    then show ?thesis by (auto simp: Cons.IH)
  next
    case (Some v)
    then show ?thesis by (auto simp: Cons.IH assms)
  qed
qed

lemma range_map_keep:
  assumes "\<And>k v s. tab (body k v s) = (if D k v then (tab s)(k := None) else tab s)"
    and "dom (tab s) \<subseteq> set ks"
  shows "tab (range_map tab body ks s) = map_keep (\<lambda>k v. \<not> D k v) (tab s)"
proof (rule ext)
  fix x
  show "tab (range_map tab body ks s) x = map_keep (\<lambda>k v. \<not> D k v) (tab s) x"
    using assms(2) by (auto simp: range_map_delete [of tab body D, OF assms(1)] map_keep_def
        split: option.splits)
qed

section \<open>Operations that keep an invariant\<close>

text \<open>
  A run of operations, each of which is asked for in the state it finds: \<open>along exec ok ops s\<close>
  says that every operation of the list is acceptable where it runs.
\<close>

primrec along :: "('op \<Rightarrow> 's \<Rightarrow> 's) \<Rightarrow> ('op \<Rightarrow> 's \<Rightarrow> bool) \<Rightarrow> 'op list \<Rightarrow> 's \<Rightarrow> bool" where
  "along exec ok [] s = True"
| "along exec ok (op # ops) s = (ok op s \<and> along exec ok ops (exec op s))"

text \<open>
  The contract a component owes to whoever runs its operations in some order: each operation is
  atomic (it runs under the component's lock), and each keeps the invariant. Then every
  interleaving of operations does.
\<close>

locale guarded_machine =
  fixes exec :: "'op \<Rightarrow> 's \<Rightarrow> 's"
    and inv :: "'s \<Rightarrow> bool"
    and legal :: "'op \<Rightarrow> 's \<Rightarrow> bool"
  assumes exec_inv: "inv s \<Longrightarrow> legal op s \<Longrightarrow> inv (exec op s)"
begin

lemma run_inv: "inv s \<Longrightarrow> along exec legal ops s \<Longrightarrow> inv (fold exec ops s)"
  by (induction ops arbitrary: s) (auto intro: exec_inv)

end

text \<open>
  A fact about the state that only some operations end: it survives every run that spares it.
\<close>

locale tracked_machine = guarded_machine exec inv legal
  for exec :: "'op \<Rightarrow> 's \<Rightarrow> 's" and inv :: "'s \<Rightarrow> bool" and legal :: "'op \<Rightarrow> 's \<Rightarrow> bool" +
  fixes fact :: "'s \<Rightarrow> bool"
    and spares :: "'op \<Rightarrow> 's \<Rightarrow> bool"
  assumes exec_fact: "inv s \<Longrightarrow> legal op s \<Longrightarrow> fact s \<Longrightarrow> spares op s \<Longrightarrow> fact (exec op s)"
begin

lemma run_fact:
  "inv s \<Longrightarrow> fact s \<Longrightarrow> along exec (\<lambda>op s. legal op s \<and> spares op s) ops s
   \<Longrightarrow> inv (fold exec ops s) \<and> fact (fold exec ops s)"
  by (induction ops arbitrary: s) (auto intro: exec_inv exec_fact)

end

text \<open>
  A machine that implements a simpler one: what can be observed of a state is the state of the
  specification, and every legal operation does to the one what its specification does to the
  other. Then every legal run does.
\<close>

locale refined_machine = guarded_machine exec inv legal
  for exec :: "'op \<Rightarrow> 's \<Rightarrow> 's" and inv :: "'s \<Rightarrow> bool" and legal :: "'op \<Rightarrow> 's \<Rightarrow> bool" +
  fixes spec :: "'op \<Rightarrow> 'a \<Rightarrow> 'a"
    and view :: "'s \<Rightarrow> 'a"
  assumes exec_refines: "inv s \<Longrightarrow> legal op s \<Longrightarrow> view (exec op s) = spec op (view s)"
begin

lemma run_refines: "inv s \<Longrightarrow> along exec legal ops s \<Longrightarrow> view (fold exec ops s) = fold spec ops (view s)"
  by (induction ops arbitrary: s) (simp_all add: exec_refines exec_inv)

end

section \<open>Systems of threads\<close>

text \<open>
  The contract of a system whose threads take one step at a time: each step keeps the invariant, so
  every run does.
\<close>

locale guarded_steps =
  fixes step :: "'c \<Rightarrow> 'c \<Rightarrow> bool"
    and inv :: "'c \<Rightarrow> bool"
  assumes step_inv: "step c c' \<Longrightarrow> inv c \<Longrightarrow> inv c'"
begin

lemma run_inv: "step\<^sup>*\<^sup>* c c' \<Longrightarrow> inv c \<Longrightarrow> inv c'"
  by (induction rule: rtranclp_induct) (auto intro: step_inv)

end

text \<open>To who sees its state through a view, each step is some steps of a specification.\<close>

locale simulated_steps = guarded_steps step inv
  for step :: "'c \<Rightarrow> 'c \<Rightarrow> bool" and inv :: "'c \<Rightarrow> bool" +
  fixes view :: "'c \<Rightarrow> 'v"
    and spec :: "'v \<Rightarrow> 'v \<Rightarrow> bool"
  assumes step_view: "step c c' \<Longrightarrow> inv c \<Longrightarrow> spec\<^sup>*\<^sup>* (view c) (view c')"
begin

lemma run_view: "step\<^sup>*\<^sup>* c c' \<Longrightarrow> inv c \<Longrightarrow> spec\<^sup>*\<^sup>* (view c) (view c')"
proof (induction rule: rtranclp_induct)
  case (step c1 c2)
  then show ?case using step_view run_inv by (meson rtranclp_trans)
qed simp

end

end
