(* ===== verification/Go_Net.thy ===== *)
theory Go_Net
  imports Adapter_Prelude
begin

text \<open>
  The parts of Go's net package the adapter uses: \<^verbatim>\<open>net.IP\<close> with its conversions,
  comparison and text forms, \<^verbatim>\<open>net.ParseIP\<close>, \<^verbatim>\<open>net.UDPAddr\<close>, and the
  splitting of a host from a port. The peer tables of the adapter are keyed by these texts, so
  which addresses share a text, and whether the host can be recovered from a key, decide which
  peers the adapter tells apart.
\<close>

section \<open>Addresses\<close>

type_synonym IP = slice

definition v4InV6Prefix :: "u8 list" where
  "v4InV6Prefix = [0, 0, 0, 0, 0, 0, 0, 0, 0, 0, 255, 255]"

definition To4 :: "IP \<Rightarrow> IP" where
  [net_defs]: "To4 ip =
     (let b = octets ip in
      if length b = 4 then ip
      else if length b = 16 \<and> take 12 b = v4InV6Prefix then Some (drop 12 b)
      else None)"

definition To16 :: "IP \<Rightarrow> IP" where
  [net_defs]: "To16 ip =
     (let b = octets ip in
      if length b = 4 then Some (v4InV6Prefix @ b)
      else if length b = 16 then ip
      else None)"

definition IP_Equal :: "IP \<Rightarrow> IP \<Rightarrow> bool" where
  [net_defs]: "IP_Equal ip x =
     (let a = octets ip; b = octets x in
      if length a = length b then a = b
      else if length a = 4 \<and> length b = 16 then take 12 b = v4InV6Prefix \<and> a = drop 12 b
      else if length a = 16 \<and> length b = 4 then take 12 a = v4InV6Prefix \<and> drop 12 a = b
      else False)"

definition IPv4zero :: IP where
  "IPv4zero = Some (v4InV6Prefix @ [0, 0, 0, 0])"

definition IPv6unspecified :: IP where
  "IPv6unspecified = Some (replicate 16 0)"

definition IsUnspecified :: "IP \<Rightarrow> bool" where
  [net_defs]: "IsUnspecified ip \<longleftrightarrow> IP_Equal ip IPv4zero \<or> IP_Equal ip IPv6unspecified"

section \<open>Text forms\<close>

definition digit :: "nat \<Rightarrow> char" where
  "digit d = char_of (48 + d)"

definition hex_digit :: "nat \<Rightarrow> char" where
  "hex_digit d = (if d < 10 then char_of (48 + d) else char_of (87 + d))"

fun Itoa :: "nat \<Rightarrow> string" where
  "Itoa n = (if n < 10 then [digit n] else Itoa (n div 10) @ [digit (n mod 10)])"

declare Itoa.simps [simp del]

definition dotted :: "nat list \<Rightarrow> string" where
  "dotted fs = (case fs of
      [a, b, c, d] \<Rightarrow> Itoa a @ ''.'' @ Itoa b @ ''.'' @ Itoa c @ ''.'' @ Itoa d
    | _ \<Rightarrow> [])"

definition appendHex :: "nat \<Rightarrow> string" where
  "appendHex x =
     (if 4096 \<le> x then [hex_digit (x div 4096)] else [])
     @ (if 256 \<le> x then [hex_digit (x div 256 mod 16)] else [])
     @ (if 16 \<le> x then [hex_digit (x div 16 mod 16)] else [])
     @ [hex_digit (x mod 16)]"

fun groups :: "u8 list \<Rightarrow> nat list" where
  "groups (a # b # bs) = (unat a * 256 + unat b) # groups bs"
| "groups _ = []"

text \<open>The longest run of at least two zero groups, the first of that length.\<close>

definition zero_run :: "nat list \<Rightarrow> nat \<times> nat" where
  "zero_run gs =
     fold (\<lambda>i (zeroStart, zeroEnd).
         let l = length (takeWhile (\<lambda>g. g = 0) (drop i gs))
         in if 2 \<le> l \<and> zeroEnd - zeroStart < l then (i, i + l) else (zeroStart, zeroEnd))
       [0..<8] (255, 255)"

text \<open>The printing loop: the index advances in each round, so eight rounds are enough.\<close>

primrec emit6 :: "nat \<Rightarrow> nat list \<Rightarrow> nat \<Rightarrow> nat \<Rightarrow> nat \<Rightarrow> string" where
  "emit6 0 gs zeroStart zeroEnd i = []"
| "emit6 (Suc n) gs zeroStart zeroEnd i =
     (if 8 \<le> i then []
      else if i = zeroStart then
        ''::'' @ (if 8 \<le> zeroEnd then []
                  else appendHex (gs ! zeroEnd) @ emit6 n gs zeroStart zeroEnd (Suc zeroEnd))
      else (if 0 < i then '':'' else []) @ appendHex (gs ! i)
           @ emit6 n gs zeroStart zeroEnd (Suc i))"

definition string6 :: "u8 list \<Rightarrow> string" where
  "string6 b = (let gs = groups b; (zs, ze) = zero_run gs in emit6 8 gs zs ze 0)"

definition hexString :: "u8 list \<Rightarrow> string" where
  "hexString b = concat (map (\<lambda>x. [hex_digit (unat x div 16), hex_digit (unat x mod 16)]) b)"

definition IP_String :: "IP \<Rightarrow> string" where
  "IP_String ip =
     (let b = octets ip in
      if b = [] then ''<nil>''
      else if length b \<noteq> 4 \<and> length b \<noteq> 16 then ''?'' @ hexString b
      else if length (octets (To4 ip)) = 4 then dotted (map unat (octets (To4 ip)))
      else string6 b)"

section \<open>Parsing\<close>

definition is_digit :: "char \<Rightarrow> bool" where
  "is_digit c \<longleftrightarrow> (48::nat) \<le> of_char c \<and> of_char c \<le> (57::nat)"

definition hex_value :: "char \<Rightarrow> nat option" where
  "hex_value c =
     (let n = of_char c :: nat in
      if 48 \<le> n \<and> n \<le> 57 then Some (n - 48)
      else if 97 \<le> n \<and> n \<le> 102 then Some (n - 87)
      else if 65 \<le> n \<and> n \<le> 70 then Some (n - 55)
      else None)"

text \<open>
  \<open>parse4 s start val digLen fs\<close> is the loop of \<^verbatim>\<open>netip.parseIPv4Fields\<close> with
  the text still to read, whether a field is just starting, the value and the number of digits of
  the field being read, and the fields already read.
\<close>

fun parse4 :: "string \<Rightarrow> bool \<Rightarrow> nat \<Rightarrow> nat \<Rightarrow> nat list \<Rightarrow> nat list option" where
  "parse4 [] start val digLen fs = (if length fs < 3 then None else Some (fs @ [val]))"
| "parse4 (c # s) start val digLen fs =
     (if is_digit c then
        if digLen = 1 \<and> val = 0 then None
        else if 255 < val * 10 + (of_char c - 48) then None
        else parse4 s False (val * 10 + (of_char c - 48)) (Suc digLen) fs
      else if c = CHR ''.'' then
        if start \<or> s = [] then None
        else if length fs = 3 then None
        else parse4 s True 0 0 (fs @ [val])
      else None)"

fun scan_hex :: "string \<Rightarrow> nat \<Rightarrow> nat \<Rightarrow> (nat \<times> nat \<times> string) option" where
  "scan_hex [] off acc = Some (off, acc, [])"
| "scan_hex (c # s) off acc =
     (case hex_value c of
        None \<Rightarrow> Some (off, acc, c # s)
      | Some d \<Rightarrow>
          if 3 < off then None
          else if 65535 < acc * 16 + d then None
          else scan_hex s (Suc off) (acc * 16 + d))"

text \<open>
  \<open>parse6 n s b ellipsis\<close> is the loop of \<^verbatim>\<open>netip.parseIPv6\<close>: the bytes read
  so far are \<open>b\<close>, and a round adds at least two of the sixteen, so eight rounds are enough.
\<close>

primrec parse6 :: "nat \<Rightarrow> string \<Rightarrow> u8 list \<Rightarrow> nat option \<Rightarrow> (u8 list \<times> nat option \<times> string) option"
  where
  "parse6 0 s b ellipsis = Some (b, ellipsis, s)"
| "parse6 (Suc n) s b ellipsis =
     (if 16 \<le> length b then Some (b, ellipsis, s)
      else case scan_hex s 0 0 of
        None \<Rightarrow> None
      | Some (off, acc, rest) \<Rightarrow>
          if off = 0 then None
          else if rest \<noteq> [] \<and> hd rest = CHR ''.'' then
            if ellipsis = None \<and> length b \<noteq> 12 then None
            else if 16 < length b + 4 then None
            else (case parse4 s True 0 0 [] of
                    None \<Rightarrow> None
                  | Some fs \<Rightarrow> Some (b @ map of_nat fs, ellipsis, []))
          else
            let b' = b @ [of_nat (acc div 256), of_nat (acc mod 256)] in
            (case rest of
               [] \<Rightarrow> Some (b', ellipsis, [])
             | c # rest' \<Rightarrow>
                 if c \<noteq> CHR '':'' \<or> rest' = [] then None
                 else if hd rest' = CHR '':'' then
                   if ellipsis \<noteq> None then None
                   else if tl rest' = [] then Some (b', Some (length b'), [])
                   else parse6 n (tl rest') b' (Some (length b'))
                 else parse6 n rest' b' ellipsis))"

definition finish6 :: "u8 list \<times> nat option \<times> string \<Rightarrow> u8 list option" where
  "finish6 r =
     (case r of (b, ellipsis, s) \<Rightarrow>
        if s \<noteq> [] then None
        else if length b < 16 then
          (case ellipsis of
             None \<Rightarrow> None
           | Some e \<Rightarrow> Some (take e b @ replicate (16 - length b) 0 @ drop e b))
        else if ellipsis \<noteq> None then None
        else Some b)"

text \<open>A text with a zone is not an address for \<^verbatim>\<open>net.ParseIP\<close>.\<close>

definition parseIPv6 :: "string \<Rightarrow> u8 list option" where
  "parseIPv6 s =
     (if CHR ''%'' \<in> set s then None
      else if take 2 s = ''::'' then
        if drop 2 s = [] then Some (replicate 16 0)
        else Option.bind (parse6 8 (drop 2 s) [] (Some 0)) finish6
      else Option.bind (parse6 8 s [] None) finish6)"

definition parseIPv4 :: "string \<Rightarrow> u8 list option" where
  "parseIPv4 s = map_option (\<lambda>fs. v4InV6Prefix @ map of_nat fs) (parse4 s True 0 0 [])"

definition ParseIP :: "string \<Rightarrow> IP" where
  "ParseIP s =
     (case dropWhile (\<lambda>c. c \<notin> {CHR ''.'', CHR '':'', CHR ''%''}) s of
        [] \<Rightarrow> None
      | c # _ \<Rightarrow>
          if c = CHR ''.'' then parseIPv4 s
          else if c = CHR '':'' then parseIPv6 s
          else None)"

section \<open>UDP addresses, hosts and ports\<close>

record UDPAddr =
  addr_IP :: IP
  addr_Port :: nat
  addr_Zone :: string

definition JoinHostPort :: "string \<Rightarrow> string \<Rightarrow> string" where
  "JoinHostPort host port =
     (if CHR '':'' \<in> set host
      then ''['' @ host @ '']:'' @ port else host @ '':'' @ port)"

definition UDPAddr_String :: "UDPAddr \<Rightarrow> string" where
  "UDPAddr_String a =
     (let ip = (if octets (addr_IP a) = [] then [] else IP_String (addr_IP a)) in
      if addr_Zone a \<noteq> [] then JoinHostPort (ip @ ''%'' @ addr_Zone a) (Itoa (addr_Port a))
      else JoinHostPort ip (Itoa (addr_Port a)))"

text \<open>
  The host of \<^verbatim>\<open>net.SplitHostPort\<close>, or nothing where it reports an error. The port
  starts after the last colon; a host in brackets may hold colons, and one that is not in brackets
  may not; no other bracket may occur.
\<close>

definition SplitHost :: "string \<Rightarrow> string option" where
  "SplitHost s =
     (if CHR '':'' \<notin> set s then None
      else
        let back = takeWhile (\<lambda>c. c \<noteq> CHR '':'') (rev s);
            front = take (length s - length back - 1) s in
        if s \<noteq> [] \<and> hd s = CHR ''['' then
          let inside = takeWhile (\<lambda>c. c \<noteq> CHR '']'') s;
              e = length inside in
          if e = length s then None
          else if Suc e = length s then None
          else if Suc e \<noteq> length front then None
          else if CHR ''['' \<in> set (tl s) \<or> CHR '']'' \<in> set (drop (Suc e) s) then None
          else Some (tl inside)
        else if CHR '':'' \<in> set front then None
        else if CHR ''['' \<in> set s \<or> CHR '']'' \<in> set s then None
        else Some front)"

section \<open>Conversions\<close>

lemma length_v4InV6Prefix [simp]: "length v4InV6Prefix = 12"
  by (simp add: v4InV6Prefix_def)

lemma To4_v4 [simp]: "length b = 4 \<Longrightarrow> To4 (Some b) = Some b"
  by (simp add: To4_def)

lemma To4_mapped [simp]: "length b = 4 \<Longrightarrow> To4 (Some (v4InV6Prefix @ b)) = Some b"
  by (simp add: To4_def)

text \<open>An address and its sixteen-octet form are the same peer: they have the same text.\<close>

section \<open>Texts of addresses hold no bracket\<close>

definition addr_char :: "char \<Rightarrow> bool" where
  "addr_char c \<longleftrightarrow> c \<noteq> CHR ''['' \<and> c \<noteq> CHR '']'' \<and> c \<noteq> CHR ''%''"

lemma digit_cases: "n < 10 \<Longrightarrow> digit n \<in> set ''0123456789''"
proof -
  have all: "list_all (\<lambda>n. digit n \<in> set ''0123456789'') [0..<10]" by code_simp
  assume "n < 10"
  then have "n \<in> set [0..<10]" by simp
  with all [unfolded list_all_iff] show ?thesis by (rule bspec)
qed

lemma hex_digit_cases: "n < 16 \<Longrightarrow> hex_digit n \<in> set ''0123456789abcdef''"
proof -
  have all: "list_all (\<lambda>n. hex_digit n \<in> set ''0123456789abcdef'') [0..<16]" by code_simp
  assume "n < 16"
  then have "n \<in> set [0..<16]" by simp
  with all [unfolded list_all_iff] show ?thesis by (rule bspec)
qed

lemma Itoa_digits: "set (Itoa n) \<subseteq> set ''0123456789''"
proof (induction n rule: Itoa.induct)
  case (1 n)
  show ?case
  proof (cases "n < 10")
    case True
    then show ?thesis using digit_cases [OF True] by (simp add: Itoa.simps [of n])
  next
    case False
    have "digit (n mod 10) \<in> set ''0123456789''" by (rule digit_cases) simp
    with 1 [OF False] False show ?thesis by (subst Itoa.simps) simp
  qed
qed

lemma appendHex_digits: "x < 65536 \<Longrightarrow> set (appendHex x) \<subseteq> set ''0123456789abcdef''"
proof -
  assume x: "x < 65536"
  then have "x div 4096 < 16" by simp
  then have "hex_digit (x div 4096) \<in> set ''0123456789abcdef''" by (rule hex_digit_cases)
  moreover have "hex_digit (y mod 16) \<in> set ''0123456789abcdef''" for y
    by (rule hex_digit_cases) simp
  ultimately show ?thesis unfolding appendHex_def by (simp only: set_append) auto
qed

lemma hexString_digits: "set (hexString b) \<subseteq> set ''0123456789abcdef''"
proof -
  have "unat x < 256" for x :: u8 by (rule unat_u8_less)
  then have "hex_digit (unat x div 16) \<in> set ''0123456789abcdef''"
    "hex_digit (unat x mod 16) \<in> set ''0123456789abcdef''" for x :: u8
    by (intro hex_digit_cases, simp add: div_less_iff_less_mult)+
  then show ?thesis unfolding hexString_def by (simp only: set_concat set_map) auto
qed

lemma addr_char_literals:
  "set ''0123456789'' \<subseteq> Collect addr_char"
  "set ''0123456789abcdef'' \<subseteq> Collect addr_char"
  by (auto simp: addr_char_def)

lemma groups_bound: "g \<in> set (groups b) \<Longrightarrow> g < 65536"
proof (induction b rule: groups.induct)
  case (1 a b bs)
  have "unat a < 256" "unat b < 256"
    by (rule unat_u8_less)+
  with 1 show ?case by auto
qed auto

lemma length_groups: "length (groups b) = length b div 2"
  by (induction b rule: groups.induct) auto

lemma appendHex_addr_char: "x < 65536 \<Longrightarrow> set (appendHex x) \<subseteq> Collect addr_char"
  using appendHex_digits addr_char_literals(2) by blast

lemma emit6_addr_char:
  assumes "length gs = 8" "\<And>g. g \<in> set gs \<Longrightarrow> g < 65536"
  shows "set (emit6 n gs zs ze i) \<subseteq> Collect addr_char"
proof (induction n arbitrary: i)
  case 0
  then show ?case by simp
next
  case (Suc n)
  have hex: "set (appendHex (gs ! j)) \<subseteq> Collect addr_char" if "j < 8" for j
    using that assms by (intro appendHex_addr_char) simp
  have colon: "addr_char CHR '':''" by (simp add: addr_char_def)
  show ?case using Suc hex [of i] hex [of ze] colon
    by (auto split: if_splits)
qed

lemma dotted_addr_char: "set (dotted fs) \<subseteq> Collect addr_char"
proof -
  have "set (Itoa n) \<subseteq> Collect addr_char" for n
    using Itoa_digits addr_char_literals(1) by blast
  moreover have "addr_char CHR ''.''" by (simp add: addr_char_def)
  ultimately show ?thesis unfolding dotted_def
    by (auto split: list.splits)
qed

lemma IP_String_addr_char: "set (IP_String ip) \<subseteq> Collect addr_char"
proof -
  have nil: "set ''<nil>'' \<subseteq> Collect addr_char" "addr_char CHR ''?''"
    by (auto simp: addr_char_def)
  have hex: "set (hexString b) \<subseteq> Collect addr_char" for b
    using hexString_digits addr_char_literals(2) by blast
  have six: "set (string6 b) \<subseteq> Collect addr_char" if "length b = 16" for b
  proof -
    have "set (emit6 n (groups b) zs ze i) \<subseteq> Collect addr_char" for n zs ze i
      by (rule emit6_addr_char) (auto simp: length_groups that groups_bound)
    then show ?thesis unfolding string6_def Let_def
      by (cases "zero_run (groups b)") simp
  qed
  have four: "length (octets (To4 ip)) = 4" if "length (octets ip) = 4"
    using that by (simp add: To4_def)
  show ?thesis
    using nil hex six four dotted_addr_char unfolding IP_String_def Let_def
    by (auto simp del: set_simps dest!: set_ConsD)
qed

section \<open>Recovering the host of a key\<close>

lemma takeWhile_rev_port:
  assumes "x \<notin> set p"
  shows "takeWhile (\<lambda>c. c \<noteq> x) (rev (h @ x # p)) = rev p"
proof -
  have "takeWhile (\<lambda>c. c \<noteq> x) (rev p @ x # rev h) = rev p"
    using assms by (subst takeWhile_append2) auto
  then show ?thesis by simp
qed

lemma SplitHost_bracketed:
  assumes "CHR ''['' \<notin> set h" "CHR '']'' \<notin> set h"
    "CHR '':'' \<notin> set p" "CHR ''['' \<notin> set p" "CHR '']'' \<notin> set p"
  shows "SplitHost (''['' @ h @ '']:'' @ p) = Some h"
proof -
  have bk: "takeWhile (\<lambda>c. c \<noteq> CHR '':'') (rev (''['' @ h @ '']:'' @ p)) = rev p"
    using takeWhile_rev_port [OF assms(3), of "''['' @ h @ '']''"] by simp
  have inside: "takeWhile (\<lambda>c. c \<noteq> CHR '']'') (''['' @ h @ '']:'' @ p) = CHR ''['' # h"
  proof -
    have "takeWhile (\<lambda>c. c \<noteq> CHR '']'') (h @ CHR '']'' # CHR '':'' # p) = h"
      using assms(2) by (subst takeWhile_append2) auto
    then show ?thesis by simp
  qed
  show ?thesis
    using assms unfolding SplitHost_def Let_def bk inside by auto
qed

lemma SplitHost_plain:
  assumes "CHR '':'' \<notin> set h" "CHR ''['' \<notin> set h" "CHR '']'' \<notin> set h"
    "CHR '':'' \<notin> set p" "CHR ''['' \<notin> set p" "CHR '']'' \<notin> set p"
  shows "SplitHost (h @ '':'' @ p) = Some h"
proof -
  have bk: "takeWhile (\<lambda>c. c \<noteq> CHR '':'') (rev (h @ '':'' @ p)) = rev p"
    using takeWhile_rev_port [OF assms(4), of h] by simp
  have "hd (h @ '':'' @ p) \<noteq> CHR ''[''" using assms(2) by (cases h) auto
  then show ?thesis
    using assms unfolding SplitHost_def Let_def bk by auto
qed

lemma Itoa_no_delim [simp]:
  "CHR '':'' \<notin> set (Itoa n)" "CHR ''['' \<notin> set (Itoa n)" "CHR '']'' \<notin> set (Itoa n)"
  "CHR ''.'' \<notin> set (Itoa n)" "CHR ''/'' \<notin> set (Itoa n)"
  using Itoa_digits [of n] by auto

lemma IP_String_no_bracket [simp]:
  "CHR ''['' \<notin> set (IP_String ip)" "CHR '']'' \<notin> set (IP_String ip)"
  using IP_String_addr_char [of ip] by (auto simp: addr_char_def)

lemma SplitHost_JoinHostPort:
  assumes "CHR ''['' \<notin> set h" "CHR '']'' \<notin> set h"
  shows "SplitHost (JoinHostPort h (Itoa n)) = Some h"
proof (cases "CHR '':'' \<in> set h")
  case True
  with assms show ?thesis
    using SplitHost_bracketed [of h "Itoa n"] by (simp add: JoinHostPort_def)
next
  case False
  with assms show ?thesis
    using SplitHost_plain [of h "Itoa n"] by (simp add: JoinHostPort_def)
qed

text \<open>The host of the key of a peer without a zone is the text of its address.\<close>

section \<open>Reading back what was printed\<close>

lemma digit_props:
  assumes "d < 10"
  shows "is_digit (digit d)" "of_char (digit d) - 48 = d"
proof -
  have "of_char (digit d) = (48 + d :: nat)" using assms by (simp add: digit_def)
  then show "is_digit (digit d)" "of_char (digit d) - 48 = d"
    using assms by (simp_all add: is_digit_def)
qed

lemma parse4_digit:
  assumes "d < 10" "\<not> (digLen = 1 \<and> val = 0)" "val * 10 + d \<le> 255"
  shows "parse4 (digit d # s) start val digLen fs = parse4 s False (val * 10 + d) (Suc digLen) fs"
proof -
  from assms(2) have "(digLen = 1 \<and> val = 0) = False" by simp
  with assms(1,3) show ?thesis by (simp only: parse4.simps digit_props if_True if_False) auto
qed

lemma parse4_Itoa:
  assumes "n < 256"
  shows "\<exists>k. parse4 (Itoa n @ s) start 0 0 fs = parse4 s False n k fs"
proof -
  consider "n < 10" | "10 \<le> n" "n < 100" | "100 \<le> n" by linarith
  then show ?thesis
  proof cases
    case 1
    then have "Itoa n = [digit n]" by (simp add: Itoa.simps)
    with 1 show ?thesis using parse4_digit [of n 0 0 s start fs] by auto
  next
    case 2
    then have "Itoa n = [digit (n div 10), digit (n mod 10)]" by (simp add: Itoa.simps)
    moreover have "n div 10 < 10" "n div 10 \<noteq> 0" using 2 by auto
    moreover have "n div 10 * 10 + n mod 10 = n" by simp
    ultimately show ?thesis using assms
      by (simp add: parse4_digit del: parse4.simps) blast
  next
    case 3
    then have "\<not> n div 10 < 10" "n div 10 div 10 < 10" "n div 10 div 10 = n div 100"
      using assms by (auto simp: div_mult2_eq [symmetric])
    then have "Itoa n = [digit (n div 100), digit (n div 10 mod 10), digit (n mod 10)]"
      using 3 by (simp add: Itoa.simps)
    moreover have "n div 100 < 10" "n div 100 \<noteq> 0" using 3 assms by auto
    moreover have "n div 100 * 10 + n div 10 mod 10 = n div 10"
      using \<open>n div 10 div 10 = n div 100\<close> div_mult_mod_eq [of "n div 10" 10] by simp
    moreover have "n div 10 * 10 + n mod 10 = n" "n div 10 \<le> 255" using assms by auto
    ultimately show ?thesis using assms
      by (simp add: parse4_digit del: parse4.simps) blast
  qed
qed

lemma Itoa_not_Nil [simp]: "Itoa n \<noteq> []"
  by (subst Itoa.simps) simp

lemma digit_inject: "m < 10 \<Longrightarrow> n < 10 \<Longrightarrow> digit m = digit n \<Longrightarrow> m = n"
  using of_char_of [of "48 + m"] of_char_of [of "48 + n"] unfolding digit_def by simp

lemma Itoa_short: "length (Itoa n) = 1 \<longleftrightarrow> n < 10"
  by (subst Itoa.simps) (auto simp: Suc_le_eq)

lemma Itoa_inject [simp]: "Itoa m = Itoa n \<longleftrightarrow> m = n"
proof
  show "Itoa m = Itoa n \<Longrightarrow> m = n"
  proof (induction m arbitrary: n rule: Itoa.induct)
    case (1 m)
    show ?case
    proof (cases "m < 10")
      case True
      with 1(2) have "n < 10" by (metis Itoa_short)
      with True 1(2) show ?thesis by (simp add: Itoa.simps digit_inject)
    next
      case False
      then have m: "Itoa m = Itoa (m div 10) @ [digit (m mod 10)]" by (subst Itoa.simps) simp
      have "\<not> n < 10" using 1(2) False by (metis Itoa_short)
      then have "Itoa n = Itoa (n div 10) @ [digit (n mod 10)]" by (subst Itoa.simps) simp
      with m 1(2) have "Itoa (m div 10) = Itoa (n div 10)" "digit (m mod 10) = digit (n mod 10)" by simp_all
      then have "m div 10 = n div 10" "m mod 10 = n mod 10"
        using 1(1) [OF False] digit_inject by simp_all
      then show ?thesis by (metis div_mult_mod_eq)
    qed
  qed
qed simp

lemma parse4_dot:
  assumes "s \<noteq> []" "length fs < 3"
  shows "parse4 (CHR ''.'' # s) False val k fs = parse4 s True 0 0 (fs @ [val])"
  using assms by (simp add: is_digit_def)

lemma parse4_dotted:
  assumes "a < 256" "b < 256" "c < 256" "d < 256"
  shows "parse4 (dotted [a, b, c, d]) True 0 0 [] = Some [a, b, c, d]"
proof -
  have step: "parse4 (Itoa n @ CHR ''.'' # s) True 0 0 fs = parse4 s True 0 0 (fs @ [n])"
    if "n < 256" "s \<noteq> []" "length fs < 3" for n s fs
    using parse4_Itoa [OF that(1), of "CHR ''.'' # s" True fs] parse4_dot [OF that(2,3)] by auto
  have last: "parse4 (Itoa n) True 0 0 fs = Some (fs @ [n])" if "n < 256" "length fs = 3" for n fs
    using parse4_Itoa [OF that(1), of "[]" True fs] that(2) by auto
  show ?thesis using assms by (simp add: dotted_def step last del: parse4.simps)
qed

text \<open>A dotted text is read as IPv4: its first delimiter is a dot.\<close>

lemma ParseIP_dotted:
  assumes "length b = 4"
  shows "ParseIP (IP_String (Some b)) = Some (v4InV6Prefix @ b)"
proof -
  obtain w x y z where b: "b = [w, x, y, z]"
    using assms by (auto simp: length_Suc_conv numeral_eq_Suc)
  let ?t = "dotted (map unat b)"
  have txt4: "IP_String (Some b) = ?t" using assms b by (simp add: IP_String_def)
  have "dropWhile (\<lambda>c. c \<notin> {CHR ''.'', CHR '':'', CHR ''%''}) ?t
    = CHR ''.'' # drop (Suc (length (Itoa (unat w)))) ?t"
  proof -
    have digits: "\<forall>c \<in> set (Itoa (unat w)). c \<notin> {CHR ''.'', CHR '':'', CHR ''%''}"
      using Itoa_digits [of "unat w"] by auto
    then show ?thesis by (simp add: b dotted_def dropWhile_append2)
  qed
  moreover have "parse4 ?t True 0 0 [] = Some (map unat b)"
    using parse4_dotted unat_u8_less by (simp add: b)
  ultimately show ?thesis
    by (simp add: txt4 ParseIP_def parseIPv4_def comp_def)
qed

section \<open>What is parsed is an address\<close>

lemma parse4_length: "parse4 s start val digLen fs = Some r \<Longrightarrow> length fs \<le> 3 \<Longrightarrow> length r = 4"
  by (induction s start val digLen fs rule: parse4.induct) (auto split: if_splits)

lemma parse6_length:
  "parse6 n s b ellipsis = Some (b', e', rest) \<Longrightarrow> even (length b) \<Longrightarrow> length b \<le> 16 \<Longrightarrow> length b' \<le> 16"
proof (induction n arbitrary: s b ellipsis)
  case (Suc n)
  show ?case
  proof (cases "16 \<le> length b")
    case False
    with Suc.prems have room: "length b + 2 \<le> 16" by presburger
    have ih: "parse6 n t (b @ [x, y]) el = Some (b', e', rest) \<Longrightarrow> length b' \<le> 16" for t x y el
      using Suc.IH [of t "b @ [x, y]" el] Suc.prems(2) room by simp
    from False Suc.prems(1) room show ?thesis
      by (auto simp: Let_def split: option.splits if_splits list.splits prod.splits
          dest!: parse4_length ih)
  qed (use Suc.prems in simp)
qed simp

lemma finish6_length: "finish6 (b, e, s) = Some r \<Longrightarrow> length b \<le> 16 \<Longrightarrow> length r = 16"
  by (auto simp: finish6_def split: if_splits option.splits)

lemma ParseIP_length:
  assumes "ParseIP s = Some b"
  shows "length b = 16"
proof -
  have four: "parseIPv4 s = Some b \<Longrightarrow> length b = 16"
    using parse4_length [of s True 0 0 "[]"] by (auto simp: parseIPv4_def v4InV6Prefix_def)
  have six: "Option.bind (parse6 8 t [] e) finish6 = Some b \<Longrightarrow> length b = 16" for t e
    using parse6_length [of 8 t "[]" e] finish6_length by (cases "parse6 8 t [] e") auto
  have "parseIPv6 s = Some b \<Longrightarrow> length b = 16"
    using six by (auto simp: parseIPv6_def split: if_splits simp del: parse6.simps)
  with four assms show ?thesis by (auto simp: ParseIP_def split: list.splits if_splits)
qed

end
