(* ===== verification/Relay_Table.thy ===== *)
theory Relay_Table
  imports Go_Net
begin

text \<open>
  The table of session reports being relayed (\<^verbatim>\<open>config/config.go\<close>): the adapter
  numbers a report that a user plane raises from its own range, remembers where it came from, and
  hands that back once to whoever answers the report. Every operation here runs under
  \<^verbatim>\<open>reportRelayMutex\<close> and is one atomic step.
\<close>

section \<open>State\<close>

definition reportRelayLifetime :: int where "reportRelayLifetime = 30 * Second"

definition relaySweepInterval :: int where "relaySweepInterval = Second"

definition relaySequenceFloor :: u32 where "relaySequenceFloor = 0x800000"

definition relaySequenceCeil :: u32 where "relaySequenceCeil = 0xFFFFFF"

datatype relay_error = ErrRelaySequenceExhausted | ErrPeerReleased | ErrRelayNotHeld

record relayGeneration =
  releasedAt :: time
  count :: u64

record reportRelay =
  upfAddr :: UDPAddr
  recorded :: time
  upfSeq :: u32
  answered :: bool

record relay_state =
  reportRelays :: "u32 \<rightharpoonup> reportRelay"
  relaysByHost :: "string \<rightharpoonup> u32 set"
  relayGenerations :: "string \<rightharpoonup> relayGeneration"
  reportRelaySeq :: u32
  lastRelaySweep :: time

text \<open>The orders in which the runtime ranges over the maps of this table during one call.\<close>

record relay_orders =
  generations_order :: "string order"
  relays_order :: "u32 order"
  host_order :: "u32 order"

definition legal_orders :: "relay_orders \<Rightarrow> bool" where
  "legal_orders it \<longleftrightarrow> enumerates (generations_order it) \<and> enumerates (relays_order it)
     \<and> enumerates (host_order it)"

definition relay_init :: relay_state where
  "relay_init = \<lparr>reportRelays = Map.empty, relaysByHost = Map.empty,
     relayGenerations = Map.empty, reportRelaySeq = 0, lastRelaySweep = 0\<rparr>"

section \<open>Operations\<close>

text \<open>A map of sets read at a missing key gives the nil map, which holds nothing.\<close>

definition bucket :: "('h \<rightharpoonup> 'k set) \<Rightarrow> 'h \<Rightarrow> 'k set" where
  "bucket m h = (case m h of None \<Rightarrow> {} | Some S \<Rightarrow> S)"

definition host_of :: "reportRelay \<Rightarrow> string" where
  "host_of r = IP_String (addr_IP (upfAddr r))"

definition RelayGeneration :: "string \<Rightarrow> 'a relay_state_scheme \<Rightarrow> u64" where
  "RelayGeneration addr s =
     (case relayGenerations s addr of None \<Rightarrow> 0 | Some g \<Rightarrow> count g)"

definition recordRelayLocked ::
  "u32 \<Rightarrow> reportRelay \<Rightarrow> 'a relay_state_scheme \<Rightarrow> 'a relay_state_scheme" where
  [relay_defs]: "recordRelayLocked relaySeq relay s =
     (let host = host_of relay in
      s\<lparr>reportRelays := (reportRelays s)(relaySeq \<mapsto> relay),
        relaysByHost := (relaysByHost s)(host \<mapsto> insert relaySeq (bucket (relaysByHost s) host))\<rparr>)"

definition dropRelayLocked :: "u32 \<Rightarrow> 'a relay_state_scheme \<Rightarrow> 'a relay_state_scheme" where
  [relay_defs]: "dropRelayLocked relaySeq s =
     (case reportRelays s relaySeq of
        None \<Rightarrow> s
      | Some relay \<Rightarrow>
          let host = host_of relay;
              rest = bucket (relaysByHost s) host - {relaySeq} in
          s\<lparr>reportRelays := (reportRelays s)(relaySeq := None),
            relaysByHost :=
              (if rest = {} then (relaysByHost s)(host := None)
               else (relaysByHost s)(host \<mapsto> rest))\<rparr>)"

definition outlived :: "time \<Rightarrow> time \<Rightarrow> bool" where
  "outlived now since \<longleftrightarrow> reportRelayLifetime < Sub now since"

definition sweepGenerations ::
  "relay_orders \<Rightarrow> time \<Rightarrow> 'a relay_state_scheme \<Rightarrow> 'a relay_state_scheme" where
  "sweepGenerations it now s =
     range_map relayGenerations
       (\<lambda>addr generation s.
          if outlived now (releasedAt generation)
          then s\<lparr>relayGenerations := (relayGenerations s)(addr := None)\<rparr> else s)
       (generations_order it (dom (relayGenerations s))) s"

definition sweepReportRelays ::
  "relay_orders \<Rightarrow> time \<Rightarrow> 'a relay_state_scheme \<Rightarrow> 'a relay_state_scheme" where
  "sweepReportRelays it now s =
     range_map reportRelays
       (\<lambda>held relay s. if outlived now (recorded relay) then dropRelayLocked held s else s)
       (relays_order it (dom (reportRelays s))) s"

definition sweepRelaysLocked ::
  "relay_orders \<Rightarrow> time \<Rightarrow> 'a relay_state_scheme \<Rightarrow> 'a relay_state_scheme" where
  "sweepRelaysLocked it now s =
     (if Sub now (lastRelaySweep s) < relaySweepInterval then s
      else sweepReportRelays it now (sweepGenerations it now (s\<lparr>lastRelaySweep := now\<rparr>)))"

text \<open>The body of the loop: whether one entry of the host's bucket is the report's.\<close>

definition relay_matches :: "UDPAddr \<Rightarrow> u32 \<Rightarrow> time \<Rightarrow> reportRelay \<Rightarrow> bool" where
  "relay_matches addr seq now relay \<longleftrightarrow>
     upfSeq relay = seq \<and> addr_Port (upfAddr relay) = addr_Port addr
     \<and> Sub now (recorded relay) \<le> reportRelayLifetime"

definition relayFromLocked ::
  "relay_orders \<Rightarrow> UDPAddr \<Rightarrow> u32 \<Rightarrow> time \<Rightarrow> 'a relay_state_scheme \<Rightarrow> u32 option" where
  "relayFromLocked it addr seq now s =
     range_find
       (\<lambda>held. case reportRelays s held of
          None \<Rightarrow> None
        | Some relay \<Rightarrow> if relay_matches addr seq now relay then Some held else None)
       (host_order it (bucket (relaysByHost s) (IP_String (addr_IP addr))))"

text \<open>The search: one round per assignable number, counted in 32-bit arithmetic.\<close>

primrec nextFreeLoop :: "nat \<Rightarrow> (u32 \<rightharpoonup> 'r) \<Rightarrow> u32 \<Rightarrow> u32 \<Rightarrow> u32 \<Rightarrow> u32 option" where
  "nextFreeLoop 0 outstanding candidate floor ceil = None"
| "nextFreeLoop (Suc n) outstanding candidate floor ceil =
     (let c = (if candidate < floor \<or> ceil \<le> candidate then floor else candidate + 1) in
      if outstanding c = None then Some c else nextFreeLoop n outstanding c floor ceil)"

definition nextFreeRelaySequence :: "(u32 \<rightharpoonup> 'r) \<Rightarrow> u32 \<Rightarrow> u32 \<Rightarrow> u32 \<Rightarrow> u32 option" where
  "nextFreeRelaySequence outstanding from floor ceil =
     nextFreeLoop (unat (ceil - floor + 1)) outstanding from floor ceil"

definition RelayReportSequence ::
  "relay_orders \<Rightarrow> UDPAddr \<Rightarrow> u32 \<Rightarrow> time \<Rightarrow> u64 \<Rightarrow> 'a relay_state_scheme
   \<Rightarrow> (relay_error + u32 \<times> bool) \<times> 'a relay_state_scheme" where
  "RelayReportSequence it addr seq now authorisedUnder s =
     (if RelayGeneration (IP_String (addr_IP addr)) s \<noteq> authorisedUnder
      then (Inl ErrPeerReleased, s)
      else
        let s = sweepRelaysLocked it now s in
        case relayFromLocked it addr seq now s of
          Some outstanding \<Rightarrow> (Inr (outstanding, False), s)
        | None \<Rightarrow>
            (case nextFreeRelaySequence (reportRelays s) (reportRelaySeq s)
                    relaySequenceFloor relaySequenceCeil of
               None \<Rightarrow> (Inl ErrRelaySequenceExhausted, s)
             | Some candidate \<Rightarrow>
                 (Inr (candidate, True),
                  recordRelayLocked candidate
                    \<lparr>upfAddr = addr, recorded = now, upfSeq = seq, answered = False\<rparr>
                    (s\<lparr>reportRelaySeq := candidate\<rparr>))))"

definition RenumberReportRelay ::
  "u32 \<Rightarrow> 'a relay_state_scheme \<Rightarrow> (relay_error + u32) \<times> 'a relay_state_scheme" where
  "RenumberReportRelay relaySeq s =
     (case reportRelays s relaySeq of
        None \<Rightarrow> (Inl ErrRelayNotHeld, s)
      | Some relay \<Rightarrow>
          (case nextFreeRelaySequence (reportRelays s) (reportRelaySeq s)
                  relaySequenceFloor relaySequenceCeil of
             None \<Rightarrow> (Inl ErrRelaySequenceExhausted, s)
           | Some candidate \<Rightarrow>
               (Inr candidate,
                recordRelayLocked candidate relay
                  ((dropRelayLocked relaySeq s)\<lparr>reportRelaySeq := candidate\<rparr>))))"

definition ForgetRelaysForHost ::
  "relay_orders \<Rightarrow> time \<Rightarrow> string \<Rightarrow> 'a relay_state_scheme \<Rightarrow> 'a relay_state_scheme" where
  "ForgetRelaysForHost it now addr s =
     (let released = \<lparr>releasedAt = now, count = RelayGeneration addr s + 1\<rparr>;
          s = s\<lparr>relayGenerations := (relayGenerations s)(addr \<mapsto> released)\<rparr> in
      range_map (\<lambda>s held. if held \<in> bucket (relaysByHost s) addr then Some () else None)
        (\<lambda>held _ s. dropRelayLocked held s)
        (host_order it (bucket (relaysByHost s) addr)) s)"

definition TakeReportRelay ::
  "u32 \<Rightarrow> time \<Rightarrow> 'a relay_state_scheme \<Rightarrow> (UDPAddr \<times> u32) option \<times> 'a relay_state_scheme" where
  "TakeReportRelay relaySeq now s =
     (case reportRelays s relaySeq of
        None \<Rightarrow> (None, s)
      | Some relay \<Rightarrow>
          if answered relay then (None, s)
          else if reportRelayLifetime < Sub now (recorded relay) then (None, s)
          else (Some (upfAddr relay, upfSeq relay),
                s\<lparr>reportRelays := (reportRelays s)(relaySeq \<mapsto> relay\<lparr>answered := True\<rparr>)\<rparr>))"

definition ForgetReportRelay :: "u32 \<Rightarrow> 'a relay_state_scheme \<Rightarrow> 'a relay_state_scheme" where
  "ForgetReportRelay relaySeq s = dropRelayLocked relaySeq s"

section \<open>The search for a free number\<close>

definition next_seq :: "u32 \<Rightarrow> u32 \<Rightarrow> u32 \<Rightarrow> u32" where
  "next_seq floor ceil c = (if c < floor \<or> ceil \<le> c then floor else c + 1)"

lemma nextFreeLoop_find:
  "nextFreeLoop n outstanding c floor ceil
   = find (\<lambda>x. outstanding x = None) (map (\<lambda>i. (next_seq floor ceil ^^ Suc i) c) [0..<n])"
proof (induction n arbitrary: c)
  case 0
  then show ?case by simp
next
  case (Suc n)
  let ?c = "next_seq floor ceil c"
  have "map (\<lambda>i. (next_seq floor ceil ^^ Suc i) c) [0..<Suc n]
    = ?c # map (\<lambda>i. (next_seq floor ceil ^^ Suc i) ?c) [0..<n]"
    by (simp only: map_upt_Suc funpow_Suc_right comp_apply funpow_0)
  moreover have "nextFreeLoop (Suc n) outstanding c floor ceil
    = (if outstanding ?c = None then Some ?c else nextFreeLoop n outstanding ?c floor ceil)"
    by (simp add: Let_def next_seq_def)
  ultimately show ?case by (simp only: Suc.IH [of ?c] find.simps)
qed

lemma next_seq_range: "floor \<le> ceil \<Longrightarrow> floor \<le> next_seq floor ceil c \<and> next_seq floor ceil c \<le> ceil"
  unfolding next_seq_def by (auto simp: word_succ_le not_le not_less) unat_arith

lemma next_seq_pow_range:
  "floor \<le> ceil \<Longrightarrow> floor \<le> (next_seq floor ceil ^^ Suc i) c \<and> (next_seq floor ceil ^^ Suc i) c \<le> ceil"
  using next_seq_range by simp

text \<open>Seen from the floor, the search steps through the residues of the size of the range.\<close>

lemma next_seq_position:
  assumes "floor \<le> c" "c \<le> ceil"
  shows "unat (next_seq floor ceil c) - unat floor
    = Suc (unat c - unat floor) mod Suc (unat ceil - unat floor)"
proof (cases "c = ceil")
  case True
  then show ?thesis by (simp add: next_seq_def)
next
  case False
  with assms have c: "c < ceil" by simp
  then have "unat (next_seq floor ceil c) = Suc (unat c)"
    using assms by (simp add: next_seq_def not_less [symmetric] unat_u32_Suc)
  moreover have "unat floor \<le> unat c" "unat c < unat ceil"
    using assms c by (simp_all add: word_le_nat_alt word_less_nat_alt)
  ultimately show ?thesis by (simp add: Suc_diff_le)
qed

lemma next_seq_pow_position:
  assumes "floor \<le> c" "c \<le> ceil"
  shows "unat ((next_seq floor ceil ^^ i) c) - unat floor
    = (unat c - unat floor + i) mod Suc (unat ceil - unat floor)"
proof (induction i)
  case 0
  have "unat c - unat floor \<le> unat ceil - unat floor"
    using assms by (simp add: word_le_nat_alt)
  then show ?case by simp
next
  case (Suc i)
  let ?x = "(next_seq floor ceil ^^ i) c"
  have "floor \<le> ?x \<and> ?x \<le> ceil"
    using assms next_seq_pow_range [of floor ceil] by (cases i) auto
  then show ?case using Suc next_seq_position [of floor ?x ceil] by (simp add: mod_Suc_eq)
qed

lemma cyclic_distance: "p < n \<Longrightarrow> q < n \<Longrightarrow> (p + (q + (n - p))) mod n = q" for n :: nat
proof -
  assume "p < n" "q < n"
  then have "p + (q + (n - p)) = q + n" by simp
  with \<open>q < n\<close> show ?thesis by (simp only: mod_add_self2 mod_less)
qed

lemma next_seq_reaches:
  assumes "floor \<le> x" "x \<le> ceil"
  shows "\<exists>i \<le> unat ceil - unat floor. (next_seq floor ceil ^^ Suc i) c = x"
proof -
  let ?N = "Suc (unat ceil - unat floor)" and ?d = "next_seq floor ceil c"
  let ?p = "unat ?d - unat floor" and ?q = "unat x - unat floor"
  have d: "floor \<le> ?d" "?d \<le> ceil" using next_seq_range assms by force+
  have pq: "?p < ?N" "?q < ?N" using d assms by (auto simp: word_le_nat_alt less_Suc_eq_le)
  define i where "i = (?q + (?N - ?p)) mod ?N"
  have "(?p + i) mod ?N = (?p + (?q + (?N - ?p))) mod ?N" by (simp add: i_def mod_add_right_eq)
  also have "\<dots> = ?q" using pq by (simp only: cyclic_distance)
  finally have "unat ((next_seq floor ceil ^^ i) ?d) - unat floor = ?q"
    using next_seq_pow_position [OF d] by simp
  moreover have "floor \<le> (next_seq floor ceil ^^ i) ?d"
    using d next_seq_pow_range [of floor ceil] by (cases i) auto
  ultimately have "unat ((next_seq floor ceil ^^ i) ?d) = unat x"
    using assms by (simp add: word_le_nat_alt)
  then have "(next_seq floor ceil ^^ Suc i) c = x" by (simp add: funpow_swap1 word_unat_eq_iff)
  moreover have "i < ?N" by (simp add: i_def)
  ultimately show ?thesis by (metis less_Suc_eq_le)
qed

lemma trip_count:
  assumes "floor \<le> ceil" "ceil - floor + 1 \<noteq> 0"
  shows "unat (ceil - floor + 1) = Suc (unat ceil - unat floor)"
  using assms by (metis Suc_eq_plus1 add.commute unatSuc unat_sub)

lemma nextFree_Some:
  assumes "floor \<le> ceil" "nextFreeRelaySequence outstanding from floor ceil = Some c"
  shows "outstanding c = None \<and> floor \<le> c \<and> c \<le> ceil"
proof -
  from assms(2) have "outstanding c = None"
    and "\<exists>i. c = (next_seq floor ceil ^^ Suc i) from"
    unfolding nextFreeRelaySequence_def nextFreeLoop_find
    by (auto simp: find_Some_iff simp del: funpow.simps)
  then show ?thesis using next_seq_pow_range [OF assms(1)] by blast
qed

lemma nextFree_None:
  assumes "floor \<le> ceil" "ceil - floor + 1 \<noteq> 0"
    "nextFreeRelaySequence outstanding from floor ceil = None" "floor \<le> x" "x \<le> ceil"
  shows "outstanding x \<noteq> None"
proof -
  obtain i where "i < unat (ceil - floor + 1)" "(next_seq floor ceil ^^ Suc i) from = x"
    using next_seq_reaches [OF assms(4,5), of "from"] trip_count [OF assms(1,2)] by (auto simp: less_Suc_eq_le)
  then show ?thesis using assms(3)
    unfolding nextFreeRelaySequence_def nextFreeLoop_find find_None_iff
    by (auto simp del: funpow.simps)
qed

lemma relay_range [simp]:
  "relaySequenceFloor \<le> relaySequenceCeil" "relaySequenceCeil - relaySequenceFloor + 1 \<noteq> 0"
  by (simp_all add: relaySequenceFloor_def relaySequenceCeil_def)

section \<open>The index is a function of the table\<close>

definition index_of :: "(u32 \<rightharpoonup> reportRelay) \<Rightarrow> string \<rightharpoonup> u32 set" where
  "index_of m host =
     (let S = {k. \<exists>r. m k = Some r \<and> host_of r = host} in if S = {} then None else Some S)"

lemma bucket_index_of [simp]: "bucket (index_of m) host = {k. \<exists>r. m k = Some r \<and> host_of r = host}"
  by (auto simp: bucket_def index_of_def Let_def)

lemma index_of_eqI:
  assumes "\<And>h. bucket I h = {k. \<exists>r. m k = Some r \<and> host_of r = h}" "\<And>h. I h \<noteq> Some {}"
  shows "I = index_of m"
proof (rule ext)
  fix h
  show "I h = index_of m h"
    using assms(1) [of h] assms(2) [of h]
    by (auto simp: bucket_def index_of_def Let_def split: option.splits)
qed

definition relay_inv :: "'a relay_state_scheme \<Rightarrow> bool" where
  "relay_inv s \<longleftrightarrow>
     finite (dom (reportRelays s)) \<and> finite (dom (relayGenerations s))
     \<and> relaysByHost s = index_of (reportRelays s)
     \<and> (\<forall>k \<in> dom (reportRelays s). relaySequenceFloor \<le> k \<and> k \<le> relaySequenceCeil)
     \<and> (reportRelaySeq s = 0
        \<or> relaySequenceFloor \<le> reportRelaySeq s \<and> reportRelaySeq s \<le> relaySequenceCeil)"

lemma relay_inv_init: "relay_inv relay_init"
  by (auto simp: relay_inv_def relay_init_def index_of_def)

subsection \<open>Recording and dropping\<close>

lemma reportRelays_record [simp]:
  "reportRelays (recordRelayLocked k r s) = (reportRelays s)(k \<mapsto> r)"
  by (simp add: recordRelayLocked_def Let_def)

lemma reportRelays_drop [simp]:
  "reportRelays (dropRelayLocked k s) = (reportRelays s)(k := None)"
  by (auto simp: dropRelayLocked_def Let_def split: option.splits)

lemma relay_frame [simp]:
  "relayGenerations (recordRelayLocked k r s) = relayGenerations s"
  "reportRelaySeq (recordRelayLocked k r s) = reportRelaySeq s"
  "lastRelaySweep (recordRelayLocked k r s) = lastRelaySweep s"
  "relay_state.more (recordRelayLocked k r s) = relay_state.more s"
  "relayGenerations (dropRelayLocked k s) = relayGenerations s"
  "reportRelaySeq (dropRelayLocked k s) = reportRelaySeq s"
  "lastRelaySweep (dropRelayLocked k s) = lastRelaySweep s"
  "relay_state.more (dropRelayLocked k s) = relay_state.more s"
  by (auto simp: relay_defs Let_def split: option.splits)

lemma index_record:
  assumes "relaysByHost s = index_of (reportRelays s)" "reportRelays s k = None"
  shows "relaysByHost (recordRelayLocked k r s) = index_of ((reportRelays s)(k \<mapsto> r))"
proof (rule index_of_eqI)
  fix h
  show "bucket (relaysByHost (recordRelayLocked k r s)) h
    = {k'. \<exists>r'. ((reportRelays s)(k \<mapsto> r)) k' = Some r' \<and> host_of r' = h}"
    using assms by (auto simp: recordRelayLocked_def Let_def bucket_def index_of_def)
  show "relaysByHost (recordRelayLocked k r s) h \<noteq> Some {}"
    using assms by (auto simp: recordRelayLocked_def Let_def index_of_def)
qed

lemma index_drop:
  assumes "relaysByHost s = index_of (reportRelays s)"
  shows "relaysByHost (dropRelayLocked k s) = index_of ((reportRelays s)(k := None))"
proof (cases "reportRelays s k")
  case None
  then show ?thesis using assms by (simp add: dropRelayLocked_def fun_upd_idem)
next
  case (Some r)
  show ?thesis
  proof (rule index_of_eqI)
    fix h
    show "bucket (relaysByHost (dropRelayLocked k s)) h
      = {k'. \<exists>r'. ((reportRelays s)(k := None)) k' = Some r' \<and> host_of r' = h}"
      using Some assms by (auto simp: dropRelayLocked_def Let_def bucket_def index_of_def)
    show "relaysByHost (dropRelayLocked k s) h \<noteq> Some {}"
      using Some assms by (auto simp: dropRelayLocked_def Let_def index_of_def)
  qed
qed

lemma relay_inv_drop: "relay_inv s \<Longrightarrow> relay_inv (dropRelayLocked k s)"
  by (auto simp: relay_inv_def index_drop)

lemma relay_inv_record:
  assumes "relay_inv s" "reportRelays s k = None" "relaySequenceFloor \<le> k" "k \<le> relaySequenceCeil"
  shows "relay_inv (recordRelayLocked k r (s\<lparr>reportRelaySeq := k\<rparr>))"
  using assms index_record [of "s\<lparr>reportRelaySeq := k\<rparr>" k r]
  by (auto simp: relay_inv_def)

subsection \<open>The sweep\<close>

lemma outlived_iff: "outlived now t \<longleftrightarrow> 30 * Second < now - t"
  using Sub_le_iff [of reportRelayLifetime now t]
  by (simp add: outlived_def reportRelayLifetime_def maxDuration_def minDuration_def not_le [symmetric])

lemma relay_matches_iff:
  "relay_matches addr seq now r \<longleftrightarrow>
   upfSeq r = seq \<and> addr_Port (upfAddr r) = addr_Port addr \<and> \<not> outlived now (recorded r)"
  by (auto simp: relay_matches_def outlived_def)

lemma sweepGenerations_generations:
  assumes "enumerates (generations_order it)" "finite (dom (relayGenerations s))"
  shows "relayGenerations (sweepGenerations it now s)
    = map_keep (\<lambda>_ g. \<not> outlived now (releasedAt g)) (relayGenerations s)"
  unfolding sweepGenerations_def using assms
  by (intro range_map_keep) auto

lemma sweepGenerations_frame [simp]:
  "reportRelays (sweepGenerations it now s) = reportRelays s"
  "relaysByHost (sweepGenerations it now s) = relaysByHost s"
  "reportRelaySeq (sweepGenerations it now s) = reportRelaySeq s"
  "lastRelaySweep (sweepGenerations it now s) = lastRelaySweep s"
  "relay_state.more (sweepGenerations it now s) = relay_state.more s"
  unfolding sweepGenerations_def by (rule range_map_frame, simp)+

lemma sweepReportRelays_relays:
  assumes "enumerates (relays_order it)" "finite (dom (reportRelays s))"
  shows "reportRelays (sweepReportRelays it now s)
    = map_keep (\<lambda>_ r. \<not> outlived now (recorded r)) (reportRelays s)"
  unfolding sweepReportRelays_def using assms
  by (intro range_map_keep) auto

lemma sweepReportRelays_frame [simp]:
  "relayGenerations (sweepReportRelays it now s) = relayGenerations s"
  "reportRelaySeq (sweepReportRelays it now s) = reportRelaySeq s"
  "lastRelaySweep (sweepReportRelays it now s) = lastRelaySweep s"
  "relay_state.more (sweepReportRelays it now s) = relay_state.more s"
  unfolding sweepReportRelays_def by (rule range_map_frame, simp)+

lemma sweepReportRelays_inv: "relay_inv s \<Longrightarrow> relay_inv (sweepReportRelays it now s)"
  unfolding sweepReportRelays_def by (rule range_map_invariant) (auto intro: relay_inv_drop)

lemma relay_inv_sweepGenerations:
  assumes "relay_inv s" "enumerates (generations_order it)"
  shows "relay_inv (sweepGenerations it now s)"
  using assms by (auto simp: relay_inv_def sweepGenerations_generations)

lemma relay_inv_sweep:
  assumes "relay_inv s" "legal_orders it"
  shows "relay_inv (sweepRelaysLocked it now s)"
proof -
  have "relay_inv (s\<lparr>lastRelaySweep := now\<rparr>)" using assms(1) by (simp add: relay_inv_def)
  then show ?thesis using assms
    by (auto simp: sweepRelaysLocked_def legal_orders_def
        intro!: sweepReportRelays_inv relay_inv_sweepGenerations)
qed

text \<open>
  Whether or not the throttle is open, a sweep removes no entry that is still inside its lifetime.
\<close>

lemma sweep_relays:
  assumes "relay_inv s" "legal_orders it"
  shows "reportRelays (sweepRelaysLocked it now s)
    = (if Sub now (lastRelaySweep s) < relaySweepInterval then reportRelays s
       else map_keep (\<lambda>_ r. \<not> outlived now (recorded r)) (reportRelays s))"
  using assms
  by (simp add: sweepRelaysLocked_def sweepReportRelays_relays relay_inv_def legal_orders_def)

lemma sweep_keeps_live:
  assumes "relay_inv s" "legal_orders it" "\<not> outlived now (recorded r)"
  shows "reportRelays (sweepRelaysLocked it now s) k = Some r \<longleftrightarrow> reportRelays s k = Some r"
  using assms by (simp add: sweep_relays)

lemma sweep_subset:
  assumes "relay_inv s" "legal_orders it" "reportRelays (sweepRelaysLocked it now s) k = Some r"
  shows "reportRelays s k = Some r"
  using assms by (simp add: sweep_relays split: if_splits)

lemma sweep_frame [simp]:
  "reportRelaySeq (sweepRelaysLocked it now s) = reportRelaySeq s"
  "relay_state.more (sweepRelaysLocked it now s) = relay_state.more s"
  by (simp_all add: sweepRelaysLocked_def)

end
