(* ===== verification/Relay_Claims.thy ===== *)
theory Relay_Claims
  imports Relay_Table
begin

text \<open>
  What the report relay promises to the handlers that use it. A report is identified by the text
  of the address it came from, the port and the sequence number its user plane gave it; a claim is
  an entry of the table for that identity that has not outlived its lifetime. The operations are
  the atomic steps of a machine (each takes \<^verbatim>\<open>reportRelayMutex\<close>), and the facts below
  hold for every interleaving of them.
\<close>

section \<open>Claims\<close>

definition same_report :: "UDPAddr \<Rightarrow> u32 \<Rightarrow> reportRelay \<Rightarrow> bool" where
  "same_report addr seq r \<longleftrightarrow>
     host_of r = IP_String (addr_IP addr) \<and> addr_Port (upfAddr r) = addr_Port addr \<and> upfSeq r = seq"

definition claimed :: "time \<Rightarrow> UDPAddr \<Rightarrow> u32 \<Rightarrow> 'a relay_state_scheme \<Rightarrow> u32 set" where
  "claimed now addr seq s =
     {k. \<exists>r. reportRelays s k = Some r \<and> same_report addr seq r \<and> \<not> outlived now (recorded r)}"

lemma answered_irrelevant [simp]:
  "host_of (r\<lparr>answered := b\<rparr>) = host_of r"
  "same_report addr seq (r\<lparr>answered := b\<rparr>) = same_report addr seq r"
  by (simp_all add: host_of_def same_report_def)

lemma host_bucket:
  "relay_inv s \<Longrightarrow> bucket (relaysByHost s) h = {k. \<exists>r. reportRelays s k = Some r \<and> host_of r = h}"
  by (simp add: relay_inv_def)

lemma finite_host_bucket: "relay_inv s \<Longrightarrow> finite (bucket (relaysByHost s) h)"
  by (rule finite_subset [of _ "dom (reportRelays s)"]) (auto simp: host_bucket relay_inv_def)

lemma relayFromLocked_None:
  assumes "relay_inv s" "legal_orders it"
  shows "relayFromLocked it addr seq now s = None \<longleftrightarrow> claimed now addr seq s = {}"
  using assms finite_host_bucket [OF assms(1)]
  by (auto simp: relayFromLocked_def range_find_None legal_orders_def host_bucket claimed_def
      same_report_def relay_matches_iff split: option.splits if_splits)

lemma relayFromLocked_Some:
  assumes "relay_inv s" "legal_orders it" "relayFromLocked it addr seq now s = Some k"
  shows "k \<in> claimed now addr seq s"
  using assms finite_host_bucket [OF assms(1)]
  by (auto simp: relayFromLocked_def legal_orders_def host_bucket claimed_def
      same_report_def relay_matches_iff split: option.splits if_splits dest!: range_find_SomeD)

lemma claimed_sweep:
  assumes "relay_inv s" "legal_orders it"
  shows "claimed now addr seq (sweepRelaysLocked it now s) = claimed now addr seq s"
  unfolding claimed_def using sweep_keeps_live [OF assms] by blast

text \<open>The four outcomes of a claim.\<close>

abbreviation new_relay :: "UDPAddr \<Rightarrow> u32 \<Rightarrow> time \<Rightarrow> reportRelay" where
  "new_relay addr seq now \<equiv> \<lparr>upfAddr = addr, recorded = now, upfSeq = seq, answered = False\<rparr>"

lemma RelayReportSequence_cases:
  assumes "relay_inv s" "legal_orders it"
  obtains (Released) "RelayGeneration (IP_String (addr_IP addr)) s \<noteq> gen"
      "RelayReportSequence it addr seq now gen s = (Inl ErrPeerReleased, s)"
  | (Known) k where "RelayGeneration (IP_String (addr_IP addr)) s = gen"
      "k \<in> claimed now addr seq s"
      "RelayReportSequence it addr seq now gen s = (Inr (k, False), sweepRelaysLocked it now s)"
  | (Exhausted) "RelayGeneration (IP_String (addr_IP addr)) s = gen"
      "claimed now addr seq s = {}"
      "\<And>x. relaySequenceFloor \<le> x \<Longrightarrow> x \<le> relaySequenceCeil
        \<Longrightarrow> reportRelays (sweepRelaysLocked it now s) x \<noteq> None"
      "RelayReportSequence it addr seq now gen s
        = (Inl ErrRelaySequenceExhausted, sweepRelaysLocked it now s)"
  | (Fresh) k where "RelayGeneration (IP_String (addr_IP addr)) s = gen"
      "claimed now addr seq s = {}"
      "reportRelays (sweepRelaysLocked it now s) k = None"
      "relaySequenceFloor \<le> k" "k \<le> relaySequenceCeil"
      "RelayReportSequence it addr seq now gen s
        = (Inr (k, True), recordRelayLocked k (new_relay addr seq now)
             ((sweepRelaysLocked it now s)\<lparr>reportRelaySeq := k\<rparr>))"
proof -
  let ?t = "sweepRelaysLocked it now s"
  let ?free = "nextFreeRelaySequence (reportRelays ?t) (reportRelaySeq ?t)
    relaySequenceFloor relaySequenceCeil"
  note inv = relay_inv_sweep [OF assms, of now]
  show thesis
  proof (cases "RelayGeneration (IP_String (addr_IP addr)) s = gen")
    case False
    then show thesis by (intro Released) (simp_all add: RelayReportSequence_def)
  next
    case gen: True
    show thesis
    proof (cases "relayFromLocked it addr seq now ?t")
      case (Some k)
      then have "k \<in> claimed now addr seq s"
        using relayFromLocked_Some [OF inv assms(2)] claimed_sweep [OF assms] by metis
      then show thesis using gen Some
        by (intro Known [of k]) (simp_all add: RelayReportSequence_def)
    next
      case None
      then have none: "claimed now addr seq s = {}"
        using relayFromLocked_None [OF inv assms(2)] claimed_sweep [OF assms] by simp
      show thesis
      proof (cases ?free)
        case free: None
        have "reportRelays ?t x \<noteq> None"
          if "relaySequenceFloor \<le> x" "x \<le> relaySequenceCeil" for x
          using nextFree_None [OF _ _ free] that by simp
        then show thesis using gen None none free
          by (intro Exhausted) (simp_all add: RelayReportSequence_def)
      next
        case (Some k)
        then show thesis using gen None none nextFree_Some [OF _ Some]
          by (intro Fresh [of k]) (simp_all add: RelayReportSequence_def)
      qed
    qed
  qed
qed

section \<open>The machine\<close>

datatype relay_op =
    Claim relay_orders UDPAddr u32 time u64
  | Renumber u32
  | Release relay_orders time string
  | Take u32 time
  | Forget u32

fun relay_exec :: "relay_op \<Rightarrow> 'a relay_state_scheme \<Rightarrow> 'a relay_state_scheme" where
  "relay_exec (Claim it addr seq now gen) s = snd (RelayReportSequence it addr seq now gen s)"
| "relay_exec (Renumber k) s = snd (RenumberReportRelay k s)"
| "relay_exec (Release it now host) s = ForgetRelaysForHost it now host s"
| "relay_exec (Take k now) s = snd (TakeReportRelay k now s)"
| "relay_exec (Forget k) s = ForgetReportRelay k s"

fun relay_legal :: "relay_op \<Rightarrow> 'a relay_state_scheme \<Rightarrow> bool" where
  "relay_legal (Claim it _ _ _ _) s = legal_orders it"
| "relay_legal (Release it _ _) s = legal_orders it"
| "relay_legal _ s = True"

subsection \<open>The effect of each operation on the table\<close>

lemma RenumberReportRelay_cases:
  obtains (NotHeld) "reportRelays s k = None" "RenumberReportRelay k s = (Inl ErrRelayNotHeld, s)"
  | (Exhausted) r where "reportRelays s k = Some r"
      "\<And>x. relaySequenceFloor \<le> x \<Longrightarrow> x \<le> relaySequenceCeil \<Longrightarrow> reportRelays s x \<noteq> None"
      "RenumberReportRelay k s = (Inl ErrRelaySequenceExhausted, s)"
  | (Moved) r k' where "reportRelays s k = Some r" "reportRelays s k' = None" "k' \<noteq> k"
      "relaySequenceFloor \<le> k'" "k' \<le> relaySequenceCeil"
      "RenumberReportRelay k s = (Inr k', recordRelayLocked k' r
         ((dropRelayLocked k s)\<lparr>reportRelaySeq := k'\<rparr>))"
proof -
  let ?free = "nextFreeRelaySequence (reportRelays s) (reportRelaySeq s)
    relaySequenceFloor relaySequenceCeil"
  show thesis
  proof (cases "reportRelays s k")
    case None
    then show thesis by (intro NotHeld) (simp_all add: RenumberReportRelay_def)
  next
    case held: (Some r)
    show thesis
    proof (cases ?free)
      case None
      have "reportRelays s x \<noteq> None" if "relaySequenceFloor \<le> x" "x \<le> relaySequenceCeil" for x
        using nextFree_None [OF _ _ None] that by simp
      then show thesis using held None by (intro Exhausted [of r]) (simp_all add: RenumberReportRelay_def)
    next
      case (Some k')
      then show thesis using held nextFree_Some [OF _ Some]
        by (intro Moved [of r k']) (auto simp: RenumberReportRelay_def)
    qed
  qed
qed

text \<open>The loop of a release drops what the ranged keys hold for the host, and nothing else.\<close>

lemma release_loop:
  assumes "relay_inv t"
  shows "relay_inv (range_map (\<lambda>s k. if k \<in> bucket (relaysByHost s) h then Some () else None)
           (\<lambda>k _. dropRelayLocked k) ks t)
    \<and> reportRelays (range_map (\<lambda>s k. if k \<in> bucket (relaysByHost s) h then Some () else None)
           (\<lambda>k _. dropRelayLocked k) ks t)
      = map_keep (\<lambda>k r. \<not> (k \<in> set ks \<and> host_of r = h)) (reportRelays t)"
  using assms
proof (induction ks arbitrary: t)
  case Nil
  then show ?case by (simp add: map_keep_all)
next
  case (Cons k ks)
  have step: "k \<in> bucket (relaysByHost t) h \<longleftrightarrow> (\<exists>r. reportRelays t k = Some r \<and> host_of r = h)"
    using Cons.prems by (simp add: host_bucket)
  show ?case
  proof (cases "k \<in> bucket (relaysByHost t) h")
    case True
    then have "map_keep (\<lambda>x r. \<not> (x \<in> set ks \<and> host_of r = h)) (reportRelays (dropRelayLocked k t))
      = map_keep (\<lambda>x r. \<not> (x \<in> set (k # ks) \<and> host_of r = h)) (reportRelays t)"
      using step unfolding reportRelays_drop map_keep_delete by (auto intro: map_keep_cong)
    with True Cons.IH [OF relay_inv_drop [OF Cons.prems, of k]] show ?thesis
      by (simp only: range_map.simps if_True option.case simp_thms)
  next
    case False
    then have "map_keep (\<lambda>x r. \<not> (x \<in> set ks \<and> host_of r = h)) (reportRelays t)
      = map_keep (\<lambda>x r. \<not> (x \<in> set (k # ks) \<and> host_of r = h)) (reportRelays t)"
      using step by (auto intro: map_keep_cong)
    with False Cons.IH [OF Cons.prems] show ?thesis by simp
  qed
qed

lemma release_relays:
  assumes "relay_inv s" "legal_orders it"
  shows "relay_inv (ForgetRelaysForHost it now h s)"
    and "reportRelays (ForgetRelaysForHost it now h s)
      = map_keep (\<lambda>_ r. host_of r \<noteq> h) (reportRelays s)"
proof -
  let ?g = "\<lparr>releasedAt = now, count = RelayGeneration h s + 1\<rparr>"
  let ?s = "s\<lparr>relayGenerations := (relayGenerations s)(h \<mapsto> ?g)\<rparr>"
  let ?ks = "host_order it (bucket (relaysByHost ?s) h)"
  have inv: "relay_inv ?s" using assms(1) by (simp add: relay_inv_def)
  have ks: "set ?ks = {k. \<exists>r. reportRelays s k = Some r \<and> host_of r = h}"
    using assms finite_host_bucket [OF assms(1)] by (simp add: legal_orders_def host_bucket)
  show "relay_inv (ForgetRelaysForHost it now h s)"
    using release_loop [OF inv] by (simp add: ForgetRelaysForHost_def Let_def)
  have "map_keep (\<lambda>k r. \<not> (k \<in> set ?ks \<and> host_of r = h)) (reportRelays s)
    = map_keep (\<lambda>_ r. host_of r \<noteq> h) (reportRelays s)"
    unfolding ks by (auto intro: map_keep_cong)
  then show "reportRelays (ForgetRelaysForHost it now h s)
    = map_keep (\<lambda>_ r. host_of r \<noteq> h) (reportRelays s)"
    using release_loop [OF inv, of h ?ks] by (simp add: ForgetRelaysForHost_def Let_def)
qed

lemma release_generation:
  "RelayGeneration h' (ForgetRelaysForHost it now h s)
   = (if h' = h then RelayGeneration h s + 1 else RelayGeneration h' s)"
proof -
  have frame: "relayGenerations (range_map tab (\<lambda>k _. dropRelayLocked k) ks t) = relayGenerations t"
    for tab ks and t :: "'a relay_state_scheme"
    by (rule range_map_frame) simp
  show ?thesis by (simp add: ForgetRelaysForHost_def Let_def RelayGeneration_def frame)
qed

lemma release_more:
  "relay_state.more (ForgetRelaysForHost it now h s) = relay_state.more s"
proof -
  have frame: "relay_state.more (range_map tab (\<lambda>k _. dropRelayLocked k) ks t) = relay_state.more t"
    for tab ks and t :: "'a relay_state_scheme"
    by (rule range_map_frame) simp
  show ?thesis by (simp add: ForgetRelaysForHost_def Let_def frame)
qed

lemma TakeReportRelay_relays:
  "reportRelays (snd (TakeReportRelay k now s)) j = Some r \<Longrightarrow>
   \<exists>r'. reportRelays s j = Some r' \<and> r = r'\<lparr>answered := answered r\<rparr>"
  by (auto simp: TakeReportRelay_def split: option.splits if_splits)

subsection \<open>Every operation keeps the invariant\<close>

lemma claim_inv:
  assumes "relay_inv s" "legal_orders it"
  shows "relay_inv (snd (RelayReportSequence it addr seq now gen s))"
  using assms
  by (cases rule: RelayReportSequence_cases [OF assms, of addr gen seq now])
    (auto intro: relay_inv_record relay_inv_sweep)

lemma renumber_inv:
  assumes "relay_inv s"
  shows "relay_inv (snd (RenumberReportRelay k s))"
  using assms
  by (cases rule: RenumberReportRelay_cases [of s k])
    (auto intro!: relay_inv_record relay_inv_drop)

lemma take_inv: "relay_inv s \<Longrightarrow> relay_inv (snd (TakeReportRelay k now s))"
proof (cases "fst (TakeReportRelay k now s)")
  case None
  moreover assume "relay_inv s"
  ultimately show ?thesis by (auto simp: TakeReportRelay_def split: option.splits if_splits)
next
  case (Some x)
  assume inv: "relay_inv s"
  from Some obtain r where r: "reportRelays s k = Some r"
    and eq: "snd (TakeReportRelay k now s)
      = s\<lparr>reportRelays := (reportRelays s)(k \<mapsto> r\<lparr>answered := True\<rparr>)\<rparr>"
    by (auto simp: TakeReportRelay_def split: option.splits if_splits)
  have "index_of ((reportRelays s)(k \<mapsto> r\<lparr>answered := True\<rparr>)) = index_of (reportRelays s)"
    using r by (intro ext) (auto simp: index_of_def Let_def host_of_def)
  moreover have "dom ((reportRelays s)(k \<mapsto> r\<lparr>answered := True\<rparr>)) = dom (reportRelays s)"
    using r by auto
  ultimately show ?thesis using inv unfolding eq relay_inv_def by simp
qed

interpretation relay: guarded_machine relay_exec relay_inv relay_legal
proof
  fix s :: "'a relay_state_scheme" and op
  assume "relay_inv s" "relay_legal op s"
  then show "relay_inv (relay_exec op s)"
    by (cases op) (auto simp: ForgetReportRelay_def
        intro: claim_inv renumber_inv release_relays(1) take_inv relay_inv_drop)
qed

section \<open>A claim survives until it is ended\<close>

definition held_since :: "UDPAddr \<Rightarrow> u32 \<Rightarrow> time \<Rightarrow> 'a relay_state_scheme \<Rightarrow> bool" where
  "held_since addr seq t s \<longleftrightarrow>
     (\<exists>k r. reportRelays s k = Some r \<and> same_report addr seq r \<and> recorded r = t)"

text \<open>
  What may happen meanwhile: anything but giving up that report, releasing its host, or a claim
  whose clock is past the report's lifetime (whose sweep may drop it).
\<close>

fun spares_claim :: "UDPAddr \<Rightarrow> u32 \<Rightarrow> time \<Rightarrow> relay_op \<Rightarrow> 'a relay_state_scheme \<Rightarrow> bool" where
  "spares_claim addr seq t (Claim _ _ _ now _) s \<longleftrightarrow> \<not> outlived now t"
| "spares_claim addr seq t (Release _ _ h) s \<longleftrightarrow> h \<noteq> IP_String (addr_IP addr)"
| "spares_claim addr seq t (Forget k) s \<longleftrightarrow>
     (case reportRelays s k of None \<Rightarrow> True | Some r \<Rightarrow> \<not> same_report addr seq r)"
| "spares_claim addr seq t _ s \<longleftrightarrow> True"

lemma claim_keeps_entry:
  assumes "relay_inv s" "legal_orders it" "reportRelays s k = Some r" "\<not> outlived now (recorded r)"
  shows "reportRelays (snd (RelayReportSequence it addr seq now gen s)) k = Some r"
proof -
  note kept = sweep_keeps_live [OF assms(1,2,4), of k] assms(3)
  show ?thesis
    by (cases rule: RelayReportSequence_cases [OF assms(1,2), of addr gen seq now])
      (use kept in auto)
qed

lemma renumber_keeps_report:
  assumes "reportRelays s k = Some r"
  shows "\<exists>k'. reportRelays (snd (RenumberReportRelay j s)) k' = Some r"
proof (cases rule: RenumberReportRelay_cases [of s j])
  case (Moved r' k')
  then have "reportRelays (snd (RenumberReportRelay j s)) (if k = j then k' else k) = Some r"
    using assms by auto
  then show ?thesis ..
qed (use assms in auto)

lemma take_keeps_report:
  assumes "reportRelays s k = Some r"
  shows "\<exists>b. reportRelays (snd (TakeReportRelay j now s)) k = Some (r\<lparr>answered := b\<rparr>)"
proof -
  have self: "\<exists>b. r = r\<lparr>answered := b\<rparr>" by (rule exI [of _ "answered r"]) simp
  show ?thesis using assms self by (auto simp: TakeReportRelay_def split: option.splits)
qed

interpretation claim: tracked_machine relay_exec relay_inv relay_legal
  "held_since addr seq t" "spares_claim addr seq t" for addr seq t
proof
  fix s :: "'a relay_state_scheme" and op
  assume inv: "relay_inv s" and legal: "relay_legal op s" and held: "held_since addr seq t s"
    and spared: "spares_claim addr seq t op s"
  from held obtain k r where k: "reportRelays s k = Some r" "same_report addr seq r" "recorded r = t"
    by (auto simp: held_since_def)
  show "held_since addr seq t (relay_exec op s)"
  proof (cases op)
    case (Claim it a q now gen)
    with inv legal spared k claim_keeps_entry [of s it k r now a q gen] show ?thesis
      by (auto simp: held_since_def)
  next
    case (Renumber j)
    with k renumber_keeps_report [of s k r j] show ?thesis by (auto simp: held_since_def)
  next
    case (Release it now h)
    with inv legal spared k show ?thesis
      by (auto simp: held_since_def release_relays(2) same_report_def)
  next
    case (Take j now)
    from take_keeps_report [OF k(1), of j now] obtain b
      where "reportRelays (snd (TakeReportRelay j now s)) k = Some (r\<lparr>answered := b\<rparr>)" ..
    with Take k show ?thesis unfolding held_since_def
      by (intro exI [of _ k] exI [of _ "r\<lparr>answered := b\<rparr>"]) simp
  next
    case (Forget j)
    with spared k have "j \<noteq> k" by auto
    with Forget k show ?thesis unfolding held_since_def
      by (intro exI [of _ k] exI [of _ r]) (simp add: ForgetReportRelay_def)
  qed
qed

section \<open>An answered report is answered once\<close>

definition answered_at :: "u32 \<Rightarrow> 'a relay_state_scheme \<Rightarrow> bool" where
  "answered_at k s \<longleftrightarrow> (\<exists>r. reportRelays s k = Some r \<and> answered r)"

text \<open>The operations that leave the entry under that number in place.\<close>

fun keeps_entry :: "u32 \<Rightarrow> relay_op \<Rightarrow> 'a relay_state_scheme \<Rightarrow> bool" where
  "keeps_entry k (Claim _ _ _ now _) s \<longleftrightarrow>
     (case reportRelays s k of None \<Rightarrow> True | Some r \<Rightarrow> \<not> outlived now (recorded r))"
| "keeps_entry k (Renumber j) s \<longleftrightarrow> j \<noteq> k"
| "keeps_entry k (Release _ _ h) s \<longleftrightarrow>
     (case reportRelays s k of None \<Rightarrow> True | Some r \<Rightarrow> host_of r \<noteq> h)"
| "keeps_entry k (Forget j) s \<longleftrightarrow> j \<noteq> k"
| "keeps_entry k (Take _ _) s \<longleftrightarrow> True"

interpretation answer: tracked_machine relay_exec relay_inv relay_legal
  "answered_at k" "keeps_entry k" for k
proof
  fix s :: "'a relay_state_scheme" and op
  assume inv: "relay_inv s" and legal: "relay_legal op s" and ans: "answered_at k s"
    and kept: "keeps_entry k op s"
  from ans obtain r where r: "reportRelays s k = Some r" "answered r" by (auto simp: answered_at_def)
  show "answered_at k (relay_exec op s)"
  proof (cases op)
    case (Claim it a q now gen)
    with inv legal kept r claim_keeps_entry [of s it k r now a q gen] show ?thesis
      by (auto simp: answered_at_def)
  next
    case (Renumber j)
    with kept r show ?thesis
      by (cases rule: RenumberReportRelay_cases [of s j]) (auto simp: answered_at_def)
  next
    case (Release it now h)
    with inv legal kept r show ?thesis by (auto simp: answered_at_def release_relays(2))
  next
    case (Take j now)
    with r show ?thesis
      by (auto simp: answered_at_def TakeReportRelay_def split: option.splits)
  next
    case (Forget j)
    with kept r show ?thesis by (auto simp: answered_at_def ForgetReportRelay_def)
  qed
qed

lemma take_answered: "answered_at k s \<Longrightarrow> TakeReportRelay k now s = (None, s)"
  by (auto simp: answered_at_def TakeReportRelay_def)

lemma take_marks_answered:
  "fst (TakeReportRelay k now s) \<noteq> None \<Longrightarrow> answered_at k (snd (TakeReportRelay k now s))"
  by (auto simp: answered_at_def TakeReportRelay_def split: option.splits if_splits)

end
