(* ===== verification/Relay_Properties.thy ===== *)
theory Relay_Properties
  imports Relay_Claims
begin

text \<open>
  The properties of the report relay: what a claim gives, that a retransmission never becomes a
  second relay, that a report is answered once and to its origin, and what a release does.
\<close>

section \<open>One number per report\<close>

text \<open>
  Two entries that are both inside their lifetime are never for the same report. The operations
  of a run read their clocks before they take the lock, so their readings need not be in order;
  a run carries the latest of them.
\<close>

definition unique_claims :: "time \<Rightarrow> 'a relay_state_scheme \<Rightarrow> bool" where
  "unique_claims now s \<longleftrightarrow>
     (\<forall>k1 k2 r1 r2. reportRelays s k1 = Some r1 \<longrightarrow> reportRelays s k2 = Some r2
        \<longrightarrow> \<not> outlived now (recorded r1) \<longrightarrow> \<not> outlived now (recorded r2)
        \<longrightarrow> same_report (upfAddr r1) (upfSeq r1) r2 \<longrightarrow> k1 = k2)"

fun op_time :: "relay_op \<Rightarrow> time \<Rightarrow> time" where
  "op_time (Claim _ _ _ now _) t = now"
| "op_time (Release _ now _) t = now"
| "op_time (Take _ now) t = now"
| "op_time _ t = t"

definition clocked_exec :: "relay_op \<Rightarrow> time \<times> 'a relay_state_scheme \<Rightarrow> time \<times> 'a relay_state_scheme" where
  "clocked_exec op ts = (max (fst ts) (op_time op (fst ts)), relay_exec op (snd ts))"

lemma unique_claimsD:
  "unique_claims t s \<Longrightarrow> reportRelays s k1 = Some r1 \<Longrightarrow> reportRelays s k2 = Some r2
   \<Longrightarrow> \<not> outlived t (recorded r1) \<Longrightarrow> \<not> outlived t (recorded r2)
   \<Longrightarrow> same_report (upfAddr r1) (upfSeq r1) r2 \<Longrightarrow> k1 = k2"
  unfolding unique_claims_def by blast

lemma outlived_mono: "outlived t u \<Longrightarrow> t \<le> t' \<Longrightarrow> outlived t' u"
  by (simp add: outlived_iff)

lemma unique_claims_mono: "unique_claims t s \<Longrightarrow> t \<le> t' \<Longrightarrow> unique_claims t' s"
  unfolding unique_claims_def using outlived_mono by blast

text \<open>An operation that moves entries without making new ones keeps them unique.\<close>

lemma unique_claims_embed:
  assumes "unique_claims t s"
    "\<And>k r. reportRelays s' k = Some r \<Longrightarrow>
       \<exists>r'. reportRelays s (f k) = Some r' \<and> upfAddr r = upfAddr r' \<and> upfSeq r = upfSeq r'
         \<and> recorded r = recorded r'"
    "\<And>k1 k2. f k1 = f k2 \<Longrightarrow> reportRelays s' k1 \<noteq> None \<Longrightarrow> reportRelays s' k2 \<noteq> None \<Longrightarrow> k1 = k2"
  shows "unique_claims t s'"
  unfolding unique_claims_def
proof (intro allI impI)
  fix k1 k2 r1 r2
  assume e: "reportRelays s' k1 = Some r1" "reportRelays s' k2 = Some r2"
    "\<not> outlived t (recorded r1)" "\<not> outlived t (recorded r2)" "same_report (upfAddr r1) (upfSeq r1) r2"
  from assms(2) [OF e(1)] obtain r1' where
    1: "reportRelays s (f k1) = Some r1'" "upfAddr r1 = upfAddr r1'" "upfSeq r1 = upfSeq r1'"
       "recorded r1 = recorded r1'" by blast
  from assms(2) [OF e(2)] obtain r2' where
    2: "reportRelays s (f k2) = Some r2'" "upfAddr r2 = upfAddr r2'" "upfSeq r2 = upfSeq r2'"
       "recorded r2 = recorded r2'" by blast
  have "same_report (upfAddr r1') (upfSeq r1') r2'"
    using e(5) 1 2 by (simp add: same_report_def host_of_def)
  then have "f k1 = f k2" using unique_claimsD [OF assms(1) 1(1) 2(1)] 1 2 e by simp
  then show "k1 = k2" using assms(3) e by simp
qed

lemma unique_claims_shrink:
  assumes "unique_claims t s" "\<And>k r. reportRelays s' k = Some r \<Longrightarrow> reportRelays s k = Some r"
  shows "unique_claims t s'"
  by (rule unique_claims_embed [OF assms(1), where f = id]) (use assms(2) in auto)

lemma same_report_sym:
  "same_report (upfAddr r1) (upfSeq r1) r2 \<longleftrightarrow> same_report (upfAddr r2) (upfSeq r2) r1"
  by (auto simp: same_report_def host_of_def)

lemma unique_claims_claim:
  assumes "relay_inv s" "legal_orders it" "unique_claims t s" "now \<le> t"
  shows "unique_claims t (snd (RelayReportSequence it addr seq now gen s))"
proof -
  let ?t = "sweepRelaysLocked it now s"
  have swept: "unique_claims t ?t"
    by (rule unique_claims_shrink [OF assms(3)]) (rule sweep_subset [OF assms(1,2)])
  from assms(1,2) show ?thesis
  proof (cases rule: RelayReportSequence_cases [where addr = addr and gen = gen and seq = seq and now = now])
    case (Fresh k)
    have none: "claimed now addr seq ?t = {}" using Fresh(2) claimed_sweep [OF assms(1,2)] by simp
    have other: "\<not> same_report addr seq r"
      if "reportRelays ?t j = Some r" "\<not> outlived t (recorded r)" for j r
      using none that outlived_mono [OF _ assms(4)] by (auto simp: claimed_def)
    let ?n = "new_relay addr seq now"
    have new: "same_report (upfAddr ?n) (upfSeq ?n) r = same_report addr seq r" for r by simp
    show ?thesis unfolding unique_claims_def
    proof (intro allI impI)
      fix k1 k2 r1 r2
      assume e: "reportRelays (snd (RelayReportSequence it addr seq now gen s)) k1 = Some r1"
        "reportRelays (snd (RelayReportSequence it addr seq now gen s)) k2 = Some r2"
        "\<not> outlived t (recorded r1)" "\<not> outlived t (recorded r2)"
        "same_report (upfAddr r1) (upfSeq r1) r2"
      show "k1 = k2"
      proof (rule ccontr)
        assume ne: "k1 \<noteq> k2"
        consider "k1 = k" | "k2 = k" | "k1 \<noteq> k" "k2 \<noteq> k" by blast
        then show False
        proof cases
          case 1
          with ne e Fresh(6) have "reportRelays ?t k2 = Some r2" "r1 = ?n" by auto
          with other [of k2 r2] e show False by simp
        next
          case 2
          with ne e Fresh(6) have "reportRelays ?t k1 = Some r1" "r2 = ?n" by auto
          moreover have "same_report (upfAddr r2) (upfSeq r2) r1" using e(5) same_report_sym by blast
          ultimately show False using other [of k1 r1] e(3) by simp
        next
          case 3
          with e Fresh(6) have "reportRelays ?t k1 = Some r1" "reportRelays ?t k2 = Some r2" by auto
          with unique_claimsD [OF swept] e ne show False by blast
        qed
      qed
    qed
  qed (use swept assms(3) in simp_all)
qed

lemma unique_claims_renumber:
  assumes "unique_claims t s"
  shows "unique_claims t (snd (RenumberReportRelay k s))"
proof (cases rule: RenumberReportRelay_cases [of s k])
  case (Moved r k')
  then show ?thesis
    by (intro unique_claims_embed [OF assms, where f = "\<lambda>j. if j = k' then k else j"])
      (auto split: if_splits)
qed (use assms in simp_all)

interpretation clocked: guarded_machine clocked_exec
  "\<lambda>ts. relay_inv (snd ts) \<and> unique_claims (fst ts) (snd ts)" "\<lambda>op ts. relay_legal op (snd ts)"
proof
  fix ts :: "time \<times> 'a relay_state_scheme" and op
  assume a: "relay_inv (snd ts) \<and> unique_claims (fst ts) (snd ts)" "relay_legal op (snd ts)"
  obtain t s where ts: "ts = (t, s)" by (cases ts)
  let ?t = "max t (op_time op t)"
  from a ts have inv: "relay_inv s" "relay_legal op s" and u: "unique_claims ?t s"
    by (auto intro: unique_claims_mono)
  have "unique_claims ?t (relay_exec op s)"
  proof (cases op)
    case (Claim it a q now gen)
    with inv u show ?thesis by (simp add: unique_claims_claim)
  next
    case (Renumber k)
    with u show ?thesis by (simp add: unique_claims_renumber)
  next
    case (Release it now h)
    with inv u show ?thesis
      by (auto simp: release_relays(2) intro: unique_claims_shrink)
  next
    case (Take k now)
    have "\<exists>r'. reportRelays s j = Some r' \<and> upfAddr r = upfAddr r' \<and> upfSeq r = upfSeq r'
        \<and> recorded r = recorded r'"
      if "reportRelays (snd (TakeReportRelay k now s)) j = Some r" for j r
      using TakeReportRelay_relays [OF that] by (metis reportRelay.select_convs(1-3)
        reportRelay.surjective reportRelay.update_convs(4))
    with Take u show ?thesis
      by (auto intro: unique_claims_embed [where f = id])
  next
    case (Forget k)
    with u show ?thesis
      by (auto simp: ForgetReportRelay_def split: if_splits intro: unique_claims_shrink)
  qed
  with inv show "relay_inv (snd (clocked_exec op ts))
    \<and> unique_claims (fst (clocked_exec op ts)) (snd (clocked_exec op ts))"
    by (simp add: clocked_exec_def ts relay.exec_inv)
qed

section \<open>A concrete table\<close>

text \<open>
  The inputs of the witnesses: one user plane, the orders that sort the keys, and the table after
  its first report.
\<close>

definition std_orders :: relay_orders where
  "std_orders = \<lparr>generations_order = sorted_list_of_set, relays_order = sorted_list_of_set,
     host_order = sorted_list_of_set\<rparr>"

definition secs :: "int \<Rightarrow> time" where "secs n = n * Second"

definition upf_a :: UDPAddr where
  "upf_a = \<lparr>addr_IP = Some [10, 42, 0, 184], addr_Port = 8805, addr_Zone = []\<rparr>"

definition one_claim :: relay_state where
  "one_claim = snd (RelayReportSequence std_orders upf_a 7 (secs 100) 0 relay_init)"

lemma std_orders_legal [simp]: "legal_orders std_orders"
  by (simp add: legal_orders_def std_orders_def)

lemma nextFreeLoop_unfold:
  "0 < n \<Longrightarrow> nextFreeLoop n outstanding candidate floor ceil =
     (let c = (if candidate < floor \<or> ceil \<le> candidate then floor else candidate + 1) in
      if outstanding c = None then Some c else nextFreeLoop (n - 1) outstanding c floor ceil)"
  by (cases n) (auto simp: Let_def)

lemma first_claim:
  "RelayReportSequence std_orders upf_a 7 (secs 100) 0 relay_init
   = (Inr (0x800000, True), recordRelayLocked 0x800000 (new_relay upf_a 7 (secs 100))
        (relay_init\<lparr>lastRelaySweep := secs 100, reportRelaySeq := 0x800000\<rparr>))"
  by (simp add: RelayReportSequence_def relay_init_def RelayGeneration_def sweepRelaysLocked_def
      sweepGenerations_def sweepReportRelays_def relayFromLocked_def bucket_def std_orders_def Sub_def
      maxDuration_def minDuration_def relaySweepInterval_def nextFreeRelaySequence_def
      relaySequenceFloor_def relaySequenceCeil_def nextFreeLoop_unfold secs_def)

lemma first_claim_one: "RelayReportSequence std_orders upf_a 7 (secs 100) 0 relay_init
    = (Inr (0x800000, True), one_claim)"
  by (simp add: one_claim_def first_claim)

lemma one_claim_relays:
  "reportRelays one_claim = [0x800000 \<mapsto> new_relay upf_a 7 (secs 100)]"
  unfolding one_claim_def first_claim by (simp add: relay_init_def)

lemma one_claim_inv: "relay_inv one_claim"
  by (simp add: one_claim_def claim_inv relay_inv_init)

text \<open>A claim whose sweep is due drops the release count of an address released long enough ago.\<close>

lemma swept_count:
  assumes "relay_inv s" "legal_orders it" "relayGenerations s a = Some g"
    "outlived now (releasedAt g)" "Second \<le> now - lastRelaySweep s"
  shows "RelayGeneration a (snd (RelayReportSequence it other oseq now
      (RelayGeneration (IP_String (addr_IP other)) s) s)) = 0"
proof -
  let ?r = "RelayReportSequence it other oseq now (RelayGeneration (IP_String (addr_IP other)) s) s"
  have open_: "\<not> Sub now (lastRelaySweep s) < relaySweepInterval"
    using assms(5) Sub_less_iff [of relaySweepInterval now "lastRelaySweep s"]
    by (simp add: relaySweepInterval_def maxDuration_def minDuration_def)
  have gens: "relayGenerations (snd ?r) = relayGenerations (sweepRelaysLocked it now s)"
    using assms(1,2)
    by (cases rule: RelayReportSequence_cases [where addr = other and seq = oseq and now = now
          and gen = "RelayGeneration (IP_String (addr_IP other)) s"]) auto
  have "relayGenerations (sweepRelaysLocked it now s) a = None"
    using assms open_
    by (simp add: sweepRelaysLocked_def legal_orders_def relay_inv_def sweepGenerations_generations
        map_keep_None)
  then show ?thesis by (simp add: RelayGeneration_def [of _ "snd ?r"] gens)
qed

section \<open>Properties\<close>

text \<open>
  Property C14. Whatever order the handlers' operations run in, and in whatever order their clocks
  were read, the host index is exactly the reverse of the relay table, every number in use lies in
  the adapter's own range, and no two entries that are alive at the latest of these readings stand
  for the same report. The loops of the code run over the keys of their maps in any order.
\<close>

theorem relay_table_consistent:
  assumes "along clocked_exec (\<lambda>op ts. relay_legal op (snd ts)) ops (t0, relay_init)"
    and "fold clocked_exec ops (t0, relay_init) = (t, s)"
  shows "relaysByHost s = index_of (reportRelays s)
    \<and> (\<forall>k \<in> dom (reportRelays s). relaySequenceFloor \<le> k \<and> k \<le> relaySequenceCeil)
    \<and> unique_claims t s"
proof -
  have "unique_claims t0 relay_init" by (simp add: unique_claims_def relay_init_def)
  with relay_inv_init have "relay_inv s \<and> unique_claims t s"
    using clocked.run_inv [OF _ assms(1)] unfolding assms(2) by simp
  then show ?thesis by (simp add: relay_inv_def)
qed

text \<open>A claim of one goroutine, and a take of another that had read its clock before.\<close>

theorem relay_table_consistent_witness:
  "relaysByHost one_claim = index_of (reportRelays one_claim) \<and> unique_claims (secs 100) one_claim
   \<and> relaySequenceFloor \<le> 0x800000"
proof -
  have "along clocked_exec (\<lambda>op ts. relay_legal op (snd ts))
      [Claim std_orders upf_a 7 (secs 100) 0, Take 0x800001 (secs 99)] (0, relay_init)"
    by simp
  moreover have "relay_exec (Take 0x800001 (secs 99)) one_claim = one_claim"
    "relay_exec (Claim std_orders upf_a 7 (secs 100) 0) relay_init = one_claim"
    by (simp add: TakeReportRelay_def one_claim_relays) (simp add: first_claim_one del: first_claim)
  then have "fold clocked_exec [Claim std_orders upf_a 7 (secs 100) 0, Take 0x800001 (secs 99)] (0, relay_init)
    = (secs 100, one_claim)"
    by (simp add: clocked_exec_def del: relay_exec.simps) (simp add: secs_def)
  ultimately have "relaysByHost one_claim = index_of (reportRelays one_claim)
    \<and> (\<forall>k \<in> dom (reportRelays one_claim). relaySequenceFloor \<le> k \<and> k \<le> relaySequenceCeil)
    \<and> unique_claims (secs 100) one_claim"
    by (rule relay_table_consistent)
  then show ?thesis by (simp add: one_claim_relays)
qed

text \<open>
  Property C6. A report that has been claimed is never taken for a new one while it is being
  relayed: after any interleaving of other operations that neither ends that claim nor runs past
  its lifetime (renumbering and taking included), a retransmission is told to be one, or is
  dropped because the peer was released; it is never given a number of its own.
\<close>

theorem retransmission_absorbed:
  assumes "relay_inv s" "legal_orders it"
    and "RelayReportSequence it addr seq t gen s = (Inr (k, True), s1)"
    and "along relay_exec (\<lambda>op s. relay_legal op s \<and> spares_claim addr seq t op s) ops s1"
    and "legal_orders it'" "\<not> outlived now t"
  shows "\<exists>k'. fst (RelayReportSequence it' addr seq now gen' (fold relay_exec ops s1))
    \<in> {Inr (k', False), Inl ErrPeerReleased}"
proof -
  let ?s = "fold relay_exec ops s1"
  have s1: "relay_inv s1" using claim_inv [OF assms(1,2), of addr seq t gen] assms(3) by simp
  have "held_since addr seq t s1"
    using assms(1,2)
  proof (cases rule: RelayReportSequence_cases [where addr = addr and seq = seq and gen = gen and now = t])
    case (Fresh k)
    with assms(3) show ?thesis by (auto simp: held_since_def same_report_def host_of_def)
  qed (use assms(3) in auto)
  from claim.run_fact [OF s1 this assms(4)] have inv: "relay_inv ?s" and "held_since addr seq t ?s"
    by blast+
  then have "claimed now addr seq ?s \<noteq> {}" using assms(6) by (auto simp: held_since_def claimed_def)
  with inv assms(5) show ?thesis
    by (cases rule: RelayReportSequence_cases [where addr = addr and seq = seq and gen = gen' and now = now])
      auto
qed

theorem retransmission_absorbed_witness:
  "\<exists>k'. fst (RelayReportSequence std_orders upf_a 7 (secs 103) 0
      (fold relay_exec [Renumber 0x800000, Take 0x800001 (secs 101)] one_claim))
    \<in> {Inr (k', False), Inl ErrPeerReleased}"
proof (rule retransmission_absorbed)
  show "relay_inv relay_init" by (rule relay_inv_init)
  show "RelayReportSequence std_orders upf_a 7 (secs 100) 0 relay_init
      = (Inr (0x800000, True), one_claim)"
    by (rule first_claim_one)
qed (simp_all add: outlived_iff secs_def)

text \<open>
  A fresh claim is given a number of the adapter's range that no live report is
  waiting on, records the report under it, and leaves every live entry as it was.
\<close>

lemma fresh_claim:
  assumes "relay_inv s" "legal_orders it"
    and "RelayReportSequence it addr seq now gen s = (Inr (k, True), s')"
  shows "relaySequenceFloor \<le> k \<and> k \<le> relaySequenceCeil
    \<and> RelayGeneration (IP_String (addr_IP addr)) s = gen
    \<and> claimed now addr seq s = {} \<and> claimed now addr seq s' = {k}
    \<and> reportRelays s' k = Some (new_relay addr seq now)
    \<and> (\<forall>j r. reportRelays s j = Some r \<and> \<not> outlived now (recorded r)
         \<longrightarrow> j \<noteq> k \<and> reportRelays s' j = Some r)"
  using assms(1,2)
proof (cases rule: RelayReportSequence_cases [where addr = addr and seq = seq and gen = gen and now = now])
  case (Fresh k')
  let ?t = "sweepRelaysLocked it now s"
  have k: "k' = k" and s': "s' = recordRelayLocked k (new_relay addr seq now) (?t\<lparr>reportRelaySeq := k\<rparr>)"
    using Fresh(6) assms(3) by auto
  have "claimed now addr seq ?t = {}" using Fresh(2) claimed_sweep [OF assms(1,2)] by simp
  then have c: "claimed now addr seq s' = {k}"
    by (auto simp: s' claimed_def same_report_def host_of_def outlived_iff split: if_splits)
  have others: "j \<noteq> k \<and> reportRelays s' j = Some r"
    if "reportRelays s j = Some r" "\<not> outlived now (recorded r)" for j r
    using sweep_keeps_live [OF assms(1,2) that(2), of j] that(1) Fresh(3) k by (auto simp: s')
  have "reportRelays s' k = Some (new_relay addr seq now)" by (simp add: s')
  with Fresh(1,2,4,5) c others show ?thesis unfolding k by blast
qed (use assms(3) in auto)

text \<open>
  Property C24. A relayed report is answered once: after one path has taken it, no other path can,
  whatever runs in between, as long as the entry stands.
\<close>

theorem report_taken_once:
  assumes "relay_inv s" "TakeReportRelay k now s = (Some origin, s1)"
    and "along relay_exec (\<lambda>op s. relay_legal op s \<and> keeps_entry k op s) ops s1"
  shows "fst (TakeReportRelay k now' (fold relay_exec ops s1)) = None"
proof -
  have "answered_at k s1" using take_marks_answered [of k now s] assms(2) by simp
  moreover have "relay_inv s1" using take_inv [OF assms(1), of k now] assms(2) by simp
  ultimately have "answered_at k (fold relay_exec ops s1)" using answer.run_fact assms(3) by blast
  then show ?thesis by (simp add: take_answered)
qed

theorem report_taken_once_witness:
  "fst (TakeReportRelay 0x800000 (secs 101) one_claim) = Some (upf_a, 7)
   \<and> fst (TakeReportRelay 0x800000 (secs 102)
        (fold relay_exec [Claim std_orders upf_a 8 (secs 101) 0]
           (snd (TakeReportRelay 0x800000 (secs 101) one_claim)))) = None"
proof -
  let ?r = "TakeReportRelay 0x800000 (secs 101) one_claim"
  have t: "fst ?r = Some (upf_a, 7)"
    by (simp add: TakeReportRelay_def one_claim_relays Sub_def maxDuration_def minDuration_def
        reportRelayLifetime_def secs_def)
  then have pair: "?r = (Some (upf_a, 7), snd ?r)" by (simp add: prod_eq_iff)
  have "along relay_exec (\<lambda>op s. relay_legal op s \<and> keeps_entry 0x800000 op s)
      [Claim std_orders upf_a 8 (secs 101) 0] (snd ?r)"
    by (simp add: TakeReportRelay_def one_claim_relays outlived_iff secs_def)
  from report_taken_once [OF one_claim_inv pair this] t show ?thesis by blast
qed

text \<open>
  The answer goes back to where the report came from, under the number its user plane
  gave it: taking the relay of a fresh claim within its lifetime yields that address and number.
\<close>

lemma answer_returns_origin:
  assumes "relay_inv s" "legal_orders it"
    and "RelayReportSequence it addr seq now gen s = (Inr (k, True), s')" "\<not> outlived now' now"
  shows "fst (TakeReportRelay k now' s') = Some (addr, seq)"
proof -
  have "reportRelays s' k = Some (new_relay addr seq now)"
    using assms(1,2)
    by (cases rule: RelayReportSequence_cases [where addr = addr and seq = seq and gen = gen and now = now])
      (use assms(3) in auto)
  with assms(4) show ?thesis by (simp add: TakeReportRelay_def outlived_def)
qed

text \<open>
  Renumbering a relay moves its entry to another free number of the range in one
  step: the entry is the same, the old number is free again, no other entry changes, and the
  report stays claimed.
\<close>

lemma renumber_moves_the_claim:
  assumes "RenumberReportRelay k s = (Inr k', s')"
  shows "k' \<noteq> k \<and> relaySequenceFloor \<le> k' \<and> k' \<le> relaySequenceCeil
    \<and> reportRelays s k \<noteq> None \<and> reportRelays s k' = None
    \<and> reportRelays s' = (reportRelays s)(k := None, k' := reportRelays s k)"
  by (cases rule: RenumberReportRelay_cases [of s k]) (use assms in auto)

text \<open>
  Releasing an address forgets every report relayed for it and none for another
  address, and a claim authorised before the release is refused after it.
\<close>

lemma release_forgets_the_host:
  assumes "relay_inv s" "legal_orders it"
  shows "reportRelays (ForgetRelaysForHost it now (IP_String (addr_IP addr)) s)
      = map_keep (\<lambda>_ r. host_of r \<noteq> IP_String (addr_IP addr)) (reportRelays s)
    \<and> RelayReportSequence it' addr seq now' (RelayGeneration (IP_String (addr_IP addr)) s)
        (ForgetRelaysForHost it now (IP_String (addr_IP addr)) s)
      = (Inl ErrPeerReleased, ForgetRelaysForHost it now (IP_String (addr_IP addr)) s)"
  using release_relays(2) [OF assms]
  by (simp add: RelayReportSequence_def release_generation)

text \<open>
  Property C38. The search for a number is exact over any range that does not fill the 32-bit
  space: it gives a number of the range that nothing is waiting on, and it gives none only when
  every number of the range is outstanding, wherever it starts.
\<close>

theorem next_free_exact:
  assumes "floor \<le> ceil" "ceil - floor + 1 \<noteq> 0"
  shows "case nextFreeRelaySequence outstanding from floor ceil of
      Some c \<Rightarrow> outstanding c = None \<and> floor \<le> c \<and> c \<le> ceil
    | None \<Rightarrow> (\<forall>x. floor \<le> x \<and> x \<le> ceil \<longrightarrow> outstanding x \<noteq> None)"
  using assms by (auto split: option.split dest: nextFree_Some nextFree_None)

theorem next_free_exact_witness:
  "nextFreeRelaySequence [10 \<mapsto> (), 11 \<mapsto> (), 13 \<mapsto> ()] 12 10 13 = Some 12
   \<and> [10 \<mapsto> (), 11 \<mapsto> (), 13 \<mapsto> ()] (12 :: u32) = None"
proof -
  have "nextFreeRelaySequence [10 \<mapsto> (), 11 \<mapsto> (), 13 \<mapsto> ()] 12 10 13 = Some 12"
    by (simp add: nextFreeRelaySequence_def nextFreeLoop_unfold)
  then show ?thesis
    using next_free_exact [of 10 13 "[10 \<mapsto> (), 11 \<mapsto> (), 13 \<mapsto> ()]" 12] by simp
qed

text \<open>
  A sweep, when its throttle is open, drops exactly the reports and the release
  counts that have outlived their lifetime, and the index with them, whatever order the runtime
  ranges over the maps in; closed, it changes nothing.
\<close>

lemma sweep_exact:
  assumes "relay_inv s" "legal_orders it"
  shows "reportRelays (sweepRelaysLocked it now s) =
      (if now - lastRelaySweep s < Second then reportRelays s
       else map_keep (\<lambda>_ r. now - recorded r \<le> 30 * Second) (reportRelays s))
    \<and> relayGenerations (sweepRelaysLocked it now s) =
      (if now - lastRelaySweep s < Second then relayGenerations s
       else map_keep (\<lambda>_ g. now - releasedAt g \<le> 30 * Second) (relayGenerations s))
    \<and> relaysByHost (sweepRelaysLocked it now s) = index_of (reportRelays (sweepRelaysLocked it now s))"
proof -
  have throttle: "Sub now (lastRelaySweep s) < relaySweepInterval \<longleftrightarrow> now - lastRelaySweep s < Second"
    unfolding relaySweepInterval_def by (rule Sub_less_iff) (simp_all add: maxDuration_def minDuration_def)
  have live: "(\<not> outlived now u) = (now - u \<le> 30 * Second)" for u by (simp add: outlived_iff not_less)
  have "relayGenerations (sweepRelaysLocked it now s) =
    (if now - lastRelaySweep s < Second then relayGenerations s
     else map_keep (\<lambda>_ g. now - releasedAt g \<le> 30 * Second) (relayGenerations s))"
    using assms throttle
    by (simp add: sweepRelaysLocked_def legal_orders_def relay_inv_def sweepGenerations_generations live)
  then show ?thesis
    using sweep_relays [OF assms] throttle live relay_inv_sweep [OF assms, of now]
    by (simp add: relay_inv_def)
qed

text \<open>
  A claim can be refused although its peer was not released after it was authorised:
  once a release is older than the lifetime, the sweep of any other report's claim drops its
  count, and a claim that quotes the count read just before is then told that the peer was
  released.
\<close>

lemma swept_generation_refuses_claim:
  assumes "relay_inv s" "legal_orders it"
    and "relayGenerations s (IP_String (addr_IP addr)) = Some g" "count g \<noteq> 0"
    and "outlived now (releasedAt g)" "Second \<le> now - lastRelaySweep s"
    and "IP_String (addr_IP other) \<noteq> IP_String (addr_IP addr)"
  shows "fst (RelayReportSequence it' addr seq now' (RelayGeneration (IP_String (addr_IP addr)) s)
      (snd (RelayReportSequence it other oseq now (RelayGeneration (IP_String (addr_IP other)) s) s)))
    = Inl ErrPeerReleased"
proof -
  let ?r = "RelayReportSequence it other oseq now (RelayGeneration (IP_String (addr_IP other)) s) s"
  have "RelayGeneration (IP_String (addr_IP addr)) (snd ?r) = 0"
    using swept_count [OF assms(1,2,3,5,6)] .
  moreover have "RelayGeneration (IP_String (addr_IP addr)) s = count g"
    using assms(3) by (simp add: RelayGeneration_def)
  ultimately show ?thesis using assms(4) by (simp add: RelayReportSequence_def)
qed

definition upf_b :: UDPAddr where
  "upf_b = \<lparr>addr_IP = Some [10, 42, 0, 185], addr_Port = 8805, addr_Zone = []\<rparr>"

lemma upf_texts:
  "IP_String (addr_IP upf_a) = ''10.42.0.184''" "IP_String (addr_IP upf_b) = ''10.42.0.185''"
  by code_simp+

definition one_release :: relay_state where
  "one_release = relay_init\<lparr>relayGenerations := [''10.42.0.184'' \<mapsto> \<lparr>releasedAt = secs 100, count = 1\<rparr>]\<rparr>"

lemma one_release_inv: "relay_inv one_release"
  using relay_inv_init by (simp add: one_release_def relay_inv_def relay_init_def)

text \<open>
  Property C40. The sweep can let through a claim that a release should have stopped. A claim that
  was authorised before its peer is released is refused; but when the count it was authorised under
  is the first one, and a sweep drops that count before the release, the new count is the old one
  again, and the same claim is not told that its peer was released.
\<close>

theorem swept_generation_admits_stale_claim:
  assumes "relay_inv s" "legal_orders it" "legal_orders it''"
    and "relayGenerations s (IP_String (addr_IP addr)) = Some g" "count g = 1"
    and "outlived now (releasedAt g)" "Second \<le> now - lastRelaySweep s"
    and "IP_String (addr_IP other) \<noteq> IP_String (addr_IP addr)"
  shows "fst (RelayReportSequence it' addr seq now' (RelayGeneration (IP_String (addr_IP addr)) s)
      (ForgetRelaysForHost it'' now'' (IP_String (addr_IP addr)) s)) = Inl ErrPeerReleased
    \<and> fst (RelayReportSequence it' addr seq now' (RelayGeneration (IP_String (addr_IP addr)) s)
      (ForgetRelaysForHost it'' now'' (IP_String (addr_IP addr))
        (snd (RelayReportSequence it other oseq now (RelayGeneration (IP_String (addr_IP other)) s) s))))
    \<noteq> Inl ErrPeerReleased"
proof -
  let ?r = "RelayReportSequence it other oseq now (RelayGeneration (IP_String (addr_IP other)) s) s"
  have "RelayGeneration (IP_String (addr_IP addr)) (snd ?r) = 0"
    using swept_count [OF assms(1,2,4,6,7)] .
  moreover have "RelayGeneration (IP_String (addr_IP addr)) s = 1"
    using assms(4,5) by (simp add: RelayGeneration_def)
  ultimately show ?thesis
    by (simp add: RelayReportSequence_def release_generation Let_def split: option.split)
qed

theorem swept_generation_admits_stale_claim_witness:
  "fst (RelayReportSequence std_orders upf_a 7 (secs 133)
     (RelayGeneration (IP_String (addr_IP upf_a)) one_release)
     (ForgetRelaysForHost std_orders (secs 132) (IP_String (addr_IP upf_a))
       (snd (RelayReportSequence std_orders upf_b 1 (secs 131)
          (RelayGeneration (IP_String (addr_IP upf_b)) one_release) one_release)))) \<noteq> Inl ErrPeerReleased"
proof -
  have "relayGenerations one_release (IP_String (addr_IP upf_a)) = Some \<lparr>releasedAt = secs 100, count = 1\<rparr>"
    by (simp add: one_release_def upf_texts)
  from swept_generation_admits_stale_claim [OF one_release_inv std_orders_legal std_orders_legal this,
      of "secs 131" upf_b std_orders 7 "secs 133" "secs 132" 1]
  show ?thesis by (simp add: outlived_iff upf_texts) (simp add: one_release_def relay_init_def secs_def)
qed

end
