(* ===== verification/Node_Id.thy ===== *)
theory Node_Id
  imports Go_Net
begin

text \<open>
  Node identities and their resolution (\<^verbatim>\<open>types/nodeid.go\<close>). A node is named by an
  IPv4 address, an IPv6 address or a host name; a name is resolved through a cache in front of
  DNS. The answers of DNS are a parameter: \<^verbatim>\<open>LookupHost\<close> either fails or gives the
  addresses of the host as texts, of which there is at least one.
\<close>

section \<open>Identities\<close>

definition NodeIdTypeIpv4Address :: u8 where "NodeIdTypeIpv4Address = 0"

definition NodeIdTypeIpv6Address :: u8 where "NodeIdTypeIpv6Address = 1"

definition NodeIdTypeFqdn :: u8 where "NodeIdTypeFqdn = 2"

lemmas node_id_types = NodeIdTypeIpv4Address_def NodeIdTypeIpv6Address_def NodeIdTypeFqdn_def

record NodeID =
  NodeIdValue :: slice
  NodeIdType :: u8

definition NewNodeID :: "string \<Rightarrow> NodeID" where
  "NewNodeID nodeID =
     (let ip = ParseIP nodeID in
      if ip = None then \<lparr>NodeIdValue = Some (go_bytes nodeID), NodeIdType = NodeIdTypeFqdn\<rparr>
      else if To4 ip \<noteq> None then \<lparr>NodeIdValue = To4 ip, NodeIdType = NodeIdTypeIpv4Address\<rparr>
      else \<lparr>NodeIdValue = To16 ip, NodeIdType = NodeIdTypeIpv6Address\<rparr>)"

section \<open>The cache of resolved names\<close>

type_synonym dns_cache = "string \<rightharpoonup> IP"

datatype dns_answer = LookupError | LookupAddrs string "string list"

definition getDnsHostIp :: "string \<Rightarrow> dns_cache \<Rightarrow> IP option" where
  "getDnsHostIp hostName cache = cache hostName"

definition InsertDnsHostIp :: "string \<Rightarrow> IP \<Rightarrow> dns_cache \<Rightarrow> dns_cache" where
  "InsertDnsHostIp hostName ip cache = cache(hostName \<mapsto> ip)"

definition deleteDnsHost :: "string \<Rightarrow> dns_cache \<Rightarrow> dns_cache" where
  "deleteDnsHost hostName cache = cache(hostName := None)"

definition ResolveNodeIdToIp ::
  "(string \<Rightarrow> dns_answer) \<Rightarrow> NodeID \<Rightarrow> dns_cache \<Rightarrow> IP \<times> dns_cache" where
  "ResolveNodeIdToIp LookupHost n cache =
     (if NodeIdType n = NodeIdTypeIpv4Address \<or> NodeIdType n = NodeIdTypeIpv6Address
      then (NodeIdValue n, cache)
      else if NodeIdType n = NodeIdTypeFqdn then
        let hostName = go_string (octets (NodeIdValue n)) in
        (case getDnsHostIp hostName cache of
           Some ip \<Rightarrow> (ip, cache)
         | None \<Rightarrow>
             (case LookupHost hostName of
                LookupError \<Rightarrow> (IPv4zero, cache)
              | LookupAddrs ns0 _ \<Rightarrow> (ParseIP ns0, InsertDnsHostIp hostName (ParseIP ns0) cache)))
      else (IPv4zero, cache))"

text \<open>One round of the refresh loop, and the loop over the names in the runtime's order.\<close>

definition refreshHost :: "(string \<Rightarrow> dns_answer) \<Rightarrow> string \<Rightarrow> IP \<Rightarrow> dns_cache \<Rightarrow> dns_cache" where
  "refreshHost LookupHost hostName cached cache =
     (case LookupHost hostName of
        LookupError \<Rightarrow> deleteDnsHost hostName cache
      | LookupAddrs ns0 _ \<Rightarrow>
          if \<not> IP_Equal cached (ParseIP ns0) then cache(hostName \<mapsto> ParseIP ns0) else cache)"

definition RefreshDnsHostIpCache ::
  "(string \<Rightarrow> dns_answer) \<Rightarrow> string order \<Rightarrow> dns_cache \<Rightarrow> dns_cache" where
  "RefreshDnsHostIpCache LookupHost ord cache =
     range_map (\<lambda>c. c) (refreshHost LookupHost) (ord (dom cache)) cache"

section \<open>Laws\<close>

lemma IP_String_not_empty [simp]: "IP_String ip \<noteq> []"
proof -
  have four: "length (octets (To4 ip)) = 4 \<Longrightarrow> dotted (map unat (octets (To4 ip))) \<noteq> []"
    by (auto simp: dotted_def length_Suc_conv numeral_eq_Suc)
  have hex: "appendHex x \<noteq> []" for x by (simp add: appendHex_def)
  have "emit6 8 gs zs ze 0 \<noteq> []" for gs zs ze
    using hex by (simp add: numeral_eq_Suc)
  then have "string6 b \<noteq> []" for b by (simp add: string6_def Let_def split: prod.split)
  then show ?thesis using four by (simp add: IP_String_def Let_def)
qed

text \<open>
  What a refreshed cache holds for one name: the names that were not cached stay out, a name that
  no longer resolves is dropped, and any other name maps to what DNS says now (in the form that
  was cached, where the two are the same address).
\<close>

definition refreshed :: "(string \<Rightarrow> dns_answer) \<Rightarrow> string \<Rightarrow> IP \<Rightarrow> IP option" where
  "refreshed LookupHost hostName cached =
     (case LookupHost hostName of
        LookupError \<Rightarrow> None
      | LookupAddrs ns0 _ \<Rightarrow>
          Some (if IP_Equal cached (ParseIP ns0) then cached else ParseIP ns0))"

lemma refreshHost_apply:
  "cache h = Some cached \<Longrightarrow>
   refreshHost LookupHost h cached cache = cache(h := refreshed LookupHost h cached)"
  by (auto simp: refreshHost_def refreshed_def deleteDnsHost_def fun_upd_idem split: dns_answer.split)

lemma refresh_loop:
  "distinct ks \<Longrightarrow>
   range_map (\<lambda>c. c) (refreshHost LookupHost) ks cache h
   = (if h \<in> set ks then Option.bind (cache h) (refreshed LookupHost h) else cache h)"
proof (induction ks arbitrary: cache)
  case Nil
  then show ?case by simp
next
  case (Cons k ks)
  show ?case
  proof (cases "cache k")
    case None
    with Cons show ?thesis by auto
  next
    case (Some v)
    with Cons show ?thesis by (auto simp: refreshHost_apply)
  qed
qed

end
