(* ===== verification/Upf_Addrs.thy ===== *)
theory Upf_Addrs
  imports Relay_Claims Node_Id
begin

text \<open>
  Where the SMF is, and which addresses are user planes it names (\<^verbatim>\<open>config/config.go\<close>).
  \<^verbatim>\<open>upfAddrs\<close> maps an address to the identities last resolved to it and
  \<^verbatim>\<open>upfNodeAddrs\<close> an identity to its address and the time it was last named. An address
  left by its last identity is released: its report relays are forgotten and the registered hook
  runs, all under \<^verbatim>\<open>upfAddrMutex\<close>. The hook belongs to another package and has no
  access to these tables, so it works on the rest of the state, the extension of the record.
\<close>

section \<open>State\<close>

definition PfcpPort :: nat where "PfcpPort = 8805"

definition upfAddrLifetime :: int where "upfAddrLifetime = 30 * Minute"

record upfNodeRecord =
  seen :: time
  node_addr :: string

record addr_state = relay_state +
  upfAddrs :: "string \<rightharpoonup> string set"
  upfNodeAddrs :: "string \<rightharpoonup> upfNodeRecord"
  smfAddr :: IP
  dnsHostIpCache :: dns_cache

type_synonym 'w hook = "(string \<Rightarrow> 'w \<Rightarrow> 'w) option"

text \<open>
  What one call takes from its surroundings: the orders of its loops, and the clock reading of the
  release of each address.
\<close>

record release_env =
  release_orders :: relay_orders
  nodes_order :: "string order"
  release_clock :: "string \<Rightarrow> time"

definition legal_env :: "release_env \<Rightarrow> bool" where
  "legal_env e \<longleftrightarrow> legal_orders (release_orders e) \<and> enumerates (nodes_order e)"

section \<open>Operations\<close>

definition SetSmfAddr :: "string \<Rightarrow> 'w addr_state_scheme \<Rightarrow> 'w addr_state_scheme" where
  "SetSmfAddr ip s =
     (if ip = [] then s
      else let parsed = ParseIP ip in
      if parsed = None then s
      else if IsUnspecified parsed then s
      else s\<lparr>smfAddr := parsed\<rparr>)"

definition SmfAddr :: "'w addr_state_scheme \<Rightarrow> UDPAddr option" where
  "SmfAddr s =
     (if smfAddr s = None then None
      else Some \<lparr>addr_IP = smfAddr s, addr_Port = PfcpPort, addr_Zone = []\<rparr>)"

definition nodeKey :: "NodeID \<Rightarrow> string" where
  "nodeKey n = Itoa (unat (NodeIdType n)) @ ''/'' @ go_string (octets (NodeIdValue n))"

definition run_hook :: "'w hook \<Rightarrow> string \<Rightarrow> 'w addr_state_scheme \<Rightarrow> 'w addr_state_scheme" where
  "run_hook hook addr s =
     (case hook of None \<Rightarrow> s | Some f \<Rightarrow> addr_state.more_update (f addr) s)"

definition forgetUpfAddrLocked ::
  "release_env \<Rightarrow> 'w hook \<Rightarrow> string \<Rightarrow> string \<Rightarrow> 'w addr_state_scheme \<Rightarrow> 'w addr_state_scheme" where
  "forgetUpfAddrLocked e hook node addr s =
     (case upfAddrs s addr of
        None \<Rightarrow> s
      | Some nodes \<Rightarrow>
          if nodes - {node} \<noteq> {} then s\<lparr>upfAddrs := (upfAddrs s)(addr \<mapsto> nodes - {node})\<rparr>
          else
            let s = s\<lparr>upfAddrs := (upfAddrs s)(addr := None)\<rparr>;
                s = ForgetRelaysForHost (release_orders e) (release_clock e addr) addr s in
            run_hook hook addr s)"

definition expireNode ::
  "release_env \<Rightarrow> 'w hook \<Rightarrow> time \<Rightarrow> string \<Rightarrow> upfNodeRecord \<Rightarrow> 'w addr_state_scheme
   \<Rightarrow> 'w addr_state_scheme" where
  "expireNode e hook now node record s =
     (if Sub now (seen record) \<le> upfAddrLifetime then s
      else
        let s = s\<lparr>upfNodeAddrs := (upfNodeAddrs s)(node := None)\<rparr> in
        if node_addr record \<noteq> [] then forgetUpfAddrLocked e hook node (node_addr record) s else s)"

definition expireUpfAddrsLocked ::
  "release_env \<Rightarrow> 'w hook \<Rightarrow> time \<Rightarrow> 'w addr_state_scheme \<Rightarrow> 'w addr_state_scheme" where
  "expireUpfAddrsLocked e hook now s =
     range_map upfNodeAddrs (expireNode e hook now) (nodes_order e (dom (upfNodeAddrs s))) s"

text \<open>
  \<^verbatim>\<open>RecordUpfAddr\<close> reads the clock, resolves the node outside the lock, and then commits
  under it. The commit is a step of its own: other messages may commit between the two.
\<close>

definition zeroRecord :: upfNodeRecord where
  "zeroRecord = \<lparr>seen = 0, node_addr = []\<rparr>"

definition commitUpfAddr ::
  "release_env \<Rightarrow> 'w hook \<Rightarrow> time \<Rightarrow> IP \<Rightarrow> string \<Rightarrow> 'w addr_state_scheme \<Rightarrow> 'w addr_state_scheme" where
  "commitUpfAddr e hook now ip node s =
     (let record = (case upfNodeAddrs s node of None \<Rightarrow> zeroRecord | Some r \<Rightarrow> r);
          superseded = now < seen record;
          s = (if superseded then s
               else s\<lparr>upfNodeAddrs := (upfNodeAddrs s)(node \<mapsto> record\<lparr>seen := now\<rparr>)\<rparr>);
          s = expireUpfAddrsLocked e hook now s in
      if ip = None \<or> IsUnspecified ip then s
      else if superseded then s
      else
        let key = IP_String ip;
            s = (if node_addr record \<noteq> [] \<and> node_addr record \<noteq> key
                 then forgetUpfAddrLocked e hook node (node_addr record) s else s);
            s = s\<lparr>upfAddrs := (upfAddrs s)(key \<mapsto> insert node (bucket (upfAddrs s) key))\<rparr> in
        s\<lparr>upfNodeAddrs := (upfNodeAddrs s)(node \<mapsto> \<lparr>seen = now, node_addr = key\<rparr>)\<rparr>)"

definition resolveForRecord ::
  "(string \<Rightarrow> dns_answer) \<Rightarrow> NodeID \<Rightarrow> 'w addr_state_scheme \<Rightarrow> IP \<times> 'w addr_state_scheme" where
  "resolveForRecord LookupHost nodeId s =
     (let (ip, cache) = ResolveNodeIdToIp LookupHost nodeId (dnsHostIpCache s)
      in (ip, s\<lparr>dnsHostIpCache := cache\<rparr>))"

definition RecordUpfAddr ::
  "(string \<Rightarrow> dns_answer) \<Rightarrow> release_env \<Rightarrow> 'w hook \<Rightarrow> time \<Rightarrow> NodeID \<Rightarrow> 'w addr_state_scheme
   \<Rightarrow> 'w addr_state_scheme" where
  "RecordUpfAddr LookupHost e hook now nodeId s =
     (let (ip, s) = resolveForRecord LookupHost nodeId s
      in commitUpfAddr e hook now ip (nodeKey nodeId) s)"

definition IsKnownUpfAddr :: "IP \<Rightarrow> time \<Rightarrow> 'w addr_state_scheme \<Rightarrow> bool" where
  "IsKnownUpfAddr ip now s \<longleftrightarrow>
     (if ip = None then False
      else \<exists>node \<in> bucket (upfAddrs s) (IP_String ip).
        Sub now (seen (case upfNodeAddrs s node of None \<Rightarrow> zeroRecord | Some r \<Rightarrow> r)) \<le> upfAddrLifetime)"

section \<open>The two address tables are inverse to each other\<close>

definition addrs_of :: "(string \<rightharpoonup> upfNodeRecord) \<Rightarrow> string \<rightharpoonup> string set" where
  "addrs_of m addr =
     (let S = {n. \<exists>r. m n = Some r \<and> node_addr r = addr}
      in if addr = [] \<or> S = {} then None else Some S)"

definition addr_inv :: "'w addr_state_scheme \<Rightarrow> bool" where
  "addr_inv s \<longleftrightarrow> relay_inv s \<and> finite (dom (upfNodeAddrs s)) \<and> upfAddrs s = addrs_of (upfNodeAddrs s)"

lemma bucket_addrs_of [simp]:
  "bucket (addrs_of m) addr = (if addr = [] then {} else {n. \<exists>r. m n = Some r \<and> node_addr r = addr})"
  by (auto simp: bucket_def addrs_of_def Let_def)

lemma relay_inv_addr_update [simp]:
  "relay_inv (s\<lparr>upfAddrs := a\<rparr>) = relay_inv s"
  "relay_inv (s\<lparr>upfNodeAddrs := n\<rparr>) = relay_inv s"
  "relay_inv (s\<lparr>smfAddr := i\<rparr>) = relay_inv s"
  "relay_inv (s\<lparr>dnsHostIpCache := c\<rparr>) = relay_inv s"
  "relay_inv (addr_state.more_update f s) = relay_inv s"
  by (simp_all add: relay_inv_def)

lemma run_hook_frame [simp]:
  "reportRelays (run_hook hook addr s) = reportRelays s"
  "relayGenerations (run_hook hook addr s) = relayGenerations s"
  "upfAddrs (run_hook hook addr s) = upfAddrs s"
  "upfNodeAddrs (run_hook hook addr s) = upfNodeAddrs s"
  "smfAddr (run_hook hook addr s) = smfAddr s"
  "dnsHostIpCache (run_hook hook addr s) = dnsHostIpCache s"
  "relay_inv (run_hook hook addr s) = relay_inv s"
  by (simp_all add: run_hook_def split: option.split)

lemma RelayGeneration_addr_update [simp]:
  "RelayGeneration a (s\<lparr>upfAddrs := x\<rparr>) = RelayGeneration a s"
  "RelayGeneration a (s\<lparr>upfNodeAddrs := n\<rparr>) = RelayGeneration a s"
  "RelayGeneration a (run_hook hook addr s) = RelayGeneration a s"
  by (simp_all add: RelayGeneration_def)

lemma addr_inv_relay: "addr_inv s \<Longrightarrow> relay_inv s"
  by (simp add: addr_inv_def)

text \<open>An operation that leaves the extension of the relay state alone leaves these tables alone.\<close>

lemma addr_fields:
  assumes "relay_state.more s = relay_state.more t"
  shows "upfAddrs s = upfAddrs t" "upfNodeAddrs s = upfNodeAddrs t" "smfAddr s = smfAddr t"
    "dnsHostIpCache s = dnsHostIpCache t" "addr_state.more s = addr_state.more t"
  using assms by (cases s; cases t; simp)+

lemma release_addr_frame [simp]:
  "upfAddrs (ForgetRelaysForHost it now addr s) = upfAddrs s"
  "upfNodeAddrs (ForgetRelaysForHost it now addr s) = upfNodeAddrs s"
  "smfAddr (ForgetRelaysForHost it now addr s) = smfAddr s"
  "dnsHostIpCache (ForgetRelaysForHost it now addr s) = dnsHostIpCache s"
  "addr_state.more (ForgetRelaysForHost it now addr s) = addr_state.more s"
  by (rule addr_fields [OF release_more])+

lemma bucket_upd: "bucket (m(k \<mapsto> S)) a = (if a = k then S else bucket m a)"
  by (simp add: bucket_def)

lemma addrs_of_eqI:
  assumes "\<And>a. bucket I a = (if a = [] then {} else {n. \<exists>r. m n = Some r \<and> node_addr r = a})"
    "\<And>a. I a \<noteq> Some {}"
  shows "I = addrs_of m"
proof (rule ext)
  fix a
  show "I a = addrs_of m a"
    using assms(1) [of a] assms(2) [of a]
    by (auto simp: bucket_def addrs_of_def Let_def split: option.splits if_splits)
qed

lemma addrs_of_not_empty [simp]: "addrs_of m a \<noteq> Some {}"
  by (simp add: addrs_of_def Let_def)

section \<open>Forgetting an identity at an address\<close>

definition drop_node :: "string \<Rightarrow> string \<Rightarrow> (string \<rightharpoonup> string set) \<Rightarrow> (string \<rightharpoonup> string set)" where
  "drop_node node addr m =
     (case m addr of
        None \<Rightarrow> m
      | Some nodes \<Rightarrow> if nodes - {node} \<noteq> {} then m(addr \<mapsto> nodes - {node}) else m(addr := None))"

definition left_empty :: "string \<Rightarrow> string \<Rightarrow> 'w addr_state_scheme \<Rightarrow> bool" where
  "left_empty node addr s \<longleftrightarrow> upfAddrs s addr \<noteq> None \<and> bucket (upfAddrs s) addr \<subseteq> {node}"

lemma bucket_drop_node: "bucket (drop_node node addr m) a = bucket m a - (if a = addr then {node} else {})"
  by (auto simp: bucket_def drop_node_def split: option.splits)

lemma drop_node_not_empty: "m a \<noteq> Some {} \<Longrightarrow> drop_node node addr m a \<noteq> Some {}"
  by (auto simp: drop_node_def split: option.splits)

lemma forget_addr_frame [simp]:
  "upfAddrs (forgetUpfAddrLocked e hook node addr s) = drop_node node addr (upfAddrs s)"
  "upfNodeAddrs (forgetUpfAddrLocked e hook node addr s) = upfNodeAddrs s"
  "smfAddr (forgetUpfAddrLocked e hook node addr s) = smfAddr s"
  "dnsHostIpCache (forgetUpfAddrLocked e hook node addr s) = dnsHostIpCache s"
  by (auto simp: forgetUpfAddrLocked_def drop_node_def Let_def split: option.split)

lemma forget_addr_inv:
  "relay_inv s \<Longrightarrow> legal_env e \<Longrightarrow> relay_inv (forgetUpfAddrLocked e hook node addr s)"
  by (auto simp: forgetUpfAddrLocked_def Let_def legal_env_def release_relays(1) split: option.split)

lemma forget_addr_relays:
  assumes "relay_inv s" "legal_env e"
  shows "reportRelays (forgetUpfAddrLocked e hook node addr s) =
    (if left_empty node addr s then map_keep (\<lambda>_ r. host_of r \<noteq> addr) (reportRelays s)
     else reportRelays s)"
proof (cases "upfAddrs s addr")
  case None
  then show ?thesis by (simp add: forgetUpfAddrLocked_def left_empty_def)
next
  case (Some nodes)
  then have "left_empty node addr s \<longleftrightarrow> nodes - {node} = {}"
    by (auto simp: left_empty_def bucket_def)
  with Some assms show ?thesis
    by (simp add: forgetUpfAddrLocked_def Let_def legal_env_def release_relays(2))
qed

subsection \<open>How the inverse table follows its source\<close>

lemma addrs_of_delete:
  assumes "m node = Some r"
  shows "addrs_of (m(node := None)) =
    (if node_addr r = [] then addrs_of m else drop_node node (node_addr r) (addrs_of m))"
  by (rule sym, rule addrs_of_eqI) (use assms in \<open>auto simp: bucket_drop_node drop_node_not_empty\<close>)

lemma addrs_of_touch:
  assumes "m node = Some r \<or> m node = None \<and> node_addr r = []" "node_addr r' = node_addr r"
  shows "addrs_of (m(node \<mapsto> r')) = addrs_of m"
  by (rule sym, rule addrs_of_eqI) (use assms in auto)

lemma addrs_of_place:
  assumes "m node = Some r" "key \<noteq> []" "node_addr r' = key"
  shows "addrs_of (m(node \<mapsto> r')) =
    (let A = (if node_addr r \<noteq> [] \<and> node_addr r \<noteq> key then drop_node node (node_addr r) (addrs_of m)
              else addrs_of m)
     in A(key \<mapsto> insert node (bucket A key)))"
  unfolding Let_def
  by (rule sym, rule addrs_of_eqI)
    (use assms in \<open>auto simp: bucket_drop_node drop_node_not_empty bucket_upd\<close>)

section \<open>Expiry\<close>

lemma fresh_enough_iff: "Sub now t \<le> upfAddrLifetime \<longleftrightarrow> now - t \<le> 30 * Minute"
  unfolding upfAddrLifetime_def by (rule Sub_le_iff) (simp_all add: maxDuration_def minDuration_def)

lemma expire_nodes:
  assumes "legal_env e" "finite (dom (upfNodeAddrs s))"
  shows "upfNodeAddrs (expireUpfAddrsLocked e hook now s)
    = map_keep (\<lambda>_ r. now - seen r \<le> 30 * Minute) (upfNodeAddrs s)"
proof -
  have "upfNodeAddrs (expireUpfAddrsLocked e hook now s)
    = map_keep (\<lambda>_ r. \<not> 30 * Minute < now - seen r) (upfNodeAddrs s)"
    unfolding expireUpfAddrsLocked_def using assms
    by (intro range_map_keep) (auto simp: expireNode_def Let_def fresh_enough_iff legal_env_def)
  then show ?thesis by (simp only: not_less)
qed

lemma expireNode_inv:
  assumes "addr_inv s" "legal_env e" "upfNodeAddrs s node = Some r"
  shows "addr_inv (expireNode e hook now node r s)"
  using assms
  by (auto simp: expireNode_def Let_def addr_inv_def forget_addr_inv addrs_of_delete)

lemma expire_inv: "addr_inv s \<Longrightarrow> legal_env e \<Longrightarrow> addr_inv (expireUpfAddrsLocked e hook now s)"
  unfolding expireUpfAddrsLocked_def
  by (rule range_map_invariant) (auto intro: expireNode_inv)

section \<open>The commit\<close>

lemma commit_named:
  assumes "addr_inv s" "legal_env e" "\<not> now < seen r"
    and "r = (case upfNodeAddrs s node of None \<Rightarrow> zeroRecord | Some r \<Rightarrow> r)"
  shows "addr_inv (expireUpfAddrsLocked e hook now
      (s\<lparr>upfNodeAddrs := (upfNodeAddrs s)(node \<mapsto> r\<lparr>seen := now\<rparr>)\<rparr>))"
    and "upfNodeAddrs (expireUpfAddrsLocked e hook now
      (s\<lparr>upfNodeAddrs := (upfNodeAddrs s)(node \<mapsto> r\<lparr>seen := now\<rparr>)\<rparr>)) node = Some (r\<lparr>seen := now\<rparr>)"
proof -
  let ?s = "s\<lparr>upfNodeAddrs := (upfNodeAddrs s)(node \<mapsto> r\<lparr>seen := now\<rparr>)\<rparr>"
  have "addrs_of (upfNodeAddrs ?s) = addrs_of (upfNodeAddrs s)"
    using assms(4) by (auto simp: zeroRecord_def intro!: addrs_of_touch [where r = r] split: option.splits)
  then have inv: "addr_inv ?s" using assms(1) by (simp add: addr_inv_def)
  then show "addr_inv (expireUpfAddrsLocked e hook now ?s)" by (rule expire_inv [OF _ assms(2)])
  have "finite (dom (upfNodeAddrs ?s))" using inv by (simp add: addr_inv_def)
  then show "upfNodeAddrs (expireUpfAddrsLocked e hook now ?s) node = Some (r\<lparr>seen := now\<rparr>)"
    using assms(2) by (simp add: expire_nodes)
qed

lemma commit_inv:
  assumes "addr_inv s" "legal_env e"
  shows "addr_inv (commitUpfAddr e hook now ip node s)"
proof -
  define r where "r = (case upfNodeAddrs s node of None \<Rightarrow> zeroRecord | Some r \<Rightarrow> r)"
  show ?thesis
  proof (cases "now < seen r")
    case True
    then show ?thesis using expire_inv [OF assms, of hook now]
      by (simp add: commitUpfAddr_def Let_def r_def [symmetric])
  next
    case False
    note named = commit_named [OF assms False r_def, of hook]
    let ?t = "expireUpfAddrsLocked e hook now
      (s\<lparr>upfNodeAddrs := (upfNodeAddrs s)(node \<mapsto> r\<lparr>seen := now\<rparr>)\<rparr>)"
    have place: "addrs_of ((upfNodeAddrs ?t)(node \<mapsto> \<lparr>seen = now, node_addr = IP_String ip\<rparr>)) =
      (let A = (if node_addr r \<noteq> [] \<and> node_addr r \<noteq> IP_String ip
                then drop_node node (node_addr r) (upfAddrs ?t) else upfAddrs ?t)
       in A(IP_String ip \<mapsto> insert node (bucket A (IP_String ip))))"
      using addrs_of_place [where m = "upfNodeAddrs ?t" and node = node and r = "r\<lparr>seen := now\<rparr>"
          and key = "IP_String ip" and r' = "\<lparr>seen = now, node_addr = IP_String ip\<rparr>"] named
      by (simp add: addr_inv_def)
    show ?thesis
      using named(1) False place
      by (simp add: commitUpfAddr_def Let_def r_def [symmetric] addr_inv_def forget_addr_inv assms(2)
          split: if_splits)
  qed
qed

section \<open>What leaving an address releases\<close>

text \<open>
  From one state to another the addresses in \<open>gone\<close> were released, each once: their relays are
  forgotten and no others, their counts went up by one, and the hook ran for each of them.
\<close>

definition hook_fun :: "'w hook \<Rightarrow> string \<Rightarrow> 'w \<Rightarrow> 'w" where
  "hook_fun hook addr w = (case hook of None \<Rightarrow> w | Some f \<Rightarrow> f addr w)"

definition released_exactly ::
  "release_env \<Rightarrow> 'w hook \<Rightarrow> string list \<Rightarrow> 'w addr_state_scheme \<Rightarrow> 'w addr_state_scheme \<Rightarrow> bool" where
  "released_exactly e hook gone s s' \<longleftrightarrow>
     distinct gone
     \<and> reportRelays s' = map_keep (\<lambda>_ r. host_of r \<notin> set gone) (reportRelays s)
     \<and> (\<forall>a. RelayGeneration a s' = (if a \<in> set gone then RelayGeneration a s + 1 else RelayGeneration a s))
     \<and> addr_state.more s' = fold (hook_fun hook) gone (addr_state.more s)"

definition withdraws ::
  "release_env \<Rightarrow> 'w hook \<Rightarrow> 'w addr_state_scheme \<Rightarrow> 'w addr_state_scheme \<Rightarrow> bool" where
  "withdraws e hook s s' \<longleftrightarrow>
     dom (upfAddrs s') \<subseteq> dom (upfAddrs s)
     \<and> (\<exists>gone. set gone = dom (upfAddrs s) - dom (upfAddrs s') \<and> released_exactly e hook gone s s')"

lemma withdraws_same:
  assumes "upfAddrs s' = upfAddrs s" "reportRelays s' = reportRelays s"
    "relayGenerations s' = relayGenerations s" "addr_state.more s' = addr_state.more s"
  shows "withdraws e hook s s'"
  unfolding withdraws_def released_exactly_def
  by (intro conjI exI [of _ "[]"]) (simp_all add: assms map_keep_all RelayGeneration_def)

lemma withdraws_trans:
  assumes "withdraws e hook s t" "withdraws e hook t u"
  shows "withdraws e hook s u"
proof -
  obtain g where g: "dom (upfAddrs t) \<subseteq> dom (upfAddrs s)" "set g = dom (upfAddrs s) - dom (upfAddrs t)"
    "released_exactly e hook g s t" using assms(1) by (auto simp: withdraws_def)
  obtain h where h: "dom (upfAddrs u) \<subseteq> dom (upfAddrs t)" "set h = dom (upfAddrs t) - dom (upfAddrs u)"
    "released_exactly e hook h t u" using assms(2) by (auto simp: withdraws_def)
  have disj: "set g \<inter> set h = {}" using g(2) h(2) by blast
  have "map_keep (\<lambda>_ r. host_of r \<notin> set h) (map_keep (\<lambda>_ r. host_of r \<notin> set g) (reportRelays s))
    = map_keep (\<lambda>_ r. host_of r \<notin> set (g @ h)) (reportRelays s)"
    by (rule ext) (auto simp: map_keep_def split: option.split)
  then have "released_exactly e hook (g @ h) s u"
    using g(3) h(3) disj by (auto simp: released_exactly_def)
  moreover have "set (g @ h) = dom (upfAddrs s) - dom (upfAddrs u)" using g h by auto
  ultimately show ?thesis using g(1) h(1) unfolding withdraws_def by blast
qed

lemma dom_drop_node: "dom (drop_node node addr m) = (if m addr \<noteq> None \<and> bucket m addr \<subseteq> {node} then dom m - {addr} else dom m)"
  by (auto simp: drop_node_def bucket_def split: option.splits)

lemma run_hook_more: "addr_state.more (run_hook hook addr s) = hook_fun hook addr (addr_state.more s)"
  by (simp add: run_hook_def hook_fun_def split: option.split)

lemma forget_withdraws:
  assumes "relay_inv s" "legal_env e"
  shows "withdraws e hook s (forgetUpfAddrLocked e hook node addr s)"
proof (cases "left_empty node addr s")
  case False
  then show ?thesis
    by (cases "upfAddrs s addr")
      (auto simp: forgetUpfAddrLocked_def left_empty_def bucket_def withdraws_def released_exactly_def
        RelayGeneration_def map_keep_all intro!: exI [of _ "[]"])
next
  case True
  then obtain nodes where nodes: "upfAddrs s addr = Some nodes" "nodes - {node} = {}"
    by (auto simp: left_empty_def bucket_def)
  let ?t = "forgetUpfAddrLocked e hook node addr s"
  have gen: "RelayGeneration a ?t = (if a = addr then RelayGeneration a s + 1 else RelayGeneration a s)" for a
    using nodes by (simp add: forgetUpfAddrLocked_def Let_def release_generation)
  have more: "addr_state.more ?t = hook_fun hook addr (addr_state.more s)"
    using nodes by (simp add: forgetUpfAddrLocked_def Let_def run_hook_more)
  have "released_exactly e hook [addr] s ?t"
    using True gen more forget_addr_relays [OF assms, of hook node addr]
    by (simp add: released_exactly_def)
  moreover have "dom (upfAddrs ?t) = dom (upfAddrs s) - {addr}" "addr \<in> dom (upfAddrs s)"
    using True by (auto simp: dom_drop_node left_empty_def)
  ultimately show ?thesis unfolding withdraws_def by (intro conjI exI [of _ "[addr]"]) auto
qed

lemma expireNode_withdraws:
  assumes "relay_inv s" "legal_env e"
  shows "withdraws e hook s (expireNode e hook now node r s)"
proof -
  let ?s = "s\<lparr>upfNodeAddrs := (upfNodeAddrs s)(node := None)\<rparr>"
  have same: "withdraws e hook s ?s" by (rule withdraws_same) simp_all
  have "withdraws e hook ?s (forgetUpfAddrLocked e hook node (node_addr r) ?s)"
    by (rule forget_withdraws) (use assms in simp_all)
  with same show ?thesis
    by (auto simp: expireNode_def Let_def intro: withdraws_trans withdraws_same)
qed

lemma expire_withdraws:
  assumes "addr_inv s" "legal_env e"
  shows "withdraws e hook s (expireUpfAddrsLocked e hook now s)"
proof -
  have "addr_inv (expireUpfAddrsLocked e hook now s) \<and> withdraws e hook s (expireUpfAddrsLocked e hook now s)"
    unfolding expireUpfAddrsLocked_def
  proof (rule range_map_invariant)
    show "addr_inv s \<and> withdraws e hook s s" using assms(1) by (simp add: withdraws_same)
    fix k v and t :: "'a addr_state_scheme"
    assume "addr_inv t \<and> withdraws e hook s t" "upfNodeAddrs t k = Some v"
    then show "addr_inv (expireNode e hook now k v t) \<and> withdraws e hook s (expireNode e hook now k v t)"
      using assms(2) by (meson addr_inv_relay expireNode_withdraws expireNode_inv withdraws_trans)
  qed
  then show ?thesis ..
qed

end
