(* ===== verification/Addr_Properties.thy ===== *)
theory Addr_Properties
  imports Upf_Addrs Relay_Properties
begin

text \<open>
  The properties of the address tables: who is authorised, what one message of the SMF changes,
  what is released when a user plane leaves an address, and that the tables agree whatever order
  the handlers' critical sections run in.
\<close>

section \<open>The critical sections as a machine\<close>

datatype addr_op =
    Relay relay_op
  | Commit release_env time IP string
  | Resolve "string \<Rightarrow> dns_answer" NodeID
  | SetSmf string

fun addr_exec :: "'w hook \<Rightarrow> addr_op \<Rightarrow> 'w addr_state_scheme \<Rightarrow> 'w addr_state_scheme" where
  "addr_exec hook (Relay op) s = relay_exec op s"
| "addr_exec hook (Commit e now ip node) s = commitUpfAddr e hook now ip node s"
| "addr_exec hook (Resolve LookupHost nodeId) s = snd (resolveForRecord LookupHost nodeId s)"
| "addr_exec hook (SetSmf ip) s = SetSmfAddr ip s"

fun addr_legal :: "addr_op \<Rightarrow> 'w addr_state_scheme \<Rightarrow> bool" where
  "addr_legal (Relay op) s = relay_legal op s"
| "addr_legal (Commit e now ip node) s = legal_env e"
| "addr_legal _ s = True"

lemma sweep_more [simp]: "relay_state.more (sweepRelaysLocked it now s) = relay_state.more s"
proof -
  have "relay_state.more (sweepGenerations it now t) = relay_state.more t" for t :: "'a relay_state_scheme"
    unfolding sweepGenerations_def by (rule range_map_frame) simp
  moreover have "relay_state.more (sweepReportRelays it now t) = relay_state.more t"
    for t :: "'a relay_state_scheme"
    unfolding sweepReportRelays_def by (rule range_map_frame) simp
  ultimately show ?thesis by (simp add: sweepRelaysLocked_def Let_def)
qed

lemma relay_exec_more: "relay_state.more (relay_exec op s) = relay_state.more s"
proof (cases op)
  case (Claim it addr seq now gen)
  then show ?thesis by (simp add: RelayReportSequence_def Let_def split: option.split)
next
  case (Renumber k)
  then show ?thesis by (cases rule: RenumberReportRelay_cases [of s k]) simp_all
next
  case (Release it now host)
  then show ?thesis by (simp add: release_more)
next
  case (Take k now)
  then show ?thesis by (simp add: TakeReportRelay_def Let_def split: option.split)
next
  case (Forget k)
  then show ?thesis by (simp add: ForgetReportRelay_def)
qed

lemma resolve_frame:
  "upfAddrs (snd (resolveForRecord L n s)) = upfAddrs s"
  "upfNodeAddrs (snd (resolveForRecord L n s)) = upfNodeAddrs s"
  "smfAddr (snd (resolveForRecord L n s)) = smfAddr s"
  "relay_inv (snd (resolveForRecord L n s)) = relay_inv s"
  by (simp_all add: resolveForRecord_def split: prod.split)

lemma SetSmfAddr_frame [simp]:
  "upfAddrs (SetSmfAddr ip s) = upfAddrs s"
  "upfNodeAddrs (SetSmfAddr ip s) = upfNodeAddrs s"
  "relay_inv (SetSmfAddr ip s) = relay_inv s"
  by (simp_all add: SetSmfAddr_def Let_def)

lemma addr_exec_inv:
  assumes "addr_inv s" "addr_legal op s"
  shows "addr_inv (addr_exec hook op s)"
proof (cases op)
  case (Relay rop)
  have "relay_inv (relay_exec rop s)"
    using assms Relay by (simp add: addr_inv_def relay.exec_inv)
  with assms(1) Relay show ?thesis
    by (simp add: addr_inv_def addr_fields [OF relay_exec_more])
next
  case (Commit e now ip node)
  with assms show ?thesis by (simp add: commit_inv)
qed (use assms in \<open>simp_all add: addr_inv_def resolve_frame\<close>)

interpretation addrs: guarded_machine "addr_exec hook" addr_inv addr_legal
  by unfold_locales (rule addr_exec_inv)

definition addr_init :: addr_state where
  "addr_init = relay_state.extend relay_init
     \<lparr>upfAddrs = Map.empty, upfNodeAddrs = Map.empty, smfAddr = None, dnsHostIpCache = Map.empty\<rparr>"

lemma addr_init_inv: "addr_inv addr_init"
proof -
  have "addrs_of Map.empty = Map.empty" by (rule ext) (simp add: addrs_of_def Let_def)
  then show ?thesis
    using relay_inv_init
    by (simp add: addr_inv_def addr_init_def relay_inv_def relay_init_def relay_state.defs)
qed

section \<open>What a commit leaves\<close>

definition named :: "'w addr_state_scheme \<Rightarrow> string \<Rightarrow> upfNodeRecord" where
  "named s node = (case upfNodeAddrs s node of None \<Rightarrow> zeroRecord | Some r \<Rightarrow> r)"

lemma commit_superseded:
  "now < seen (named s node) \<Longrightarrow>
   commitUpfAddr e hook now ip node s = expireUpfAddrsLocked e hook now s"
  by (simp add: commitUpfAddr_def Let_def named_def)

lemma commit_nodes:
  assumes "addr_inv s" "legal_env e"
  shows "upfNodeAddrs (commitUpfAddr e hook now ip node s) =
    (let kept = map_keep (\<lambda>_ r. now - seen r \<le> 30 * Minute) (upfNodeAddrs s) in
     if now < seen (named s node) then kept
     else kept(node \<mapsto> \<lparr>seen = now, node_addr =
       if ip = None \<or> IsUnspecified ip then node_addr (named s node) else IP_String ip\<rparr>))"
proof (cases "now < seen (named s node)")
  case True
  with assms show ?thesis by (simp add: commit_superseded expire_nodes addr_inv_def)
next
  case False
  let ?r = "named s node"
  let ?s = "s\<lparr>upfNodeAddrs := (upfNodeAddrs s)(node \<mapsto> ?r\<lparr>seen := now\<rparr>)\<rparr>"
  have r: "?r\<lparr>seen := now\<rparr> = \<lparr>seen = now, node_addr = node_addr ?r\<rparr>" by (cases ?r) simp
  have "upfNodeAddrs (expireUpfAddrsLocked e hook now ?s)
    = (map_keep (\<lambda>_ r. now - seen r \<le> 30 * Minute) (upfNodeAddrs s))(node \<mapsto> ?r\<lparr>seen := now\<rparr>)"
    using assms by (subst expire_nodes) (auto simp: addr_inv_def map_keep_def)
  with False show ?thesis
    by (auto simp: commitUpfAddr_def Let_def named_def [symmetric] r)
qed

text \<open>
  The addresses a commit leaves without an identity: every identity at them has aged out, or is
  the one being named and has moved elsewhere.
\<close>

definition leaves :: "time \<Rightarrow> IP \<Rightarrow> string \<Rightarrow> 'w addr_state_scheme \<Rightarrow> string \<Rightarrow> string \<Rightarrow> bool" where
  "leaves now ip node s n a \<longleftrightarrow>
     (if n = node \<and> \<not> now < seen (named s node)
      then \<not> (ip = None \<or> IsUnspecified ip) \<and> IP_String ip \<noteq> a
      else 30 * Minute < now - seen (named s n))"

definition deserted :: "time \<Rightarrow> IP \<Rightarrow> string \<Rightarrow> 'w addr_state_scheme \<Rightarrow> string set" where
  "deserted now ip node s =
     {a \<in> dom (upfAddrs s). \<forall>n \<in> bucket (upfAddrs s) a. leaves now ip node s n a}"

lemma dom_addrs_of: "dom (addrs_of m) = {a. a \<noteq> [] \<and> (\<exists>n r. m n = Some r \<and> node_addr r = a)}"
  by (auto simp: addrs_of_def Let_def dom_def split: if_splits)

text \<open>The identities that count when the releases of a commit are decided.\<close>

definition remaining :: "time \<Rightarrow> IP \<Rightarrow> string \<Rightarrow> 'w addr_state_scheme \<Rightarrow> string \<rightharpoonup> upfNodeRecord" where
  "remaining now ip node s =
     (let kept = map_keep (\<lambda>_ r. now - seen r \<le> 30 * Minute) (upfNodeAddrs s); r = named s node in
      if now < seen r then kept
      else if ip = None \<or> IsUnspecified ip \<or> node_addr r = [] \<or> node_addr r = IP_String ip
      then kept(node \<mapsto> r\<lparr>seen := now\<rparr>) else kept(node := None))"

lemma remaining_at:
  assumes "a \<noteq> []"
  shows "(\<exists>r. remaining now ip node s n = Some r \<and> node_addr r = a) \<longleftrightarrow>
    (\<exists>r. upfNodeAddrs s n = Some r \<and> node_addr r = a) \<and> \<not> leaves now ip node s n a"
proof (cases "n = node")
  case False
  then have "remaining now ip node s n = map_keep (\<lambda>_ r. now - seen r \<le> 30 * Minute) (upfNodeAddrs s) n"
    by (simp add: remaining_def Let_def)
  with False show ?thesis by (cases "upfNodeAddrs s n") (auto simp: leaves_def named_def map_keep_def)
next
  case True
  with assms show ?thesis
    by (cases "upfNodeAddrs s n") (auto simp: leaves_def remaining_def Let_def named_def zeroRecord_def map_keep_def)
qed

lemma deserted_remaining:
  assumes "addr_inv s"
  shows "deserted now ip node s = dom (upfAddrs s) - dom (addrs_of (remaining now ip node s))"
proof (rule set_eqI)
  fix a
  have "upfAddrs s = addrs_of (upfNodeAddrs s)" using assms by (simp add: addr_inv_def)
  then have dom: "a \<in> dom (upfAddrs s) \<Longrightarrow> a \<noteq> []"
    and bucket: "a \<noteq> [] \<Longrightarrow> bucket (upfAddrs s) a = {n. \<exists>r. upfNodeAddrs s n = Some r \<and> node_addr r = a}"
    by (simp_all add: dom_addrs_of)
  have "a \<in> dom (addrs_of (remaining now ip node s)) \<longleftrightarrow>
    (\<exists>n. \<exists>r. remaining now ip node s n = Some r \<and> node_addr r = a)" if "a \<noteq> []"
    using that by (simp add: dom_addrs_of)
  then show "a \<in> deserted now ip node s \<longleftrightarrow> a \<in> dom (upfAddrs s) - dom (addrs_of (remaining now ip node s))"
    using dom bucket remaining_at [of a now ip node s] by (simp add: deserted_def) blast
qed

lemma commit_releases:
  assumes "addr_inv s" "legal_env e"
  shows "\<exists>gone. set gone = deserted now ip node s
    \<and> released_exactly e hook gone s (commitUpfAddr e hook now ip node s)"
proof -
  let ?r = "named s node" and ?c = "commitUpfAddr e hook now ip node s"
  let ?s = "s\<lparr>upfNodeAddrs := (upfNodeAddrs s)(node \<mapsto> ?r\<lparr>seen := now\<rparr>)\<rparr>"
  have via: ?thesis
    if "withdraws e hook s u" "upfAddrs u = addrs_of (remaining now ip node s)"
      "reportRelays ?c = reportRelays u" "relayGenerations ?c = relayGenerations u"
      "addr_state.more ?c = addr_state.more u" for u
    using that by (auto simp: withdraws_def deserted_remaining [OF assms(1)] released_exactly_def RelayGeneration_def)
  show ?thesis
  proof (cases "now < seen ?r")
    case True
    let ?t = "expireUpfAddrsLocked e hook now s"
    have "upfAddrs ?t = addrs_of (remaining now ip node s)"
      using expire_inv [OF assms, of hook now] assms True
      by (simp add: addr_inv_def expire_nodes remaining_def Let_def)
    with expire_withdraws [OF assms] True show ?thesis
      by (intro via [of ?t]) (simp_all add: commit_superseded)
  next
    case False
    let ?t = "expireUpfAddrsLocked e hook now ?s"
    let ?kept = "map_keep (\<lambda>_ r. now - seen r \<le> 30 * Minute) (upfNodeAddrs s)"
    note placed = commit_named [OF assms False named_def, of hook]
    have s: "addr_inv ?s"
      using assms(1) by (auto simp: addr_inv_def named_def zeroRecord_def intro!: addrs_of_touch [symmetric, where r = ?r]
          split: option.splits)
    have w: "withdraws e hook s ?t"
      by (rule withdraws_trans [OF withdraws_same expire_withdraws [OF s assms(2)]]) simp_all
    have nodes: "upfNodeAddrs ?t = ?kept(node \<mapsto> ?r\<lparr>seen := now\<rparr>)"
      using s assms(2) by (subst expire_nodes) (auto simp: addr_inv_def map_keep_def)
    show ?thesis
    proof (cases "ip = None \<or> IsUnspecified ip \<or> node_addr ?r = [] \<or> node_addr ?r = IP_String ip")
      case True
      have "upfAddrs ?t = addrs_of (remaining now ip node s)"
        using placed(1) False True nodes by (simp add: addr_inv_def remaining_def Let_def)
      with w False True show ?thesis
        by (intro via [of ?t]) (auto simp: commitUpfAddr_def Let_def named_def [symmetric])
    next
      case moved: False
      let ?u = "forgetUpfAddrLocked e hook node (node_addr ?r) ?t"
      have "withdraws e hook s ?u"
        using w placed(1) assms(2) by (blast intro: withdraws_trans forget_withdraws addr_inv_relay)
      moreover have "upfAddrs ?u = addrs_of (remaining now ip node s)"
      proof -
        have "upfAddrs ?u = drop_node node (node_addr ?r) (addrs_of (upfNodeAddrs ?t))"
          using placed(1) by (simp add: addr_inv_def)
        also have "\<dots> = addrs_of ((upfNodeAddrs ?t)(node := None))"
          using addrs_of_delete [where m = "upfNodeAddrs ?t" and node = node, OF placed(2)] moved by simp
        finally show ?thesis using nodes False moved by (auto simp: remaining_def Let_def)
      qed
      ultimately show ?thesis using False moved
        by (intro via [of ?u]) (auto simp: commitUpfAddr_def Let_def named_def [symmetric])
    qed
  qed
qed

lemma known_addr_iff:
  assumes "addr_inv s"
  shows "IsKnownUpfAddr ip now s \<longleftrightarrow> ip \<noteq> None
    \<and> (\<exists>n r. upfNodeAddrs s n = Some r \<and> node_addr r = IP_String ip \<and> now - seen r \<le> 30 * Minute)"
proof -
  have "bucket (upfAddrs s) (IP_String ip) = {n. \<exists>r. upfNodeAddrs s n = Some r \<and> node_addr r = IP_String ip}"
    using assms by (simp add: addr_inv_def)
  then show ?thesis by (cases ip) (fastforce simp: IsKnownUpfAddr_def fresh_enough_iff)+
qed

section \<open>A concrete table\<close>

text \<open>One user plane, named by host name and placed at the address of \<^const>\<open>upf_a\<close>.\<close>

definition std_env :: release_env where
  "std_env = \<lparr>release_orders = std_orders, nodes_order = sorted_list_of_set, release_clock = (\<lambda>_. secs 200)\<rparr>"

definition at_a :: addr_state where
  "at_a = commitUpfAddr std_env None (secs 100) (addr_IP upf_a) ''2/upf-a'' addr_init"

lemma std_env_legal [simp]: "legal_env std_env"
  by (simp add: legal_env_def std_env_def)

lemma upf_resolved [simp]:
  "addr_IP upf_a \<noteq> None" "\<not> IsUnspecified (addr_IP upf_a)"
  "addr_IP upf_b \<noteq> None" "\<not> IsUnspecified (addr_IP upf_b)"
  by code_simp+

lemma at_a_inv: "addr_inv at_a"
  by (simp add: at_a_def commit_inv addr_init_inv)

lemma at_a_nodes: "upfNodeAddrs at_a = [''2/upf-a'' \<mapsto> \<lparr>seen = secs 100, node_addr = ''10.42.0.184''\<rparr>]"
proof -
  have empty: "upfNodeAddrs addr_init = Map.empty" by (simp add: addr_init_def relay_state.defs)
  then have "map_keep P (upfNodeAddrs addr_init) = Map.empty" for P
    by (auto simp: map_keep_def)
  with empty show ?thesis unfolding at_a_def
    by (simp add: commit_nodes [OF addr_init_inv std_env_legal] Let_def named_def zeroRecord_def
        upf_texts) (simp add: secs_def)
qed

lemma at_a_addrs: "upfAddrs at_a = [''10.42.0.184'' \<mapsto> {''2/upf-a''}]"
  using at_a_inv by (auto simp: addr_inv_def at_a_nodes addrs_of_def Let_def)

section \<open>The SMF's address\<close>

text \<open>A destination: a parsed address that is not the unspecified one, at the PFCP port.\<close>

definition smf_usable :: "'w addr_state_scheme \<Rightarrow> bool" where
  "smf_usable s \<longleftrightarrow> (\<exists>ip. SmfAddr s = Some \<lparr>addr_IP = ip, addr_Port = 8805, addr_Zone = []\<rparr>
     \<and> ip \<noteq> None \<and> \<not> IsUnspecified ip)"

lemma smf_usable_iff: "smf_usable s \<longleftrightarrow> smfAddr s \<noteq> None \<and> \<not> IsUnspecified (smfAddr s)"
  by (auto simp: smf_usable_def SmfAddr_def PfcpPort_def)

lemma SetSmfAddr_usable: "smf_usable s \<Longrightarrow> smf_usable (SetSmfAddr ip s)"
  by (simp add: smf_usable_iff SetSmfAddr_def Let_def)

lemma expire_smf [simp]: "smfAddr (expireUpfAddrsLocked e hook now s) = smfAddr s"
  unfolding expireUpfAddrsLocked_def by (rule range_map_frame) (simp add: expireNode_def Let_def)

lemma commit_smf [simp]: "smfAddr (commitUpfAddr e hook now ip node s) = smfAddr s"
  by (simp add: commitUpfAddr_def Let_def)

interpretation smf: tracked_machine "addr_exec hook" addr_inv addr_legal smf_usable "\<lambda>_ _. True"
proof
  fix s :: "'a addr_state_scheme" and op
  assume "smf_usable s"
  then show "smf_usable (addr_exec hook op s)"
    using SetSmfAddr_usable [of s]
    by (cases op) (simp_all add: smf_usable_iff resolve_frame addr_fields [OF relay_exec_more])
qed

section \<open>Properties\<close>

text \<open>
  Property C30. What one message of the SMF does to the identities, exactly: those not named for
  more than thirty minutes go, and the named one is dated now and placed where it resolved to, or
  stays where it was if it did not resolve; a message whose resolution is older than what is
  recorded changes nothing but the expiry.
\<close>

theorem commit_exact:
  assumes "addr_inv s" "legal_env e"
  shows "upfNodeAddrs (commitUpfAddr e hook now ip node s) =
    (let kept = map_keep (\<lambda>_ r. now - seen r \<le> 30 * Minute) (upfNodeAddrs s) in
     if now < seen (named s node) then kept
     else kept(node \<mapsto> \<lparr>seen = now, node_addr =
       if ip = None \<or> IsUnspecified ip then node_addr (named s node) else IP_String ip\<rparr>))"
  by (rule commit_nodes [OF assms])

theorem commit_exact_witness:
  "upfNodeAddrs (commitUpfAddr std_env None (secs 200) (addr_IP upf_b) ''2/upf-a'' at_a)
   = [''2/upf-a'' \<mapsto> \<lparr>seen = secs 200, node_addr = ''10.42.0.185''\<rparr>]
   \<and> upfNodeAddrs (commitUpfAddr std_env None (secs 99) (addr_IP upf_b) ''2/upf-a'' at_a)
   = upfNodeAddrs at_a"
  by (simp add: commit_exact [OF at_a_inv std_env_legal] at_a_nodes named_def Let_def upf_texts)
    (auto simp: secs_def map_keep_def fun_eq_iff)

text \<open>
  A commit releases exactly the addresses it leaves without an identity, each once:
  their relays are forgotten and no others are, their release counts go up by one, and the hook
  runs for each of them and for nothing else.
\<close>

lemma commit_releases_exactly:
  assumes "addr_inv s" "legal_env e"
  shows "\<exists>gone. set gone = deserted now ip node s
    \<and> released_exactly e hook gone s (commitUpfAddr e hook now ip node s)"
  by (rule commit_releases [OF assms])

text \<open>
  Property C29. Of two messages naming the same user plane, the one that resolved it later decides
  where it is, in whichever order the two reach the lock.
\<close>

theorem newest_resolution_wins:
  assumes "addr_inv s" "legal_env e" "seen (named s node) \<le> t1" "t1 < t2"
    and "ip2 \<noteq> None" "\<not> IsUnspecified ip2"
  shows "upfNodeAddrs (commitUpfAddr e hook t1 ip1 node (commitUpfAddr e hook t2 ip2 node s)) node
      = Some \<lparr>seen = t2, node_addr = IP_String ip2\<rparr>
    \<and> upfNodeAddrs (commitUpfAddr e hook t2 ip2 node (commitUpfAddr e hook t1 ip1 node s)) node
      = Some \<lparr>seen = t2, node_addr = IP_String ip2\<rparr>"
proof -
  have inv: "addr_inv (commitUpfAddr e hook t ip node s)" for t ip by (rule commit_inv [OF assms(1,2)])
  have late: "named (commitUpfAddr e hook t2 ip2 node s) node = \<lparr>seen = t2, node_addr = IP_String ip2\<rparr>"
    using assms by (auto simp: named_def [of "commitUpfAddr e hook t2 ip2 node s"] commit_nodes Let_def)
  have early: "seen (named (commitUpfAddr e hook t1 ip1 node s) node) = t1"
    using assms by (simp add: named_def [of "commitUpfAddr e hook t1 ip1 node s"] commit_nodes Let_def)
  show ?thesis
    using late early assms
    by (auto simp: commit_nodes [OF inv assms(2)] commit_nodes [OF assms(1,2), of hook t2] Let_def)
qed

theorem newest_resolution_wins_witness:
  "upfNodeAddrs (commitUpfAddr std_env None (secs 110) (addr_IP upf_a) ''2/upf-a''
      (commitUpfAddr std_env None (secs 120) (addr_IP upf_b) ''2/upf-a'' at_a)) ''2/upf-a''
   = Some \<lparr>seen = secs 120, node_addr = ''10.42.0.185''\<rparr>"
  using newest_resolution_wins [OF at_a_inv std_env_legal, of "''2/upf-a''" "secs 110" "secs 120" "addr_IP upf_b"
      None "addr_IP upf_a"]
  by (simp add: named_def at_a_nodes upf_texts) (simp add: secs_def)

text \<open>
  In whatever order the critical sections of the handlers run, the table of addresses
  stays the inverse of the table of identities, and the relay tables stay consistent.
\<close>

lemma address_tables_consistent:
  assumes "along (addr_exec hook) addr_legal ops addr_init"
    and "fold (addr_exec hook) ops addr_init = s"
  shows "upfAddrs s = addrs_of (upfNodeAddrs s) \<and> relaysByHost s = index_of (reportRelays s)"
  using addrs.run_inv [OF addr_init_inv assms(1)] unfolding assms(2)
  by (simp add: addr_inv_def relay_inv_def)

text \<open>
  A claim to be the SMF that names an IPv4 address makes that address, at the PFCP
  port, the destination of relayed reports; the unspecified address is not taken.
\<close>

lemma smf_claim_is_recorded:
  assumes "length b = 4"
  shows "SmfAddr (SetSmfAddr (IP_String (Some b)) s) =
    (if b = [0, 0, 0, 0] then SmfAddr s
     else Some \<lparr>addr_IP = Some (v4InV6Prefix @ b), addr_Port = 8805, addr_Zone = []\<rparr>)"
proof -
  obtain w x y z where b: "b = [w, x, y, z]"
    using assms by (auto simp: length_Suc_conv numeral_eq_Suc)
  have "IsUnspecified (Some (v4InV6Prefix @ b)) \<longleftrightarrow> b = [0, 0, 0, 0]"
    by (auto simp: b IsUnspecified_def IP_Equal_def IPv4zero_def IPv6unspecified_def v4InV6Prefix_def
        numeral_eq_Suc)
  then show ?thesis using ParseIP_dotted [OF assms]
    by (simp add: SetSmfAddr_def Let_def SmfAddr_def PfcpPort_def)
qed

text \<open>
  Property C39. Once a working SMF address is recorded, no message takes it away: whatever claims,
  resolutions, releases and reports follow, malformed and unspecified claims included, there is a
  usable destination for the reports of the user planes.
\<close>

theorem smf_address_never_erased:
  assumes "addr_inv s" "smf_usable s" "along (addr_exec hook) addr_legal ops s"
  shows "smf_usable (fold (addr_exec hook) ops s)"
  using smf.run_fact [OF assms(1,2)] assms(3) by simp

theorem smf_address_never_erased_witness:
  "smf_usable (fold (addr_exec None) [SetSmf ''junk'', SetSmf ''0.0.0.0'', SetSmf []]
     (SetSmfAddr ''10.42.0.184'' addr_init))"
proof (rule smf_address_never_erased)
  show "addr_inv (SetSmfAddr ''10.42.0.184'' addr_init)"
    using addr_exec_inv [OF addr_init_inv, of "SetSmf ''10.42.0.184''" None] by simp
  have "ParseIP ''10.42.0.184'' \<noteq> None" "\<not> IsUnspecified (ParseIP ''10.42.0.184'')" by code_simp+
  then show "smf_usable (SetSmfAddr ''10.42.0.184'' addr_init)"
    by (auto simp: smf_usable_iff SetSmfAddr_def Let_def)
qed simp

text \<open>
  An identity is its type and its octets: two node ids share an entry exactly when
  both agree.
\<close>

lemma node_key_exact:
  "nodeKey m = nodeKey n \<longleftrightarrow>
   NodeIdType m = NodeIdType n \<and> octets (NodeIdValue m) = octets (NodeIdValue n)"
proof
  assume eq: "nodeKey m = nodeKey n"
  have split: "takeWhile (\<lambda>c. c \<noteq> CHR ''/'') (nodeKey k) = Itoa (unat (NodeIdType k))"
    "dropWhile (\<lambda>c. c \<noteq> CHR ''/'') (nodeKey k) = CHR ''/'' # go_string (octets (NodeIdValue k))" for k
  proof -
    have "\<forall>c \<in> set (Itoa (unat (NodeIdType k))). c \<noteq> CHR ''/''"
      using Itoa_digits [of "unat (NodeIdType k)"] by auto
    then show "takeWhile (\<lambda>c. c \<noteq> CHR ''/'') (nodeKey k) = Itoa (unat (NodeIdType k))"
      "dropWhile (\<lambda>c. c \<noteq> CHR ''/'') (nodeKey k) = CHR ''/'' # go_string (octets (NodeIdValue k))"
      by (simp_all add: nodeKey_def takeWhile_append2 dropWhile_append2)
  qed
  have "Itoa (unat (NodeIdType m)) = Itoa (unat (NodeIdType n))" using split(1) [of m] split(1) [of n] eq by simp
  moreover have "octets (NodeIdValue m) = octets (NodeIdValue n)" using split(2) [of m] split(2) [of n] eq by simp
  ultimately show "NodeIdType m = NodeIdType n \<and> octets (NodeIdValue m) = octets (NodeIdValue n)"
    by (simp add: unsigned_word_eqI)
qed (simp add: nodeKey_def)

text \<open>
  A node id as PFCP has it: four octets, sixteen octets that are not an IPv4 address, or a name
  that is not the text of an address.
\<close>

definition valid_node_id :: "NodeID \<Rightarrow> bool" where
  "valid_node_id n \<longleftrightarrow>
     (let b = octets (NodeIdValue n) in
      NodeIdType n = NodeIdTypeIpv4Address \<and> length b = 4
      \<or> NodeIdType n = NodeIdTypeIpv6Address \<and> length b = 16 \<and> To4 (Some b) = None
      \<or> NodeIdType n = NodeIdTypeFqdn \<and> ParseIP (go_string b) = None)"

text \<open>
  Property C34. A node id made from a text is of the kind its octets are, and the text of an
  address makes a node that resolves to that address without asking DNS.
\<close>

theorem node_id_well_formed:
  "valid_node_id (NewNodeID s)
   \<and> (ParseIP s \<noteq> None \<longrightarrow>
       (\<exists>ip. ResolveNodeIdToIp L (NewNodeID s) cache = (ip, cache) \<and> IP_Equal ip (ParseIP s)))"
proof (cases "ParseIP s")
  case None
  then show ?thesis by (simp add: NewNodeID_def valid_node_id_def Let_def)
next
  case (Some b)
  then have "length b = 16" by (rule ParseIP_length)
  with Some show ?thesis
    by (auto simp: NewNodeID_def valid_node_id_def Let_def ResolveNodeIdToIp_def node_id_types
        To4_def To16_def IP_Equal_def)
qed

theorem node_id_well_formed_witness:
  "\<exists>ip. ResolveNodeIdToIp (\<lambda>_. LookupError) (NewNodeID ''10.42.0.184'') Map.empty = (ip, Map.empty)
     \<and> IP_Equal ip (ParseIP ''10.42.0.184'')"
proof -
  have "ParseIP ''10.42.0.184'' \<noteq> None" by code_simp
  then show ?thesis
    using node_id_well_formed [of "''10.42.0.184''" "\<lambda>_. LookupError" Map.empty] by blast
qed

text \<open>
  A refresh of the name cache leaves, for every cached name, what DNS says now and
  nothing for a name that no longer resolves, in any iteration order; a node resolved right after
  it is at the address DNS gives, or at the unspecified one when DNS fails.
\<close>

lemma dns_refresh_current:
  assumes "finite (dom cache)" "enumerates ord"
    and "NodeIdType n = NodeIdTypeFqdn" "h = go_string (octets (NodeIdValue n))"
  shows "RefreshDnsHostIpCache L ord cache h = Option.bind (cache h) (refreshed L h)
    \<and> (case L h of
         LookupError \<Rightarrow> cache h \<noteq> None \<longrightarrow> fst (ResolveNodeIdToIp L n (RefreshDnsHostIpCache L ord cache)) = IPv4zero
       | LookupAddrs ns0 _ \<Rightarrow>
           IP_Equal (fst (ResolveNodeIdToIp L n (RefreshDnsHostIpCache L ord cache))) (ParseIP ns0))"
proof -
  have eq: "IP_Equal ip ip" for ip by (simp add: IP_Equal_def)
  have cached: "RefreshDnsHostIpCache L ord cache h = Option.bind (cache h) (refreshed L h)"
    using assms(1,2) refresh_loop [of "ord (dom cache)" L cache h]
    by (cases "cache h") (auto simp: RefreshDnsHostIpCache_def)
  with assms(3) show ?thesis
    by (cases "cache h"; cases "L h")
      (auto simp: ResolveNodeIdToIp_def Let_def assms(4) [symmetric] getDnsHostIp_def node_id_types
        refreshed_def eq)
qed

definition std_dns :: "string \<Rightarrow> dns_answer" where
  "std_dns h = (if h = ''upf-a'' then LookupAddrs ''10.42.0.185'' [] else LookupError)"

end
