(* ===== verification/Upf_Txns.thy ===== *)
theory Upf_Txns
  imports Adapter_Prelude
begin

text \<open>
  The requests of the SMF that wait for an answer (\<^verbatim>\<open>config/config.go\<close>): a table from
  sequence number to the channel of the waiting handler. A channel is a reference; what is in it,
  at most one answer, is kept beside the table. A send into a full channel would block.
\<close>

section \<open>State\<close>

record 'e PfcpHttpRsp =
  Err :: "'e option"
  Rsp :: slice

type_synonym PfcpTxnChan = nat

record 'e txn_state =
  UpfTxns :: "u32 \<rightharpoonup> PfcpTxnChan"
  chans :: "PfcpTxnChan \<rightharpoonup> 'e PfcpHttpRsp option"

section \<open>Operations\<close>

text \<open>\<^verbatim>\<open>make(config.PfcpTxnChan, 1)\<close>: a reference not used before, empty.\<close>

definition newTxnChan :: "PfcpTxnChan \<Rightarrow> ('e, 'w) txn_state_scheme \<Rightarrow> ('e, 'w) txn_state_scheme" where
  "newTxnChan c s = s\<lparr>chans := (chans s)(c \<mapsto> None)\<rparr>"

definition InsertUpfPfcpTxn :: "u32 \<Rightarrow> PfcpTxnChan \<Rightarrow> ('e, 'w) txn_state_scheme \<Rightarrow> ('e, 'w) txn_state_scheme" where
  "InsertUpfPfcpTxn seq c s = s\<lparr>UpfTxns := (UpfTxns s)(seq \<mapsto> c)\<rparr>"

definition ForgetUpfPfcpTxn :: "u32 \<Rightarrow> PfcpTxnChan \<Rightarrow> ('e, 'w) txn_state_scheme \<Rightarrow> ('e, 'w) txn_state_scheme" where
  "ForgetUpfPfcpTxn seq own s =
     (case UpfTxns s seq of
        None \<Rightarrow> s
      | Some held \<Rightarrow> if held \<noteq> own then s else s\<lparr>UpfTxns := (UpfTxns s)(seq := None)\<rparr>)"

definition GetUpfPfcpTxn :: "u32 \<Rightarrow> ('e, 'w) txn_state_scheme \<Rightarrow> PfcpTxnChan option \<times> ('e, 'w) txn_state_scheme" where
  "GetUpfPfcpTxn seq s =
     (case UpfTxns s seq of
        Some c \<Rightarrow> (Some c, s\<lparr>UpfTxns := (UpfTxns s)(seq := None)\<rparr>)
      | None \<Rightarrow> (None, s))"

text \<open>
  The send of an answer and the receive of the handler. A send that would block gives no state:
  the goroutine does not go on.
\<close>

definition sendRsp :: "PfcpTxnChan \<Rightarrow> 'e PfcpHttpRsp \<Rightarrow> ('e, 'w) txn_state_scheme \<Rightarrow> ('e, 'w) txn_state_scheme option" where
  "sendRsp c rsp s =
     (case chans s c of
        Some None \<Rightarrow> Some (s\<lparr>chans := (chans s)(c \<mapsto> Some rsp)\<rparr>)
      | _ \<Rightarrow> None)"

definition recvRsp :: "PfcpTxnChan \<Rightarrow> ('e, 'w) txn_state_scheme \<Rightarrow> ('e PfcpHttpRsp \<times> ('e, 'w) txn_state_scheme) option" where
  "recvRsp c s =
     (case chans s c of
        Some (Some rsp) \<Rightarrow> Some (rsp, s\<lparr>chans := (chans s)(c \<mapsto> None)\<rparr>)
      | _ \<Rightarrow> None)"

section \<open>Tables whose entries are removed by their owner\<close>

text \<open>
  The contract of a table whose entries are put under a number and taken out by whoever put them:
  removing an entry names the entry as well as the number, and leaves another owner's alone. Two
  tables keep it, that of the waiting requests and that of the transactions.
\<close>

locale owned_table =
  fixes entry :: "'s \<Rightarrow> 'k \<Rightarrow> 'v option"
    and remove_own :: "'k \<Rightarrow> 'v \<Rightarrow> 's \<Rightarrow> 's"
  assumes remove_entry: "entry (remove_own k v s) j = (if j = k \<and> entry s k = Some v then None else entry s j)"
begin

lemma remove_subset: "entry (remove_own k v s) j = Some w \<Longrightarrow> entry s j = Some w"
  by (auto simp: remove_entry split: if_splits)

end

interpretation txns: owned_table UpfTxns ForgetUpfPfcpTxn
  by unfold_locales (simp add: ForgetUpfPfcpTxn_def split: option.split)

section \<open>Answers are sent once and never block\<close>

text \<open>
  Every registered channel is empty and registered under one number only, and every registered
  channel was made.
\<close>

definition txn_inv :: "('e, 'w) txn_state_scheme \<Rightarrow> bool" where
  "txn_inv s \<longleftrightarrow>
     (\<forall>q c. UpfTxns s q = Some c \<longrightarrow> chans s c = Some None)
     \<and> (\<forall>q q' c. UpfTxns s q = Some c \<longrightarrow> UpfTxns s q' = Some c \<longrightarrow> q = q')"

text \<open>The delivery of an answer: the lookup and the send.\<close>

definition deliverRsp :: "u32 \<Rightarrow> 'e PfcpHttpRsp \<Rightarrow> ('e, 'w) txn_state_scheme \<Rightarrow> bool \<times> ('e, 'w) txn_state_scheme option" where
  "deliverRsp seq rsp s =
     (let (c, s) = GetUpfPfcpTxn seq s in
      case c of None \<Rightarrow> (False, Some s) | Some c \<Rightarrow> (True, sendRsp c rsp s))"

lemma chans_withdraw [simp]: "chans (ForgetUpfPfcpTxn seq c s) = chans s"
  by (simp add: ForgetUpfPfcpTxn_def split: option.split)

lemma register_inv: "txn_inv s \<Longrightarrow> chans s c = None \<Longrightarrow> txn_inv (InsertUpfPfcpTxn seq c (newTxnChan c s))"
  unfolding txn_inv_def InsertUpfPfcpTxn_def newTxnChan_def
  by (auto split: if_splits)

lemma withdraw_inv: "txn_inv s \<Longrightarrow> txn_inv (ForgetUpfPfcpTxn seq c s)"
  unfolding txn_inv_def chans_withdraw by (blast dest: txns.remove_subset)

lemma deliver_inv:
  assumes "txn_inv s"
  shows "\<exists>t. snd (deliverRsp seq rsp s) = Some t \<and> txn_inv t"
proof (cases "UpfTxns s seq")
  case None
  with assms show ?thesis by (simp add: deliverRsp_def GetUpfPfcpTxn_def)
next
  case (Some c)
  then have "chans s c = Some None" using assms by (simp add: txn_inv_def)
  moreover have "UpfTxns s q \<noteq> Some c" if "q \<noteq> seq" for q
    using assms Some that by (auto simp: txn_inv_def)
  ultimately show ?thesis using assms Some
    by (auto simp: deliverRsp_def GetUpfPfcpTxn_def sendRsp_def txn_inv_def split: if_splits)
qed

lemma receive_inv: "txn_inv s \<Longrightarrow> txn_inv (case recvRsp c s of None \<Rightarrow> s | Some (_, s) \<Rightarrow> s)"
  by (auto simp: recvRsp_def txn_inv_def split: option.splits)

section \<open>The waiting requests as a machine\<close>

text \<open>
  The steps that goroutines come between: a handler registers a channel it has just made, a
  registration is withdrawn, a response is looked up and its channel taken, an answer is sent to a
  channel that was taken, a handler receives. The state carries the channels taken and not yet
  sent to; a send that would block ends the machine.
\<close>

datatype 'e txn_op =
    Register PfcpTxnChan u32
  | Withdraw u32 PfcpTxnChan
  | Lookup u32
  | Send PfcpTxnChan "'e PfcpHttpRsp"
  | Receive PfcpTxnChan

type_synonym ('e, 'w) waiting = "(('e, 'w) txn_state_scheme \<times> PfcpTxnChan set) option"

fun txn_exec :: "'e txn_op \<Rightarrow> ('e, 'w) waiting \<Rightarrow> ('e, 'w) waiting" where
  "txn_exec op None = None"
| "txn_exec (Register c seq) (Some (s, taken)) = Some (InsertUpfPfcpTxn seq c (newTxnChan c s), taken)"
| "txn_exec (Withdraw seq c) (Some (s, taken)) = Some (ForgetUpfPfcpTxn seq c s, taken)"
| "txn_exec (Lookup seq) (Some (s, taken)) =
     (case GetUpfPfcpTxn seq s of (None, s) \<Rightarrow> Some (s, taken) | (Some c, s) \<Rightarrow> Some (s, insert c taken))"
| "txn_exec (Send c rsp) (Some (s, taken)) = map_option (\<lambda>s. (s, taken - {c})) (sendRsp c rsp s)"
| "txn_exec (Receive c) (Some (s, taken)) =
     Some (case recvRsp c s of None \<Rightarrow> (s, taken) | Some (_, s) \<Rightarrow> (s, taken))"

fun txn_legal :: "'e txn_op \<Rightarrow> ('e, 'w) waiting \<Rightarrow> bool" where
  "txn_legal (Register c seq) (Some (s, taken)) = (chans s c = None)"
| "txn_legal (Send c rsp) (Some (s, taken)) = (c \<in> taken)"
| "txn_legal _ _ = True"

text \<open>A channel that was taken is empty and registered no more.\<close>

definition txn_ok :: "('e, 'w) waiting \<Rightarrow> bool" where
  "txn_ok w \<longleftrightarrow> (\<exists>s taken. w = Some (s, taken) \<and> txn_inv s
     \<and> (\<forall>c \<in> taken. chans s c = Some None \<and> (\<forall>q. UpfTxns s q \<noteq> Some c)))"

interpretation txn_run: guarded_machine txn_exec txn_ok txn_legal
proof
  fix w :: "('a, 'b) waiting" and op
  assume "txn_ok w" and legal: "txn_legal op w"
  then obtain s taken where w: "w = Some (s, taken)" and inv: "txn_inv s"
    and empty: "\<forall>c \<in> taken. chans s c = Some None \<and> (\<forall>q. UpfTxns s q \<noteq> Some c)"
    by (auto simp: txn_ok_def)
  show "txn_ok (txn_exec op w)"
  proof (cases op)
    case (Register c seq)
    with w legal have "chans s c = None" by simp
    moreover from this empty have "c \<notin> taken" by auto
    ultimately show ?thesis
      using w inv empty register_inv [of s c seq] Register
      by (auto simp: txn_ok_def InsertUpfPfcpTxn_def newTxnChan_def)
  next
    case (Withdraw seq c)
    then show ?thesis
      using w inv empty withdraw_inv [of s seq c] by (auto simp: txn_ok_def dest: txns.remove_subset)
  next
    case (Lookup seq)
    then show ?thesis
      using w inv empty by (auto simp: txn_ok_def txn_inv_def GetUpfPfcpTxn_def split: option.split)
  next
    case (Send c rsp)
    with w legal empty have c: "c \<in> taken" "chans s c = Some None" "UpfTxns s q \<noteq> Some c" for q by auto
    then show ?thesis
      using Send w inv empty by (auto simp: txn_ok_def txn_inv_def sendRsp_def)
  next
    case (Receive c)
    then show ?thesis
      using w inv empty receive_inv [of s c] by (auto simp: txn_ok_def recvRsp_def split: option.split)
  qed
qed

text \<open>
  Property C10. Delivering an answer never blocks the goroutine that reads PFCP: in whatever order
  registrations, withdrawals, lookups, sends and receives of any number of goroutines interleave,
  with several requests under one number among them, every send finds its channel empty.
\<close>

theorem answers_never_block:
  assumes "along txn_exec txn_legal ops (Some (\<lparr>UpfTxns = Map.empty, chans = Map.empty\<rparr>, {}))"
  shows "fold txn_exec ops (Some (\<lparr>UpfTxns = Map.empty, chans = Map.empty\<rparr>, {})) \<noteq> None"
  using txn_run.run_inv [OF _ assms] by (auto simp: txn_ok_def txn_inv_def)

theorem answers_never_block_witness:
  "fold txn_exec [Register 1 7, Lookup 7, Register 2 7, Lookup 7, Send 2 \<lparr>Err = Some (), Rsp = None\<rparr>,
     Send 1 \<lparr>Err = None, Rsp = Some []\<rparr>, Lookup 7, Receive 1]
     (Some (\<lparr>UpfTxns = Map.empty, chans = Map.empty\<rparr>, {})) \<noteq> None"
  by (rule answers_never_block)
    (simp add: InsertUpfPfcpTxn_def newTxnChan_def GetUpfPfcpTxn_def sendRsp_def)

end
