(* ===== verification/Pfcp_Message.thy ===== *)
theory Pfcp_Message
  imports Adapter_Prelude Go_Net
begin

text \<open>
  The PFCP messages as the adapter sees them (\<^verbatim>\<open>pfcp/udp/pfcp_message_type.go\<close>,
  \<^verbatim>\<open>pfcp/udp/event.go\<close>). Messages belong to the library
  \<^verbatim>\<open>wmnsk/go-pfcp\<close>, which is not part of the sources: a message is a value of an
  arbitrary type, and what the adapter calls of the library is a record of functions that every
  definition takes as an argument. Of the numeric codes the sources only use that they are
  different, so a message type is a constructor.
\<close>

section \<open>Message types\<close>

datatype msg_type =
    MsgTypeHeartbeatRequest | MsgTypeHeartbeatResponse
  | MsgTypePFDManagementRequest | MsgTypePFDManagementResponse
  | MsgTypeAssociationSetupRequest | MsgTypeAssociationSetupResponse
  | MsgTypeAssociationUpdateRequest | MsgTypeAssociationUpdateResponse
  | MsgTypeAssociationReleaseRequest | MsgTypeAssociationReleaseResponse
  | MsgTypeNodeReportRequest | MsgTypeNodeReportResponse
  | MsgTypeSessionSetDeletionRequest | MsgTypeSessionSetDeletionResponse
  | MsgTypeSessionEstablishmentRequest | MsgTypeSessionEstablishmentResponse
  | MsgTypeSessionModificationRequest | MsgTypeSessionModificationResponse
  | MsgTypeSessionDeletionRequest | MsgTypeSessionDeletionResponse
  | MsgTypeSessionReportRequest | MsgTypeSessionReportResponse
  | MsgTypeOther u8

section \<open>The library\<close>

text \<open>
  \<open>IsA t m\<close> is the type assertion on the struct that carries messages of type \<open>t\<close>.
  An accessor that reports an error gives \<open>None\<close>; the flags of an association response are
  absent, unreadable or a byte.
\<close>

record 'm pfcp_lib =
  MessageType :: "'m \<Rightarrow> msg_type"
  IsA :: "msg_type \<Rightarrow> 'm \<Rightarrow> bool"
  Sequence :: "'m \<Rightarrow> u32"
  SetSequenceNumber :: "u32 \<Rightarrow> 'm \<Rightarrow> 'm"
  SEID :: "'m \<Rightarrow> u64"
  Marshal :: "'m \<Rightarrow> u8 list option"
  Parse :: "u8 list \<Rightarrow> 'm option"
  RecoveryTimeStamp :: "'m \<Rightarrow> time option"
  Cause :: "'m \<Rightarrow> u8 option"
  CauseRequestAccepted :: u8
  NodeIDText :: "'m \<Rightarrow> string option"
  CPFSEID :: "'m \<Rightarrow> u64 option"
  PFCPASRspFlags :: "'m \<Rightarrow> u8 option option"
  HasRetentionInformation :: "'m \<Rightarrow> bool"
  SetRecoveryTimeStamp :: "time \<Rightarrow> 'm \<Rightarrow> 'm"
  SetNodeID :: "string \<Rightarrow> 'm \<Rightarrow> 'm"
  SetCPFSEID :: "u64 \<Rightarrow> IP \<Rightarrow> 'm \<Rightarrow> 'm"
  SetPFCPASRspFlags :: "u8 option \<Rightarrow> 'm \<Rightarrow> 'm"
  NewRejection :: "u64 \<Rightarrow> u32 \<Rightarrow> 'm"

text \<open>
  What the adapter relies on of it. A sequence number is three octets, so a message carries what
  it is given only up to \<open>0xFFFFFF\<close>; renumbering changes nothing else, and neither the
  number nor the type of a message changes with its information elements; a rejection is a session
  report response under the given number.
\<close>

definition seq_max :: u32 where "seq_max = 0xFFFFFF"

definition lib_laws :: "'m pfcp_lib \<Rightarrow> bool" where
  "lib_laws lib \<longleftrightarrow>
     (\<forall>q m. q \<le> seq_max \<longrightarrow> Sequence lib (SetSequenceNumber lib q m) = q)
     \<and> (\<forall>q m. MessageType lib (SetSequenceNumber lib q m) = MessageType lib m)
     \<and> (\<forall>seid q. q \<le> seq_max \<longrightarrow> Sequence lib (NewRejection lib seid q) = q)
     \<and> (\<forall>seid q. MessageType lib (NewRejection lib seid q) = MsgTypeSessionReportResponse)
     \<and> (\<forall>b m. Parse lib b = Some m \<longrightarrow> Sequence lib m \<le> seq_max)
     \<and> (\<forall>t m. Sequence lib (SetRecoveryTimeStamp lib t m) = Sequence lib m
          \<and> MessageType lib (SetRecoveryTimeStamp lib t m) = MessageType lib m)
     \<and> (\<forall>n m. Sequence lib (SetNodeID lib n m) = Sequence lib m
          \<and> MessageType lib (SetNodeID lib n m) = MessageType lib m)
     \<and> (\<forall>seid ip m. Sequence lib (SetCPFSEID lib seid ip m) = Sequence lib m
          \<and> MessageType lib (SetCPFSEID lib seid ip m) = MessageType lib m)"

lemma lib_lawsD:
  assumes "lib_laws lib"
  shows "q \<le> seq_max \<Longrightarrow> Sequence lib (SetSequenceNumber lib q m) = q"
    "MessageType lib (SetSequenceNumber lib q m) = MessageType lib m"
    "q \<le> seq_max \<Longrightarrow> Sequence lib (NewRejection lib seid q) = q"
    "MessageType lib (NewRejection lib seid q) = MsgTypeSessionReportResponse"
    "Parse lib b = Some m \<Longrightarrow> Sequence lib m \<le> seq_max"
    "Sequence lib (SetRecoveryTimeStamp lib t m) = Sequence lib m"
    "MessageType lib (SetRecoveryTimeStamp lib t m) = MessageType lib m"
    "Sequence lib (SetNodeID lib n m) = Sequence lib m"
    "MessageType lib (SetNodeID lib n m) = MessageType lib m"
    "Sequence lib (SetCPFSEID lib sid ip m) = Sequence lib m"
    "MessageType lib (SetCPFSEID lib sid ip m) = MessageType lib m"
  using assms by (auto simp: lib_laws_def)

section \<open>Requests and responses\<close>

definition IsRequest :: "'m pfcp_lib \<Rightarrow> 'm \<Rightarrow> bool" where
  "IsRequest lib msg =
     (case MessageType lib msg of
        MsgTypeHeartbeatRequest \<Rightarrow> True
      | MsgTypePFDManagementRequest \<Rightarrow> True
      | MsgTypeAssociationSetupRequest \<Rightarrow> True
      | MsgTypeAssociationUpdateRequest \<Rightarrow> True
      | MsgTypeAssociationReleaseRequest \<Rightarrow> True
      | MsgTypeNodeReportRequest \<Rightarrow> True
      | MsgTypeSessionSetDeletionRequest \<Rightarrow> True
      | MsgTypeSessionEstablishmentRequest \<Rightarrow> True
      | MsgTypeSessionModificationRequest \<Rightarrow> True
      | MsgTypeSessionDeletionRequest \<Rightarrow> True
      | MsgTypeSessionReportRequest \<Rightarrow> True
      | _ \<Rightarrow> False)"

definition IsResponse :: "'m pfcp_lib \<Rightarrow> 'm \<Rightarrow> bool" where
  "IsResponse lib msg =
     (case MessageType lib msg of
        MsgTypeHeartbeatResponse \<Rightarrow> True
      | MsgTypePFDManagementResponse \<Rightarrow> True
      | MsgTypeAssociationSetupResponse \<Rightarrow> True
      | MsgTypeAssociationUpdateResponse \<Rightarrow> True
      | MsgTypeAssociationReleaseResponse \<Rightarrow> True
      | MsgTypeNodeReportResponse \<Rightarrow> True
      | MsgTypeSessionSetDeletionResponse \<Rightarrow> True
      | MsgTypeSessionEstablishmentResponse \<Rightarrow> True
      | MsgTypeSessionModificationResponse \<Rightarrow> True
      | MsgTypeSessionDeletionResponse \<Rightarrow> True
      | MsgTypeSessionReportResponse \<Rightarrow> True
      | _ \<Rightarrow> False)"

lemma request_not_response: "IsRequest lib m \<Longrightarrow> \<not> IsResponse lib m"
  by (cases "MessageType lib m") (simp_all add: IsRequest_def IsResponse_def)

section \<open>Events of a transaction\<close>

datatype EventType = ReceiveResendRequest | ReceiveValidResponse

section \<open>A concrete library\<close>

text \<open>
  An instance of the library for evaluation: a message is its type, its number and its SEID.
\<close>

record plain_msg =
  pm_type :: msg_type
  pm_seq :: u32
  pm_seid :: u64
  pm_node :: string
  pm_flags :: "u8 option"

definition plain_lib :: "plain_msg pfcp_lib" where
  "plain_lib = \<lparr>
     MessageType = pm_type,
     IsA = (\<lambda>t m. pm_type m = t),
     Sequence = (\<lambda>m. pm_seq m mod 0x1000000),
     SetSequenceNumber = (\<lambda>q m. m\<lparr>pm_seq := q\<rparr>),
     SEID = pm_seid,
     Marshal = (\<lambda>m. Some [ucast (pm_seq m)]),
     Parse = (\<lambda>_. None),
     RecoveryTimeStamp = (\<lambda>_. Some 0),
     Cause = (\<lambda>_. Some 1),
     CauseRequestAccepted = 1,
     NodeIDText = (\<lambda>m. Some (pm_node m)),
     CPFSEID = (\<lambda>m. Some (pm_seid m)),
     PFCPASRspFlags = (\<lambda>m. map_option Some (pm_flags m)),
     HasRetentionInformation = (\<lambda>_. False),
     SetRecoveryTimeStamp = (\<lambda>_ m. m),
     SetNodeID = (\<lambda>n m. m\<lparr>pm_node := n\<rparr>),
     SetCPFSEID = (\<lambda>seid _ m. m\<lparr>pm_seid := seid\<rparr>),
     SetPFCPASRspFlags = (\<lambda>f m. m\<lparr>pm_flags := f\<rparr>),
     NewRejection = (\<lambda>seid q. \<lparr>pm_type = MsgTypeSessionReportResponse, pm_seq = q, pm_seid = seid,
       pm_node = [], pm_flags = None\<rparr>)\<rparr>"

lemma seq_mod: "q \<le> seq_max \<Longrightarrow> q mod 0x1000000 = q" for q :: u32
  by (simp add: seq_max_def word_le_nat_alt unat_mod word_unat_eq_iff)

lemma plain_lib_laws: "lib_laws plain_lib"
proof -
  have "q mod 0x1000000 \<le> seq_max" for q :: u32
    by (simp add: seq_max_def word_le_nat_alt unat_mod)
  then show ?thesis by (simp add: lib_laws_def plain_lib_def seq_mod)
qed

end
