(* ===== verification/Tx_Table.thy ===== *)
theory Tx_Table
  imports Upf_Txns Pfcp_Message
begin

text \<open>
  The transaction tables (\<^verbatim>\<open>pfcp/udp/udp.go\<close>, \<^verbatim>\<open>pfcp/udp/transaction.go\<close>):
  for each consumer address a table from sequence number to the transaction in flight. Tables and
  transactions are shared by reference, and the sources compare the references, so both live in a
  store; a released table stays in the store but no lookup reaches it. The transactions whose
  goroutine has been started are listed in \<open>spawned\<close>. There is one socket, that of the
  server, so a transaction does not carry it; the field \<^verbatim>\<open>ErrHandler\<close> of a
  transaction is never set, the handler comes with the event data.
\<close>

section \<open>State\<close>

datatype TransactionType = SendingRequest | SendingResponse

text \<open>
  The error handlers the sources pass with a message: the shared one of the messages of the SMF,
  the one of a relayed report with the SEID it closes over, and the one of a response.
\<close>

datatype err_handler = HandlePfcpSendErrorHandler | RelayGiveUpHandler u64 | ResendWindowClosedHandler

record PfcpEventData =
  ErrHandler :: err_handler
  LSEID :: u64

type_synonym table_ref = nat
type_synonym tx_ref = nat

record Transaction =
  EventChannel :: "EventType option"
  DestAddr :: UDPAddr
  ConsumerAddr :: string
  EventData :: "PfcpEventData option"
  SendMsg :: "u8 list"
  SequenceNumber :: u32
  TxMessageType :: msg_type
  TxType :: TransactionType

record UDPConn =
  LocalAddr :: string

record PfcpServer =
  Addr :: UDPAddr
  Conn :: "UDPConn option"

type_synonym TxTable = "u32 \<rightharpoonup> tx_ref"

record tx_state =
  Server :: "PfcpServer option"
  consumers :: "string \<rightharpoonup> table_ref"
  tables :: "table_ref \<rightharpoonup> TxTable"
  transactions :: "tx_ref \<rightharpoonup> Transaction"
  next_ref :: nat
  spawned :: "tx_ref list"

datatype udp_error =
    ErrNotInitialized | ErrNotListening | ErrMarshal
  | ErrDuplicateSequence u32 | ErrDetached string
  | ErrNoTxTable | ErrNoSequence u32 | ErrNotHeld u32
  | ErrResendRequest | ErrClosed | ErrRead | ErrParse
  | ErrWrite | ErrRequestTimeout u32 | ErrResponseTimeout u32

section \<open>One table\<close>

definition TxTable_LoadOrStore :: "u32 \<Rightarrow> tx_ref \<Rightarrow> TxTable \<Rightarrow> (tx_ref \<times> bool) \<times> TxTable" where
  "TxTable_LoadOrStore seq tx t =
     (case t seq of Some existing \<Rightarrow> ((existing, True), t) | None \<Rightarrow> ((tx, False), t(seq \<mapsto> tx)))"

definition TxTable_Load :: "u32 \<Rightarrow> TxTable option \<Rightarrow> tx_ref option" where
  "TxTable_Load seq t = (case t of None \<Rightarrow> None | Some t \<Rightarrow> t seq)"

definition TxTable_DeleteIf :: "u32 \<Rightarrow> tx_ref \<Rightarrow> TxTable \<Rightarrow> bool \<times> TxTable" where
  "TxTable_DeleteIf seq tx t = (if t seq = Some tx then (True, t(seq := None)) else (False, t))"

interpretation tx_table: owned_table "\<lambda>t. t" "\<lambda>seq tx t. snd (TxTable_DeleteIf seq tx t)"
  by unfold_locales (simp add: TxTable_DeleteIf_def)

section \<open>The table of consumers\<close>

definition ConsumerTable_Load :: "string \<Rightarrow> 'w tx_state_scheme \<Rightarrow> table_ref option" where
  "ConsumerTable_Load consumerAddr s = consumers s consumerAddr"

definition stillHolds :: "string \<Rightarrow> table_ref \<Rightarrow> 'w tx_state_scheme \<Rightarrow> bool" where
  "stillHolds consumerAddr table s \<longleftrightarrow> consumers s consumerAddr = Some table"

definition DeleteByHost :: "string order \<Rightarrow> string \<Rightarrow> 'w tx_state_scheme \<Rightarrow> 'w tx_state_scheme" where
  "DeleteByHost ord ip s =
     range_map consumers
       (\<lambda>consumerAddr _ s.
          if SplitHost consumerAddr = Some ip then s\<lparr>consumers := (consumers s)(consumerAddr := None)\<rparr> else s)
       (ord (dom (consumers s))) s"

definition ConsumerTable_LoadOrStore ::
  "string \<Rightarrow> table_ref \<Rightarrow> 'w tx_state_scheme \<Rightarrow> table_ref \<times> 'w tx_state_scheme" where
  "ConsumerTable_LoadOrStore consumerAddr txTable s =
     (case consumers s consumerAddr of
        Some actual \<Rightarrow> (actual, s)
      | None \<Rightarrow> (txTable, s\<lparr>consumers := (consumers s)(consumerAddr \<mapsto> txTable)\<rparr>))"

definition ForgetConsumer :: "string order \<Rightarrow> string \<Rightarrow> 'w tx_state_scheme \<Rightarrow> 'w tx_state_scheme" where
  "ForgetConsumer ord ip s = (if Server s = None then s else DeleteByHost ord ip s)"

section \<open>Registering and removing a transaction\<close>

definition newTxTable :: "'w tx_state_scheme \<Rightarrow> table_ref \<times> 'w tx_state_scheme" where
  "newTxTable s = (next_ref s, s\<lparr>tables := (tables s)(next_ref s \<mapsto> Map.empty), next_ref := Suc (next_ref s)\<rparr>)"

definition storeTx :: "table_ref \<Rightarrow> u32 \<Rightarrow> tx_ref \<Rightarrow> 'w tx_state_scheme \<Rightarrow> bool \<times> 'w tx_state_scheme" where
  "storeTx t seq tx s =
     (let ((_, loaded), table) = TxTable_LoadOrStore seq tx (case tables s t of None \<Rightarrow> Map.empty | Some m \<Rightarrow> m)
      in (loaded, s\<lparr>tables := (tables s)(t \<mapsto> table)\<rparr>))"

definition putAttempts :: nat where "putAttempts = 3"

primrec putLoop :: "nat \<Rightarrow> string \<Rightarrow> u32 \<Rightarrow> tx_ref \<Rightarrow> 'w tx_state_scheme \<Rightarrow> udp_error option \<times> 'w tx_state_scheme" where
  "putLoop 0 consumerAddr seq tx s = (Some (ErrDetached consumerAddr), s)"
| "putLoop (Suc n) consumerAddr seq tx s =
     (let (fresh, s) = newTxTable s;
          (txTable, s) = ConsumerTable_LoadOrStore consumerAddr fresh s;
          (loaded, s) = storeTx txTable seq tx s in
      if loaded then (Some (ErrDuplicateSequence seq), s)
      else if stillHolds consumerAddr txTable s then (None, s)
      else putLoop n consumerAddr seq tx s)"

definition PutTransaction :: "tx_ref \<Rightarrow> Transaction \<Rightarrow> 'w tx_state_scheme \<Rightarrow> udp_error option \<times> 'w tx_state_scheme" where
  "PutTransaction x tx s = putLoop putAttempts (ConsumerAddr tx) (SequenceNumber tx) x s"

definition findTransaction ::
  "'m pfcp_lib \<Rightarrow> 'm \<Rightarrow> UDPAddr \<Rightarrow> 'w tx_state_scheme \<Rightarrow> udp_error + tx_ref option" where
  "findTransaction lib msg addr s =
     (let consumerAddr = UDPAddr_String addr; seqNum = Sequence lib msg in
      if Server s = None then Inl ErrNotInitialized
      else if IsResponse lib msg then
        (case ConsumerTable_Load consumerAddr s of
           None \<Rightarrow> Inl ErrNoTxTable
         | Some t \<Rightarrow>
             (case TxTable_Load seqNum (tables s t) of
                None \<Rightarrow> Inl (ErrNoSequence seqNum)
              | Some tx \<Rightarrow> Inr (Some tx)))
      else if IsRequest lib msg then
        (case ConsumerTable_Load consumerAddr s of
           None \<Rightarrow> Inr None
         | Some t \<Rightarrow> Inr (TxTable_Load seqNum (tables s t)))
      else Inr None)"

definition removeTransaction :: "tx_ref \<Rightarrow> Transaction \<Rightarrow> 'w tx_state_scheme \<Rightarrow> udp_error option \<times> 'w tx_state_scheme" where
  "removeTransaction x tx s =
     (if Server s = None then (Some ErrNotInitialized, s)
      else
        case ConsumerTable_Load (ConsumerAddr tx) s of
          None \<Rightarrow> (Some (ErrNotHeld (SequenceNumber tx)), s)
        | Some t \<Rightarrow>
            (let (deleted, table) = TxTable_DeleteIf (SequenceNumber tx) x
                   (case tables s t of None \<Rightarrow> Map.empty | Some m \<Rightarrow> m);
                 s = s\<lparr>tables := (tables s)(t \<mapsto> table)\<rparr> in
             if deleted then (None, s) else (Some (ErrNotHeld (SequenceNumber tx)), s)))"

section \<open>What lookups see\<close>

text \<open>
  The abstract table: the transaction a lookup for a consumer and a number finds. The tables of
  different consumers are different, every table of a consumer exists, and a reference not yet
  given out is not in use.
\<close>

definition held :: "'w tx_state_scheme \<Rightarrow> string \<times> u32 \<rightharpoonup> tx_ref" where
  "held s k = (case consumers s (fst k) of None \<Rightarrow> None | Some t \<Rightarrow> TxTable_Load (snd k) (tables s t))"

definition tx_inv :: "'w tx_state_scheme \<Rightarrow> bool" where
  "tx_inv s \<longleftrightarrow> finite (dom (consumers s)) \<and> inj_on (consumers s) (dom (consumers s))
     \<and> (\<forall>a t. consumers s a = Some t \<longrightarrow> t < next_ref s \<and> tables s t \<noteq> None)"

lemma tx_invD:
  "tx_inv s \<Longrightarrow> consumers s a = Some t \<Longrightarrow> t < next_ref s"
  "tx_inv s \<Longrightarrow> consumers s a = Some t \<Longrightarrow> \<exists>m. tables s t = Some m"
  "tx_inv s \<Longrightarrow> consumers s a = Some t \<Longrightarrow> consumers s b = Some t \<Longrightarrow> a = b"
  by (auto simp: tx_inv_def inj_on_def dom_def)

lemma held_simps:
  "consumers s a = None \<Longrightarrow> held s (a, q) = None"
  "consumers s a = Some t \<Longrightarrow> tables s t = Some m \<Longrightarrow> held s (a, q) = m q"
  by (simp_all add: held_def TxTable_Load_def)

subsection \<open>A change of one consumer's table\<close>

definition set_table :: "string \<Rightarrow> table_ref \<Rightarrow> TxTable \<Rightarrow> 'w tx_state_scheme \<Rightarrow> 'w tx_state_scheme" where
  "set_table a t m s = s\<lparr>consumers := (consumers s)(a \<mapsto> t), tables := (tables s)(t \<mapsto> m)\<rparr>"

lemma set_table_held:
  assumes "tx_inv s" "\<And>b. consumers s b = Some t \<Longrightarrow> b = a"
  shows "held (set_table a t m s) (b, q) = (if b = a then m q else held s (b, q))"
proof (cases "b = a")
  case True
  then show ?thesis by (simp add: held_def set_table_def TxTable_Load_def)
next
  case False
  then have "consumers s b \<noteq> Some t" using assms(2) by blast
  with False show ?thesis by (auto simp: held_def set_table_def TxTable_Load_def split: option.split)
qed

lemma set_table_inv:
  assumes "tx_inv s" "\<And>b. consumers s b = Some t \<Longrightarrow> b = a" "t < next_ref s"
  shows "tx_inv (set_table a t m s)"
proof -
  have "inj_on (consumers s) (dom (consumers s))" using assms(1) by (simp add: tx_inv_def)
  then have "inj_on ((consumers s)(a \<mapsto> t)) (dom ((consumers s)(a \<mapsto> t)))"
    using assms(2) by (fastforce simp: inj_on_def dom_def split: if_splits)
  with assms show ?thesis by (auto simp: tx_inv_def set_table_def)
qed

lemma putLoop_more: "tx_state.more (snd (putLoop n a q x s)) = tx_state.more s"
  by (induction n arbitrary: s)
    (simp_all add: newTxTable_def ConsumerTable_LoadOrStore_def storeTx_def split_beta Let_def split: option.split)

lemma putLoop_Server: "Server (snd (putLoop n a q x s)) = Server s"
  by (induction n arbitrary: s)
    (simp_all add: newTxTable_def ConsumerTable_LoadOrStore_def storeTx_def split_beta Let_def split: option.split)

lemma putLoop_Suc:
  assumes "tx_inv s"
  shows "putLoop (Suc n) a q x s =
    (let s' = s\<lparr>tables := (tables s)(next_ref s \<mapsto> Map.empty), next_ref := Suc (next_ref s)\<rparr> in
     case consumers s a of
       None \<Rightarrow> (None, set_table a (next_ref s) [q \<mapsto> x] s')
     | Some t \<Rightarrow>
         (case held s (a, q) of
            Some _ \<Rightarrow> (Some (ErrDuplicateSequence q), s')
          | None \<Rightarrow> (None, set_table a t ((the (tables s t))(q \<mapsto> x)) s')))"
proof (cases "consumers s a")
  case None
  then show ?thesis
    by (simp add: newTxTable_def ConsumerTable_LoadOrStore_def storeTx_def TxTable_LoadOrStore_def
        stillHolds_def set_table_def)
next
  case (Some t)
  obtain m where m: "tables s t = Some m" using tx_invD(2) [OF assms Some] by blast
  have t: "t \<noteq> next_ref s" using tx_invD(1) [OF assms Some] by simp
  show ?thesis
  proof (cases "m q")
    case None
    with Some m t show ?thesis
      by (simp add: newTxTable_def ConsumerTable_LoadOrStore_def storeTx_def TxTable_LoadOrStore_def
          stillHolds_def set_table_def held_simps(2) fun_upd_idem)
  next
    case (Some y)
    with \<open>consumers s a = Some t\<close> m t show ?thesis
      by (simp add: newTxTable_def ConsumerTable_LoadOrStore_def storeTx_def TxTable_LoadOrStore_def
          held_simps(2) fun_upd_idem)
  qed
qed

lemma fresh_table_held:
  assumes "tx_inv s"
  shows "held (s\<lparr>tables := (tables s)(next_ref s \<mapsto> Map.empty), next_ref := Suc (next_ref s)\<rparr>) = held s"
    and "tx_inv (s\<lparr>tables := (tables s)(next_ref s \<mapsto> Map.empty), next_ref := Suc (next_ref s)\<rparr>)"
  using assms tx_invD(1) [OF assms]
  by (fastforce simp: held_def TxTable_Load_def fun_eq_iff split: option.split)
    (use assms in \<open>auto simp: tx_inv_def less_Suc_eq\<close>)

section \<open>The operations on the abstract table\<close>

text \<open>
  Registration inserts if absent. It succeeds at the first attempt: the release of a peer's table
  and a registration exclude each other, so the table is never detached in between.
\<close>

lemma put_refines:
  assumes "tx_inv s"
  shows "held s (ConsumerAddr tx, SequenceNumber tx) = None \<Longrightarrow>
      fst (PutTransaction x tx s) = None
      \<and> held (snd (PutTransaction x tx s)) = (held s)((ConsumerAddr tx, SequenceNumber tx) \<mapsto> x)"
    and "held s (ConsumerAddr tx, SequenceNumber tx) = Some y \<Longrightarrow>
      fst (PutTransaction x tx s) = Some (ErrDuplicateSequence (SequenceNumber tx))
      \<and> held (snd (PutTransaction x tx s)) = held s"
    and "tx_inv (snd (PutTransaction x tx s))"
proof -
  let ?a = "ConsumerAddr tx" and ?q = "SequenceNumber tx"
  let ?s = "s\<lparr>tables := (tables s)(next_ref s \<mapsto> Map.empty), next_ref := Suc (next_ref s)\<rparr>"
  note fresh = fresh_table_held [OF assms]
  have put: "PutTransaction x tx s = putLoop (Suc 2) ?a ?q x s"
    by (simp add: PutTransaction_def putAttempts_def numeral_eq_Suc del: putLoop.simps)
  have unused: "consumers ?s b \<noteq> Some (next_ref s)" for b using tx_invD(1) [OF assms, of b] by auto
  have own: "b = ?a" if "consumers s ?a = Some t" "consumers ?s b = Some t" for b t
    using tx_invD(3) [OF assms, of b t ?a] that by simp
  have set_held: "held (set_table ?a t m ?s) = (held s)((?a, ?q) \<mapsto> x)"
    if "\<And>b. consumers ?s b = Some t \<Longrightarrow> b = ?a" "\<And>q. m q = (if q = ?q then Some x else held s (?a, q))" for t m
  proof
    fix k :: "string \<times> u32"
    show "held (set_table ?a t m ?s) k = ((held s)((?a, ?q) \<mapsto> x)) k"
      using set_table_held [where t = t and a = ?a and b = "fst k" and q = "snd k" and m = m, OF fresh(2) that(1)]
        that(2) fresh(1) by (cases k) auto
  qed
  show "held s (?a, ?q) = None \<Longrightarrow> fst (PutTransaction x tx s) = None
      \<and> held (snd (PutTransaction x tx s)) = (held s)((?a, ?q) \<mapsto> x)"
  proof (cases "consumers s ?a")
    case None
    then have "held (set_table ?a (next_ref s) [?q \<mapsto> x] ?s) = (held s)((?a, ?q) \<mapsto> x)"
      by (intro set_held) (use unused in \<open>auto simp: held_simps(1)\<close>)
    with None show ?thesis unfolding put putLoop_Suc [OF assms] by simp
  next
    case (Some t)
    assume free: "held s (?a, ?q) = None"
    obtain m where m: "tables s t = Some m" using tx_invD(2) [OF assms Some] by blast
    have "held (set_table ?a t (m(?q \<mapsto> x)) ?s) = (held s)((?a, ?q) \<mapsto> x)"
      by (rule set_held, erule own [OF Some]) (simp add: held_simps(2) [OF Some m])
    with Some free m show ?thesis unfolding put putLoop_Suc [OF assms] by simp
  qed
  show "held s (?a, ?q) = Some y \<Longrightarrow> fst (PutTransaction x tx s) = Some (ErrDuplicateSequence ?q)
      \<and> held (snd (PutTransaction x tx s)) = held s"
    unfolding put putLoop_Suc [OF assms] Let_def fresh(1) [symmetric]
    by (cases "consumers s ?a") (auto simp: held_def)
  have inv: "tx_inv (set_table ?a t m ?s)"
    if "\<And>b. consumers ?s b = Some t \<Longrightarrow> b = ?a" "t \<le> next_ref s" for t m
    by (rule set_table_inv [OF fresh(2) that(1)]) (use that(2) in simp_all)
  show "tx_inv (snd (PutTransaction x tx s))"
  proof (cases "consumers s ?a")
    case None
    have "tx_inv (set_table ?a (next_ref s) [?q \<mapsto> x] ?s)" by (rule inv) (use unused in auto)
    with None show ?thesis unfolding put putLoop_Suc [OF assms] by simp
  next
    case (Some t)
    have "tx_inv (set_table ?a t m ?s)" for m
      by (rule inv, erule own [OF Some]) (use tx_invD(1) [OF assms Some] in simp)
    with Some fresh(2) show ?thesis unfolding put putLoop_Suc [OF assms] by (simp add: Let_def split: option.split)
  qed
qed

lemma put_frame:
  assumes "tx_inv s"
  shows "Server (snd (PutTransaction x tx s)) = Server s"
    "transactions (snd (PutTransaction x tx s)) = transactions s"
    "spawned (snd (PutTransaction x tx s)) = spawned s"
    "next_ref (snd (PutTransaction x tx s)) = Suc (next_ref s)"
    "tx_state.more (snd (PutTransaction x tx s)) = tx_state.more s"
proof -
  have put: "PutTransaction x tx s = putLoop (Suc 2) (ConsumerAddr tx) (SequenceNumber tx) x s"
    by (simp add: PutTransaction_def putAttempts_def numeral_eq_Suc del: putLoop.simps)
  show "Server (snd (PutTransaction x tx s)) = Server s"
    "transactions (snd (PutTransaction x tx s)) = transactions s"
    "spawned (snd (PutTransaction x tx s)) = spawned s"
    "next_ref (snd (PutTransaction x tx s)) = Suc (next_ref s)"
    "tx_state.more (snd (PutTransaction x tx s)) = tx_state.more s"
    unfolding put putLoop_Suc [OF assms] Let_def by (auto simp: set_table_def split: option.split)
qed

lemma remove_refines:
  assumes "tx_inv s" "Server s \<noteq> None"
  shows "held (snd (removeTransaction x tx s)) =
      (if held s (ConsumerAddr tx, SequenceNumber tx) = Some x
       then (held s)((ConsumerAddr tx, SequenceNumber tx) := None) else held s)"
    and "fst (removeTransaction x tx s) = None \<longleftrightarrow> held s (ConsumerAddr tx, SequenceNumber tx) = Some x"
    and "tx_inv (snd (removeTransaction x tx s))"
proof -
  let ?a = "ConsumerAddr tx" and ?q = "SequenceNumber tx"
  have "held (snd (removeTransaction x tx s)) =
      (if held s (?a, ?q) = Some x then (held s)((?a, ?q) := None) else held s)
    \<and> (fst (removeTransaction x tx s) = None \<longleftrightarrow> held s (?a, ?q) = Some x)
    \<and> tx_inv (snd (removeTransaction x tx s))"
  proof (cases "consumers s ?a")
    case None
    with assms show ?thesis by (simp add: removeTransaction_def ConsumerTable_Load_def held_simps(1))
  next
    case (Some t)
    obtain m where m: "tables s t = Some m" using tx_invD(2) [OF assms(1) Some] by blast
    have upd: "s\<lparr>tables := (tables s)(t \<mapsto> m')\<rparr> = set_table ?a t m' s" for m'
      using Some by (simp add: set_table_def fun_upd_idem)
    have own: "b = ?a" if "consumers s b = Some t" for b using tx_invD(3) [OF assms(1) that Some] .
    have eq: "removeTransaction x tx s =
      (if m ?q = Some x then (None, set_table ?a t (m(?q := None)) s)
       else (Some (ErrNotHeld ?q), set_table ?a t m s))"
      using assms(2) Some m
      by (auto simp: removeTransaction_def ConsumerTable_Load_def TxTable_DeleteIf_def Let_def upd)
    have same: "held (set_table ?a t m s) = held s"
      using set_table_held [where t = t and a = ?a, OF assms(1) own] by (auto simp: held_simps(2) [OF Some m] fun_eq_iff)
    have del: "held (set_table ?a t (m(?q := None)) s) = (held s)((?a, ?q) := None)"
      using set_table_held [where t = t and a = ?a, OF assms(1) own] by (auto simp: held_simps(2) [OF Some m] fun_eq_iff)
    have inv: "tx_inv (set_table ?a t m' s)" for m'
      using set_table_inv [where t = t and a = ?a, OF assms(1) own] tx_invD(1) [OF assms(1) Some] by blast
    show ?thesis using Some m by (simp add: eq same del inv held_simps(2))
  qed
  then show "held (snd (removeTransaction x tx s)) =
      (if held s (?a, ?q) = Some x then (held s)((?a, ?q) := None) else held s)"
    "fst (removeTransaction x tx s) = None \<longleftrightarrow> held s (?a, ?q) = Some x"
    "tx_inv (snd (removeTransaction x tx s))" by blast+
qed

lemma delete_by_host:
  assumes "tx_inv s" "enumerates ord"
  shows "consumers (DeleteByHost ord ip s) = map_keep (\<lambda>a _. SplitHost a \<noteq> Some ip) (consumers s)"
    and "held (DeleteByHost ord ip s) = map_keep (\<lambda>k _. SplitHost (fst k) \<noteq> Some ip) (held s)"
    and "tx_inv (DeleteByHost ord ip s)"
proof -
  have fields: "tables (DeleteByHost ord ip s) = tables s" "next_ref (DeleteByHost ord ip s) = next_ref s"
    unfolding DeleteByHost_def by (rule range_map_frame, simp)+
  show cons: "consumers (DeleteByHost ord ip s) = map_keep (\<lambda>a _. SplitHost a \<noteq> Some ip) (consumers s)"
    unfolding DeleteByHost_def using assms by (intro range_map_keep) (auto simp: tx_inv_def)
  show "held (DeleteByHost ord ip s) = map_keep (\<lambda>k _. SplitHost (fst k) \<noteq> Some ip) (held s)"
    by (rule ext) (simp add: held_def cons fields map_keep_def split: option.split)
  have "inj_on (map_keep P m) (dom (map_keep P m))" if "inj_on m (dom m)" for P and m :: "string \<rightharpoonup> nat"
    using that by (fastforce simp: inj_on_def dom_def map_keep_def split: option.splits if_splits)
  with assms(1) show "tx_inv (DeleteByHost ord ip s)" by (auto simp: tx_inv_def cons fields)
qed

lemma find_refines:
  assumes "tx_inv s" "Server s \<noteq> None"
  shows "IsRequest lib msg \<Longrightarrow>
      findTransaction lib msg addr s = Inr (held s (UDPAddr_String addr, Sequence lib msg))"
    and "IsResponse lib msg \<Longrightarrow> held s (UDPAddr_String addr, Sequence lib msg) = Some x \<Longrightarrow>
      findTransaction lib msg addr s = Inr (Some x)"
    and "IsResponse lib msg \<Longrightarrow> held s (UDPAddr_String addr, Sequence lib msg) = None \<Longrightarrow>
      \<exists>err. findTransaction lib msg addr s = Inl err"
  using assms request_not_response [of lib msg]
  by (auto simp: findTransaction_def held_def ConsumerTable_Load_def Let_def split: option.splits)

lemma removeTransaction_frame:
  "Server (snd (removeTransaction x tx s)) = Server s"
  "tx_state.more (snd (removeTransaction x tx s)) = tx_state.more s"
  by (simp_all add: removeTransaction_def split_beta Let_def split: option.split)

lemma remove_keeps_inv: "tx_inv s \<Longrightarrow> tx_inv (snd (removeTransaction x tx s))"
  using remove_refines(3) [of s x tx] by (cases "Server s") (simp_all add: removeTransaction_def)

text \<open>The release of a peer.\<close>

lemma ForgetConsumer_more: "tx_state.more (ForgetConsumer ord ip w) = tx_state.more w"
  unfolding ForgetConsumer_def DeleteByHost_def by (auto intro!: range_map_frame)

lemma ForgetConsumer_Server: "Server (ForgetConsumer ord ip w) = Server w"
  unfolding ForgetConsumer_def DeleteByHost_def by (auto intro!: range_map_frame)

lemma ForgetConsumer_held:
  assumes "tx_inv w" "enumerates ord" "Server w \<noteq> None"
  shows "held (ForgetConsumer ord ip w) = map_keep (\<lambda>k _. SplitHost (fst k) \<noteq> Some ip) (held w)"
    "tx_inv (ForgetConsumer ord ip w)"
  using assms delete_by_host [OF assms(1,2)] by (auto simp: ForgetConsumer_def)

section \<open>The tables refine one map\<close>

text \<open>
  The specification of the tables is one map from consumer and number to transaction: registering
  inserts if absent, a transaction removes its own entry, a release drops the entries of a host.
\<close>

datatype tx_op =
    TxPut tx_ref Transaction
  | TxRemove tx_ref Transaction
  | TxRelease "string order" string

fun tx_exec :: "tx_op \<Rightarrow> 'w tx_state_scheme \<Rightarrow> 'w tx_state_scheme" where
  "tx_exec (TxPut x tx) s = snd (PutTransaction x tx s)"
| "tx_exec (TxRemove x tx) s = snd (removeTransaction x tx s)"
| "tx_exec (TxRelease ord ip) s = ForgetConsumer ord ip s"

fun tx_legal :: "tx_op \<Rightarrow> 'w tx_state_scheme \<Rightarrow> bool" where
  "tx_legal (TxRelease ord ip) s = enumerates ord"
| "tx_legal _ s = True"

fun tx_spec :: "tx_op \<Rightarrow> (string \<times> u32 \<rightharpoonup> tx_ref) \<Rightarrow> (string \<times> u32 \<rightharpoonup> tx_ref)" where
  "tx_spec (TxPut x tx) m =
     (let k = (ConsumerAddr tx, SequenceNumber tx) in if m k = None then m(k \<mapsto> x) else m)"
| "tx_spec (TxRemove x tx) m =
     (let k = (ConsumerAddr tx, SequenceNumber tx) in if m k = Some x then m(k := None) else m)"
| "tx_spec (TxRelease _ ip) m = map_keep (\<lambda>k _. SplitHost (fst k) \<noteq> Some ip) m"

interpretation tx_run: refined_machine tx_exec "\<lambda>s. tx_inv s \<and> Server s \<noteq> None" tx_legal tx_spec held
proof
  fix s :: "'a tx_state_scheme" and op
  assume inv: "tx_inv s \<and> Server s \<noteq> None" and legal: "tx_legal op s"
  show "tx_inv (tx_exec op s) \<and> Server (tx_exec op s) \<noteq> None"
    using inv legal
    by (cases op) (simp_all add: put_refines(3) put_frame(1) remove_keeps_inv removeTransaction_frame(1)
        ForgetConsumer_held(2) ForgetConsumer_Server)
  show "held (tx_exec op s) = tx_spec op (held s)"
  proof (cases op)
    case (TxPut x tx)
    then show ?thesis using put_refines(1,2) [of s tx] inv
      by (cases "held s (ConsumerAddr tx, SequenceNumber tx)") simp_all
  qed (use inv legal in \<open>simp_all add: remove_refines(1) ForgetConsumer_held(1)\<close>)
qed

end
