(* ===== verification/Tx_Lifecycle.thy ===== *)
theory Tx_Lifecycle
  imports Tx_Table
begin

text \<open>
  The life of one transaction (\<^verbatim>\<open>pfcp/udp/transaction.go\<close>): it writes its message, waits
  for an event or for its timer, and writes again, a bounded number of times. The loop is a
  machine whose inputs are what the goroutine meets: the outcome of a write, an event read from
  its channel, its timer. The reader of the socket posts events from outside.
\<close>

section \<open>Making a transaction\<close>

definition NewTransaction ::
  "'m pfcp_lib \<Rightarrow> 'm \<Rightarrow> u8 list \<Rightarrow> UDPConn \<Rightarrow> UDPAddr \<Rightarrow> PfcpEventData option \<Rightarrow> Transaction" where
  "NewTransaction lib msg binaryMSG conn destAddr eventData =
     (let tx = \<lparr>EventChannel = None, DestAddr = destAddr, ConsumerAddr = [], EventData = eventData,
            SendMsg = binaryMSG, SequenceNumber = Sequence lib msg, TxMessageType = MessageType lib msg,
            TxType = SendingRequest\<rparr> in
      if IsRequest lib msg then tx\<lparr>TxType := SendingRequest, ConsumerAddr := LocalAddr conn\<rparr>
      else if IsResponse lib msg then tx\<lparr>TxType := SendingResponse, ConsumerAddr := UDPAddr_String destAddr\<rparr>
      else tx)"

section \<open>The loop\<close>

definition NumOfResend :: nat where "NumOfResend = 3"

definition ResendRequestTimeOutPeriod :: int where "ResendRequestTimeOutPeriod = 3"

definition ResendResponseTimeOutPeriod :: int where "ResendResponseTimeOutPeriod = 15"

text \<open>
  \<open>Sending i d\<close> is the head of the loop in iteration \<open>i\<close>, \<open>Waiting i d\<close> its
  select; \<open>d\<close> is when the timer fires. A request makes its timer in every iteration, just
  before it writes, and the reading of a \<open>Write\<close> is the one its timer is made at; a response
  makes one timer before the loop.
\<close>

datatype tx_phase = Sending nat time | Waiting nat time | Returned "udp_error option"

record tx_life =
  phase :: tx_phase
  channel :: "EventType option"
  writes :: nat

datatype tx_input =
    Write time
  | WriteError
  | LoopEnd
  | ReadEvent time
  | Timer time
  | Post EventType

definition begins :: "TransactionType \<Rightarrow> time \<Rightarrow> EventType option \<Rightarrow> tx_life" where
  "begins ty now ch =
     \<lparr>phase = Sending 0 (now + ResendResponseTimeOutPeriod * Second), channel = ch, writes = 0\<rparr>"

definition postEvent :: "EventType \<Rightarrow> EventType option \<Rightarrow> EventType option" where
  "postEvent ev ch = (case ch of None \<Rightarrow> Some ev | Some e \<Rightarrow> Some e)"

fun Start :: "TransactionType \<Rightarrow> u32 \<Rightarrow> tx_input \<Rightarrow> tx_life \<Rightarrow> tx_life option" where
  "Start ty seq (Post ev) l = Some (l\<lparr>channel := postEvent ev (channel l)\<rparr>)"
| "Start ty seq (Write now) l =
     (case phase l of
        Sending i d \<Rightarrow>
          if i < NumOfResend then
            Some (l\<lparr>phase := Waiting i (case ty of SendingRequest \<Rightarrow> now + ResendRequestTimeOutPeriod * Second
                                                  | SendingResponse \<Rightarrow> d),
                    writes := Suc (writes l)\<rparr>)
          else None
      | _ \<Rightarrow> None)"
| "Start ty seq WriteError l =
     (case phase l of
        Sending i d \<Rightarrow> if i < NumOfResend then Some (l\<lparr>phase := Returned (Some ErrWrite)\<rparr>) else None
      | _ \<Rightarrow> None)"
| "Start ty seq LoopEnd l =
     (case phase l of
        Sending i d \<Rightarrow>
          if i < NumOfResend then None
          else Some (l\<lparr>phase := Returned (case ty of SendingRequest \<Rightarrow> Some (ErrRequestTimeout seq)
                                                  | SendingResponse \<Rightarrow> None)\<rparr>)
      | _ \<Rightarrow> None)"
| "Start ty seq (ReadEvent now) l =
     (case (phase l, channel l) of
        (Waiting i d, Some ev) \<Rightarrow>
          Some (l\<lparr>channel := None, phase :=
            (case (ty, ev) of
               (SendingRequest, ReceiveValidResponse) \<Rightarrow> Returned None
             | (SendingRequest, ReceiveResendRequest) \<Rightarrow> Sending (Suc i) d
             | (SendingResponse, ReceiveResendRequest) \<Rightarrow> Sending (Suc i) (now + ResendResponseTimeOutPeriod * Second)
             | (SendingResponse, ReceiveValidResponse) \<Rightarrow> Sending (Suc i) d)\<rparr>)
      | _ \<Rightarrow> None)"
| "Start ty seq (Timer now) l =
     (case phase l of
        Waiting i d \<Rightarrow>
          if now < d then None
          else Some (l\<lparr>phase := (case ty of
               SendingRequest \<Rightarrow> Sending (Suc i) d
             | SendingResponse \<Rightarrow> Returned (Some (ErrResponseTimeout seq)))\<rparr>)
      | _ \<Rightarrow> None)"

text \<open>A run of the loop: the inputs it met, in order.\<close>

inductive runs :: "TransactionType \<Rightarrow> u32 \<Rightarrow> tx_life \<Rightarrow> tx_input list \<Rightarrow> tx_life \<Rightarrow> bool"
  for ty seq l where
  runs_Nil: "runs ty seq l [] l"
| runs_step: "runs ty seq l ins l' \<Longrightarrow> Start ty seq i l' = Some l'' \<Longrightarrow> runs ty seq l (ins @ [i]) l''"

inductive_cases runs_snocE: "runs ty seq l (ins @ [i]) l''"

text \<open>How much of the loop is left: every input but a post uses some of it up.\<close>

fun fuel :: "tx_phase \<Rightarrow> nat" where
  "fuel (Sending i d) = 2 * (NumOfResend - i) + 1"
| "fuel (Waiting i d) = 2 * (NumOfResend - i)"
| "fuel (Returned e) = 0"

fun is_post :: "tx_input \<Rightarrow> bool" where
  "is_post (Post ev) = True"
| "is_post _ = False"

text \<open>The shape every reachable state has.\<close>

definition life_inv :: "tx_life \<Rightarrow> bool" where
  "life_inv l \<longleftrightarrow>
     (case phase l of
        Sending i d \<Rightarrow> i \<le> NumOfResend \<and> writes l = i
      | Waiting i d \<Rightarrow> i < NumOfResend \<and> writes l = Suc i
      | Returned e \<Rightarrow> writes l \<le> NumOfResend)"

lemma Start_inv: "Start ty seq i l = Some l' \<Longrightarrow> life_inv l \<Longrightarrow> life_inv l'"
  by (cases i; cases "phase l"; cases ty; cases "channel l")
    (auto simp: life_inv_def split: if_splits EventType.splits)

lemma Start_fuel:
  "Start ty seq i l = Some l' \<Longrightarrow> life_inv l \<Longrightarrow>
   fuel (phase l') + (if is_post i then 0 else 1) \<le> fuel (phase l)"
  by (cases i; cases "phase l"; cases ty; cases "channel l")
    (auto simp: life_inv_def split: if_splits EventType.splits)

lemma runs_inv: "runs ty seq l ins l' \<Longrightarrow> life_inv l \<Longrightarrow> life_inv l'"
  by (induction rule: runs.induct) (auto intro: Start_inv)

lemma runs_fuel:
  "runs ty seq l ins l' \<Longrightarrow> life_inv l \<Longrightarrow>
   fuel (phase l') + length (filter (\<lambda>i. \<not> is_post i) ins) \<le> fuel (phase l)"
proof (induction rule: runs.induct)
  case (runs_step ins l' i l'')
  then have "life_inv l'" using runs_inv by blast
  from Start_fuel [OF runs_step.hyps(2) this] runs_step show ?case by (auto split: if_splits)
qed simp

lemma begins_inv: "life_inv (begins ty now ch)"
  by (simp add: life_inv_def begins_def)

lemma Start_progress:
  assumes "life_inv l" "\<forall>e. phase l \<noteq> Returned e"
  shows "\<exists>i l'. \<not> is_post i \<and> Start ty seq i l = Some l'"
proof (cases "phase l")
  case (Sending i d)
  then have "Start ty seq (if i < NumOfResend then Write 0 else LoopEnd) l \<noteq> None" by simp
  then show ?thesis
    by (intro exI [of _ "if i < NumOfResend then Write 0 else LoopEnd"]) auto
next
  case (Waiting i d)
  then show ?thesis by (auto intro!: exI [of _ "Timer d"])
qed (use assms in simp)

section \<open>The end of a transaction\<close>

text \<open>
  The goroutine of a transaction, once its loop has returned: the transaction is taken out of its
  table, and on a failure the error handler that came with the message is called with the message
  as it was sent. The call is the result; the handlers belong to another package.
\<close>

definition startTxLifeCycle ::
  "'m pfcp_lib \<Rightarrow> tx_ref \<Rightarrow> Transaction \<Rightarrow> udp_error option \<Rightarrow> 'w tx_state_scheme
   \<Rightarrow> (err_handler \<times> 'm \<times> udp_error) option \<times> 'w tx_state_scheme" where
  "startTxLifeCycle lib x tx sendErr s =
     (let (_, s) = removeTransaction x tx s in
      case (sendErr, EventData tx) of
        (Some e, Some eventData) \<Rightarrow>
          (case Parse lib (SendMsg tx) of
             Some msg \<Rightarrow> (Some (ErrHandler eventData, msg, e), s)
           | None \<Rightarrow> (None, s))
      | _ \<Rightarrow> (None, s))"

text \<open>A request is reported as timed out only after its last write.\<close>

definition timeout_inv :: "u32 \<Rightarrow> tx_life \<Rightarrow> bool" where
  "timeout_inv seq l \<longleftrightarrow> (phase l = Returned (Some (ErrRequestTimeout seq)) \<longrightarrow> writes l = NumOfResend)"

lemma Start_timeout:
  "Start ty seq i l = Some l' \<Longrightarrow> life_inv l \<Longrightarrow> timeout_inv seq l \<Longrightarrow> timeout_inv seq l'"
  by (cases i; cases "phase l"; cases ty; cases "channel l")
    (auto simp: life_inv_def timeout_inv_def split: if_splits EventType.splits)

lemma runs_timeout:
  "runs ty seq l ins l' \<Longrightarrow> life_inv l \<Longrightarrow> timeout_inv seq l \<Longrightarrow> timeout_inv seq l'"
  by (induction rule: runs.induct) (auto intro: Start_timeout dest: runs_inv)

text \<open>Evaluation of a run from its front.\<close>

fun run_inputs :: "TransactionType \<Rightarrow> u32 \<Rightarrow> tx_input list \<Rightarrow> tx_life \<Rightarrow> tx_life option" where
  "run_inputs ty seq [] l = Some l"
| "run_inputs ty seq (i # ins) l = Option.bind (Start ty seq i l) (run_inputs ty seq ins)"

lemma run_inputs_append:
  "run_inputs ty seq (xs @ ys) l = Option.bind (run_inputs ty seq xs l) (run_inputs ty seq ys)"
proof (induction xs arbitrary: l)
  case (Cons i xs)
  then show ?case by (cases "Start ty seq i l") simp_all
qed simp

lemma runs_run_inputs: "runs ty seq l ins l' \<longleftrightarrow> run_inputs ty seq ins l = Some l'"
proof
  show "runs ty seq l ins l' \<Longrightarrow> run_inputs ty seq ins l = Some l'"
    by (induction rule: runs.induct) (simp_all add: run_inputs_append)
  show "run_inputs ty seq ins l = Some l' \<Longrightarrow> runs ty seq l ins l'"
  proof (induction ins arbitrary: l' rule: rev_induct)
    case Nil
    then show ?case by (simp add: runs_Nil)
  next
    case (snoc i ins)
    then obtain m where "run_inputs ty seq ins l = Some m" "Start ty seq i m = Some l'"
      by (cases "run_inputs ty seq ins l"; cases "Start ty seq i (the (run_inputs ty seq ins l))")
        (auto simp: run_inputs_append)
    with snoc.IH show ?case by (blast intro: runs_step)
  qed
qed

end
