(* ===== verification/Udp_Server.thy ===== *)
theory Udp_Server
  imports Tx_Lifecycle Node_Id
begin

text \<open>
  The PFCP socket (\<^verbatim>\<open>pfcp/udp/udp.go\<close>): sending a message registers a transaction and
  starts it; reading one matches it against the transactions in flight. What the socket delivers
  is an input: an error of the read, or a datagram with the address it came from.
\<close>

section \<open>Starting the server\<close>

definition PFCP_PORT :: nat where "PFCP_PORT = 8805"

definition PFCP_MAX_UDP_LEN :: nat where "PFCP_MAX_UDP_LEN = 2048"

text \<open>The address of the pod, and the adapter's own node id made from it.\<close>

definition UpfAdapterIp :: "string \<Rightarrow> IP" where
  "UpfAdapterIp podIpStr = To4 (ParseIP podIpStr)"

definition CPNodeID :: "string \<Rightarrow> NodeID" where
  "CPNodeID podIpStr = \<lparr>NodeIdValue = UpfAdapterIp podIpStr, NodeIdType = 0\<rparr>"

definition listenAddr :: "(string \<Rightarrow> dns_answer) \<Rightarrow> string \<Rightarrow> dns_cache \<Rightarrow> UDPAddr" where
  "listenAddr LookupHost podIpStr cache =
     \<lparr>addr_IP = ParseIP (IP_String (fst (ResolveNodeIdToIp LookupHost (CPNodeID podIpStr) cache))),
      addr_Port = PFCP_PORT, addr_Zone = []\<rparr>"

definition Run_listen :: "UDPAddr \<Rightarrow> UDPConn option \<Rightarrow> 'w tx_state_scheme \<Rightarrow> 'w tx_state_scheme" where
  "Run_listen addr conn s =
     (case conn of
        None \<Rightarrow> s
      | Some c \<Rightarrow> s\<lparr>Server := Some \<lparr>Addr = addr, Conn = Some c\<rparr>, consumers := Map.empty\<rparr>)"

section \<open>Sending\<close>

definition SendPfcp ::
  "'m pfcp_lib \<Rightarrow> 'm \<Rightarrow> UDPAddr \<Rightarrow> PfcpEventData option \<Rightarrow> 'w tx_state_scheme
   \<Rightarrow> udp_error option \<times> 'w tx_state_scheme" where
  "SendPfcp lib msg addr eventData s =
     (case Server s of
        None \<Rightarrow> (Some ErrNotInitialized, s)
      | Some srv \<Rightarrow>
          (case Conn srv of
             None \<Rightarrow> (Some ErrNotListening, s)
           | Some conn \<Rightarrow>
               (case Marshal lib msg of
                  None \<Rightarrow> (Some ErrMarshal, s)
                | Some buf \<Rightarrow>
                    (let tx = NewTransaction lib msg buf conn addr eventData;
                         x = next_ref s;
                         s = s\<lparr>transactions := (transactions s)(x \<mapsto> tx), next_ref := Suc x\<rparr>;
                         (err, s) = PutTransaction x tx s in
                     if err \<noteq> None then (err, s)
                     else (None, s\<lparr>spawned := x # spawned s\<rparr>)))))"

section \<open>Reading\<close>

datatype read_input = ReadError udp_error | Datagram "u8 list" UDPAddr

definition notify :: "tx_ref \<Rightarrow> EventType \<Rightarrow> 'w tx_state_scheme \<Rightarrow> 'w tx_state_scheme" where
  "notify x ev s =
     s\<lparr>transactions := (transactions s)(x :=
        map_option (\<lambda>tx. tx\<lparr>EventChannel := postEvent ev (EventChannel tx)\<rparr>) (transactions s x))\<rparr>"

text \<open>
  In one piece a lookup never comes back for a response without a transaction and without an error;
  what happens when it is overtaken and does is in \<open>Tx_Threads\<close>.
\<close>

definition readPfcpMessage ::
  "'m pfcp_lib \<Rightarrow> read_input \<Rightarrow> 'w tx_state_scheme
   \<Rightarrow> (('m \<times> UDPAddr) option \<times> udp_error option) \<times> 'w tx_state_scheme" where
  "readPfcpMessage lib input s =
     (case Server s of
        None \<Rightarrow> ((None, Some ErrNotInitialized), s)
      | Some srv \<Rightarrow>
          if Conn srv = None then ((None, Some ErrNotListening), s)
          else
            case input of
              ReadError e \<Rightarrow> ((None, Some e), s)
            | Datagram bytes addr \<Rightarrow>
                (case Parse lib (take PFCP_MAX_UDP_LEN bytes) of
                   None \<Rightarrow> ((None, Some ErrParse), s)
                 | Some msg \<Rightarrow>
                     if IsRequest lib msg then
                       (case findTransaction lib msg addr s of
                          Inl err \<Rightarrow> ((Some (msg, addr), Some err), s)
                        | Inr (Some tx) \<Rightarrow> ((Some (msg, addr), Some ErrResendRequest), notify tx ReceiveResendRequest s)
                        | Inr None \<Rightarrow> ((Some (msg, addr), None), s))
                     else if IsResponse lib msg then
                       (case findTransaction lib msg (Addr srv) s of
                          Inl err \<Rightarrow> ((Some (msg, addr), Some err), s)
                        | Inr None \<Rightarrow> ((Some (msg, addr), None), s)
                        | Inr (Some tx) \<Rightarrow> ((Some (msg, addr), None), notify tx ReceiveValidResponse s))
                     else ((Some (msg, addr), None), s)))"

text \<open>
  The loop, over what the socket delivers. It gives the messages handed to the dispatcher and
  whether it stopped because the socket was closed; the dispatcher runs on goroutines of its own.
\<close>

fun readLoop :: "'m pfcp_lib \<Rightarrow> read_input list \<Rightarrow> 'w tx_state_scheme \<Rightarrow> (('m \<times> UDPAddr) list \<times> bool) \<times> 'w tx_state_scheme" where
  "readLoop lib [] s = (([], False), s)"
| "readLoop lib (input # inputs) s =
     (let ((msg, err), s) = readPfcpMessage lib input s in
      case err of
        Some e \<Rightarrow> if e = ErrClosed then (([], True), s) else readLoop lib inputs s
      | None \<Rightarrow>
          (let ((ms, stopped), s) = readLoop lib inputs s
           in ((case msg of Some ma \<Rightarrow> ma # ms | None \<Rightarrow> ms, stopped), s)))"

text \<open>
  Serving until cancelled: the socket is closed on cancellation, and from then on every read fails
  with \<^verbatim>\<open>net.ErrClosed\<close>.
\<close>

definition serve_pfcp :: "'m pfcp_lib \<Rightarrow> read_input list \<Rightarrow> 'w tx_state_scheme \<Rightarrow> (('m \<times> UDPAddr) list \<times> bool) \<times> 'w tx_state_scheme" where
  "serve_pfcp lib before s = readLoop lib (before @ [ReadError ErrClosed]) s"

section \<open>What sending does\<close>

definition tx_key :: "'m pfcp_lib \<Rightarrow> UDPConn \<Rightarrow> UDPAddr \<Rightarrow> 'm \<Rightarrow> string \<times> u32" where
  "tx_key lib conn addr msg =
     (if IsRequest lib msg then LocalAddr conn else if IsResponse lib msg then UDPAddr_String addr else [],
      Sequence lib msg)"

lemma NewTransaction_fields [simp]:
  "ConsumerAddr (NewTransaction lib msg buf conn addr ev) = fst (tx_key lib conn addr msg)"
  "SequenceNumber (NewTransaction lib msg buf conn addr ev) = Sequence lib msg"
  "EventData (NewTransaction lib msg buf conn addr ev) = ev"
  "EventChannel (NewTransaction lib msg buf conn addr ev) = None"
  "SendMsg (NewTransaction lib msg buf conn addr ev) = buf"
  "DestAddr (NewTransaction lib msg buf conn addr ev) = addr"
  by (simp_all add: NewTransaction_def tx_key_def Let_def)

lemma held_alloc [simp]:
  "held (s\<lparr>transactions := t, next_ref := n\<rparr>) = held s"
  "held (s\<lparr>transactions := t\<rparr>) = held s"
  "held (s\<lparr>spawned := l\<rparr>) = held s"
  by (simp_all add: held_def fun_eq_iff split: option.split)

lemma tx_inv_alloc:
  "tx_inv s \<Longrightarrow> tx_inv (s\<lparr>transactions := t, next_ref := Suc (next_ref s)\<rparr>)"
  by (auto simp: tx_inv_def intro: less_SucI)

lemma tx_inv_spawn [simp]:
  "tx_inv (s\<lparr>spawned := l\<rparr>) = tx_inv s" "tx_inv (s\<lparr>transactions := t\<rparr>) = tx_inv s"
  by (simp_all add: tx_inv_def)

lemma SendPfcp_cases:
  assumes "tx_inv s"
  obtains (NotReady) err where "SendPfcp lib msg addr ev s = (Some err, s)"
      "err \<in> {ErrNotInitialized, ErrNotListening, ErrMarshal}"
      "Server s = None \<or> Conn (the (Server s)) = None \<or> Marshal lib msg = None"
  | (Duplicate) srv conn x s' where "Server s = Some srv" "Conn srv = Some conn"
      "held s (tx_key lib conn addr msg) = Some x"
      "SendPfcp lib msg addr ev s = (Some (ErrDuplicateSequence (Sequence lib msg)), s')"
      "held s' = held s" "tx_inv s'" "Server s' = Server s" "spawned s' = spawned s"
      "tx_state.more s' = tx_state.more s"
      "\<And>y. y \<noteq> next_ref s \<Longrightarrow> transactions s' y = transactions s y"
  | (Sent) srv conn buf s' where "Server s = Some srv" "Conn srv = Some conn" "Marshal lib msg = Some buf"
      "held s (tx_key lib conn addr msg) = None" "SendPfcp lib msg addr ev s = (None, s')"
      "held s' = (held s)(tx_key lib conn addr msg \<mapsto> next_ref s)" "tx_inv s'" "Server s' = Server s"
      "spawned s' = next_ref s # spawned s" "tx_state.more s' = tx_state.more s"
      "transactions s' = (transactions s)(next_ref s \<mapsto> NewTransaction lib msg buf conn addr ev)"
proof (cases "Server s")
  case None
  then show thesis by (intro NotReady [of ErrNotInitialized]) (simp_all add: SendPfcp_def)
next
  case srv: (Some srv)
  show thesis
  proof (cases "Conn srv")
    case None
    with srv show thesis by (intro NotReady [of ErrNotListening]) (simp_all add: SendPfcp_def)
  next
    case conn: (Some conn)
    show thesis
    proof (cases "Marshal lib msg")
      case None
      with srv conn show thesis by (intro NotReady [of ErrMarshal]) (simp_all add: SendPfcp_def)
    next
      case buf: (Some buf)
      let ?tx = "NewTransaction lib msg buf conn addr ev"
      let ?t = "s\<lparr>transactions := (transactions s)(next_ref s \<mapsto> ?tx), next_ref := Suc (next_ref s)\<rparr>"
      let ?p = "PutTransaction (next_ref s) ?tx ?t"
      have key: "tx_key lib conn addr msg = (ConsumerAddr ?tx, SequenceNumber ?tx)"
        by (simp add: tx_key_def)
      have inv: "tx_inv ?t" using tx_inv_alloc [OF assms] .
      have send: "SendPfcp lib msg addr ev s =
        (if fst ?p \<noteq> None then ?p else (None, (snd ?p)\<lparr>spawned := next_ref s # spawned (snd ?p)\<rparr>))"
        using srv conn buf by (auto simp: SendPfcp_def Let_def split: prod.split)
      show thesis
      proof (cases "held s (tx_key lib conn addr msg)")
        case None
        then have "fst ?p = None \<and> held (snd ?p) = (held s)(tx_key lib conn addr msg \<mapsto> next_ref s)"
          using put_refines(1) [OF inv, of ?tx "next_ref s"] by (simp only: key held_alloc)
        then show thesis
          using None srv conn buf put_refines(3) [OF inv] put_frame [OF inv]
          by (intro Sent [OF srv conn buf None, of "(snd ?p)\<lparr>spawned := next_ref s # spawned (snd ?p)\<rparr>"])
            (simp_all add: send)
      next
        case (Some x)
        then have p: "fst ?p = Some (ErrDuplicateSequence (SequenceNumber ?tx)) \<and> held (snd ?p) = held s"
          using put_refines(2) [OF inv, of ?tx x "next_ref s"] by (simp only: key held_alloc)
        then have "?p = (Some (ErrDuplicateSequence (Sequence lib msg)), snd ?p)" by (simp add: prod_eq_iff)
        then show thesis
          using p put_refines(3) [OF inv] put_frame [OF inv]
          by (intro Duplicate [OF srv conn Some, of "snd ?p"]) (simp_all add: send)
      qed
    qed
  qed
qed

lemma SendPfcp_more: "tx_state.more (snd (SendPfcp lib msg addr ev s)) = tx_state.more s"
  by (simp add: SendPfcp_def PutTransaction_def putLoop_more split_beta Let_def split: option.split)

lemma SendPfcp_Server: "Server (snd (SendPfcp lib msg addr ev s)) = Server s"
  by (simp add: SendPfcp_def PutTransaction_def putLoop_Server split_beta Let_def split: option.split)

lemma SendPfcp_ready:
  assumes "tx_inv s" "Server s = Some srv" "Conn srv = Some conn" "Marshal lib msg = Some buf"
    "held s (tx_key lib conn addr msg) = None"
  shows "fst (SendPfcp lib msg addr ev s) = None"
  using assms(1)
  by (cases rule: SendPfcp_cases [where lib = lib and msg = msg and addr = addr and ev = ev])
    (use assms in auto)

end
