(* ===== verification/Tx_Properties.thy ===== *)
theory Tx_Properties
  imports Udp_Server
begin

text \<open>
  The properties of the transaction machinery: registration, removal and release on the table
  that lookups see, the life of a transaction, and how what is read meets what was sent.
\<close>

section \<open>The life of a transaction\<close>

text \<open>
  Property C25. The loop of a transaction always ends: it never gets stuck before it returns, and
  it takes at most seven steps of its own however many events are posted to it.
\<close>

theorem transaction_ends:
  assumes "runs ty seq (begins ty now ch) ins l"
  shows "length (filter (\<lambda>i. \<not> is_post i) ins) \<le> 7
    \<and> ((\<exists>e. phase l = Returned e) \<or> (\<exists>i l'. \<not> is_post i \<and> Start ty seq i l = Some l'))"
proof -
  have "fuel (phase (begins ty now ch)) = 7" by (simp add: begins_def NumOfResend_def)
  then have "length (filter (\<lambda>i. \<not> is_post i) ins) \<le> 7"
    using runs_fuel [OF assms begins_inv] by simp
  moreover have "life_inv l" by (rule runs_inv [OF assms begins_inv])
  ultimately show ?thesis using Start_progress by blast
qed

lemmas life_defs = begins_def NumOfResend_def ResendRequestTimeOutPeriod_def
  ResendResponseTimeOutPeriod_def postEvent_def

definition silent_inputs :: "tx_input list" where
  "silent_inputs = [Write 0, Timer (3 * Second), Write (3 * Second), Timer (6 * Second),
     Write (6 * Second), Timer (9 * Second), LoopEnd]"

lemma silent_run:
  "runs SendingRequest 5 (begins SendingRequest 0 None) silent_inputs
     \<lparr>phase = Returned (Some (ErrRequestTimeout 5)), channel = None, writes = 3\<rparr>"
  by (simp add: runs_run_inputs silent_inputs_def life_defs)

theorem transaction_ends_witness:
  "length (filter (\<lambda>i. \<not> is_post i) silent_inputs) \<le> 7"
  using transaction_ends [OF silent_run] by blast

text \<open>
  The clock readings a run has taken, and when a transaction was last asked for its message: when
  it was made, or when it last read an event.
\<close>

fun reading :: "tx_input \<Rightarrow> time list" where
  "reading (Write t) = [t]"
| "reading (ReadEvent t) = [t]"
| "reading (Timer t) = [t]"
| "reading _ = []"

fun asking :: "tx_input \<Rightarrow> time list" where
  "asking (ReadEvent t) = [t]"
| "asking _ = []"

definition readings :: "tx_input list \<Rightarrow> time list" where "readings ins = concat (map reading ins)"

definition times_asked :: "tx_input list \<Rightarrow> nat" where "times_asked ins = length (concat (map asking ins))"

definition last_asked :: "time \<Rightarrow> tx_input list \<Rightarrow> time" where
  "last_asked start ins = last (start # concat (map asking ins))"

lemma readings_snoc [simp]: "readings [] = []" "readings (ins @ [i]) = readings ins @ reading i"
  by (simp_all add: readings_def)

lemma last_asked_snoc [simp]:
  "last_asked start [] = start"
  "last_asked start (ins @ [ReadEvent t]) = t"
  "asking i = [] \<Longrightarrow> last_asked start (ins @ [i]) = last_asked start ins"
  by (simp_all add: last_asked_def)

lemma times_asked_snoc [simp]: "times_asked [] = 0" "times_asked (ins @ [i]) = times_asked ins + length (asking i)"
  by (simp_all add: times_asked_def)

text \<open>
  The deadline of a response is fifteen seconds after its transaction was last asked for it, and
  its transaction ends in one of three ways: no sooner than that, at an error of a write, or when it
  has been asked three times.
\<close>

definition kept :: "u32 \<Rightarrow> time \<Rightarrow> tx_input list \<Rightarrow> tx_life \<Rightarrow> bool" where
  "kept seq start ins l \<longleftrightarrow> channel l \<noteq> Some ReceiveValidResponse \<and>
     (case phase l of
        Sending i d \<Rightarrow> d = last_asked start ins + 15 * Second \<and> times_asked ins = i \<and> i \<le> 3
      | Waiting i d \<Rightarrow> d = last_asked start ins + 15 * Second \<and> times_asked ins = i \<and> i < 3
      | Returned e \<Rightarrow>
          e = Some (ErrResponseTimeout seq) \<and> readings ins \<noteq> [] \<and> last_asked start ins + 15 * Second \<le> last (readings ins)
          \<or> e = Some ErrWrite \<and> WriteError \<in> set ins
          \<or> e = None \<and> times_asked ins = 3)"

lemma kept_step:
  assumes "kept seq start ins l" "Start SendingResponse seq i l = Some l'" "i \<noteq> Post ReceiveValidResponse"
  shows "kept seq start (ins @ [i]) l'"
  using assms
  by (cases i; cases "phase l"; cases "channel l")
    (auto simp: kept_def life_defs split: if_splits EventType.splits)

lemma kept_runs:
  assumes "runs SendingResponse seq (begins SendingResponse start None) ins l" "Post ReceiveValidResponse \<notin> set ins"
  shows "kept seq start ins l"
  using assms
proof (induction rule: runs.induct)
  case (runs_step ins l' i l'')
  then show ?case by (auto intro: kept_step)
qed (simp add: kept_def life_defs)

text \<open>The head of round \<open>i\<close> of a request is at least \<open>i\<close> periods after its first write.\<close>

definition paced :: "u32 \<Rightarrow> tx_input list \<Rightarrow> tx_life \<Rightarrow> bool" where
  "paced seq ins l \<longleftrightarrow>
     (let ts = readings ins in
      case phase l of
        Sending i d \<Rightarrow> if i = 0 then ts = [] else ts \<noteq> [] \<and> hd ts + int i * (3 * Second) \<le> last ts
      | Waiting i d \<Rightarrow> ts \<noteq> [] \<and> hd ts + int (Suc i) * (3 * Second) \<le> d
      | Returned e \<Rightarrow> e = Some (ErrRequestTimeout seq) \<and> ts \<noteq> [] \<and> hd ts + 9 * Second \<le> last ts
          \<or> e = Some ErrWrite \<and> WriteError \<in> set ins)"

lemma paced_step:
  assumes "paced seq ins l" "life_inv l" "Start SendingRequest seq i l = Some l'" "asking i = []"
    and "sorted (readings (ins @ [i]))"
  shows "paced seq (ins @ [i]) l'"
proof (cases i)
  case (Write t)
  then obtain k d where "phase l = Sending k d" using assms(3) by (auto split: tx_phase.splits)
  moreover have "readings ins \<noteq> [] \<Longrightarrow> y \<le> last (readings ins) \<Longrightarrow> y \<le> t" for y
    using assms(5) Write by (force simp: sorted_append dest: last_in_set)
  ultimately show ?thesis using assms Write
    by (cases "readings ins = []"; cases "k = 0") (auto simp: Let_def paced_def life_defs sorted_append algebra_simps split: if_splits)
next
  case (Timer t)
  with assms show ?thesis
    by (cases "phase l") (auto simp: Let_def paced_def life_defs algebra_simps split: if_splits)
qed (use assms in \<open>auto simp: Let_def paced_def life_defs life_inv_def split: tx_phase.splits if_splits\<close>)

lemma paced_runs:
  assumes "runs SendingRequest seq (begins SendingRequest start ch) ins l"
    and "times_asked ins = 0" "sorted (readings ins)"
  shows "paced seq ins l"
  using assms
proof (induction rule: runs.induct)
  case (runs_step ins l' i l'')
  then show ?case
    using paced_step [of seq ins l' i l''] runs_inv [OF runs_step.hyps(1) begins_inv]
    by (auto simp: sorted_append)
qed (simp add: paced_def life_defs)

text \<open>
  Property C26. The windows of a transaction are as long as they should be. The transaction of a
  response ends in one of three ways: it times out, no sooner than fifteen seconds after it was made
  or last asked for its message; a write fails; or it has been asked three times, and ends at once
  with the third. A request that no event reaches ends at the failure of a write, or is given up,
  no sooner than nine seconds after its first write. The clock goes forward, and what is posted to
  a response are retransmissions of its request.
\<close>

theorem timeouts_keep_their_time:
  assumes "runs ty seq (begins ty start None) ins l" "sorted (readings ins)" "phase l = Returned e"
  shows "(ty = SendingResponse \<and> Post ReceiveValidResponse \<notin> set ins \<longrightarrow>
      e = Some (ErrResponseTimeout seq) \<and> last_asked start ins + 15 * Second \<le> last (readings ins)
      \<or> e = Some ErrWrite \<and> WriteError \<in> set ins
      \<or> e = None \<and> times_asked ins = 3)
    \<and> (ty = SendingRequest \<and> times_asked ins = 0 \<longrightarrow>
      e = Some (ErrRequestTimeout seq) \<and> hd (readings ins) + 9 * Second \<le> last (readings ins)
      \<or> e = Some ErrWrite \<and> WriteError \<in> set ins)"
proof (cases ty)
  case SendingRequest
  then show ?thesis using paced_runs [of seq start None ins l] assms by (auto simp: paced_def Let_def)
next
  case SendingResponse
  then show ?thesis using kept_runs [of seq start ins l] assms by (auto simp: kept_def)
qed

theorem timeouts_keep_their_time_witness:
  "hd (readings silent_inputs) + 9 * Second \<le> last (readings silent_inputs)"
  using timeouts_keep_their_time [OF silent_run]
  by (simp add: silent_inputs_def readings_def times_asked_def)

text \<open>
  A message is written at most three times, and a request is reported as timed out
  only after it was written three times.
\<close>

lemma resend_bound:
  assumes "runs ty seq (begins ty now ch) ins l"
  shows "writes l \<le> 3 \<and> (phase l = Returned (Some (ErrRequestTimeout seq)) \<longrightarrow> writes l = 3)"
proof -
  have "life_inv l" by (rule runs_inv [OF assms begins_inv])
  then have "writes l \<le> 3" by (auto simp: life_inv_def NumOfResend_def split: tx_phase.splits)
  moreover have "timeout_inv seq (begins ty now ch)" by (simp add: timeout_inv_def begins_def)
  then have "timeout_inv seq l" by (rule runs_timeout [OF assms begins_inv])
  ultimately show ?thesis by (simp add: timeout_inv_def NumOfResend_def)
qed

text \<open>
  A response answers two retransmissions and no more: the third one it is told of is
  read without a write, the loop is over, and the transaction returns at once, however recently
  the peer asked, so nothing absorbs the next copy.
\<close>

lemma third_retransmission_unanswered:
  assumes "runs SendingResponse seq (begins SendingResponse now None) ins l"
    and "phase l = Waiting 2 d" "channel l = Some ReceiveResendRequest"
  shows "writes l = 3
    \<and> run_inputs SendingResponse seq [ReadEvent t, LoopEnd] l
      = Some (l\<lparr>channel := None, phase := Returned None\<rparr>)
    \<and> Start SendingResponse seq (Write t) (the (Start SendingResponse seq (ReadEvent t) l)) = None"
proof -
  have "life_inv l" by (rule runs_inv [OF assms(1) begins_inv])
  with assms show ?thesis by (simp add: life_inv_def NumOfResend_def)
qed

section \<open>The tables\<close>

definition std_tx :: "UDPAddr \<Rightarrow> string \<Rightarrow> u32 \<Rightarrow> Transaction" where
  "std_tx dest consumer seq = \<lparr>EventChannel = None, DestAddr = dest, ConsumerAddr = consumer, EventData = None,
     SendMsg = [], SequenceNumber = seq, TxMessageType = MsgTypeHeartbeatRequest, TxType = SendingRequest\<rparr>"

lemma std_tx_fields [simp]:
  "ConsumerAddr (std_tx dest consumer seq) = consumer" "SequenceNumber (std_tx dest consumer seq) = seq"
  by (simp_all add: std_tx_def)

definition tx_addr :: UDPAddr where
  "tx_addr = \<lparr>addr_IP = Some [10, 42, 0, 1], addr_Port = 8805, addr_Zone = []\<rparr>"

definition tx_text :: string where "tx_text = ''10.42.0.1:8805''"

definition tx_init :: tx_state where
  "tx_init = \<lparr>Server = Some \<lparr>Addr = tx_addr, Conn = Some \<lparr>LocalAddr = tx_text\<rparr>\<rparr>, consumers = Map.empty,
     tables = Map.empty, transactions = Map.empty, next_ref = 0, spawned = []\<rparr>"

definition one_tx :: tx_state where
  "one_tx = snd (PutTransaction 0 (std_tx tx_addr tx_text 7) (tx_init\<lparr>next_ref := 1\<rparr>))"

lemma pfcp_port_text: "Itoa 8805 = ''8805''"
proof -
  have "digit 8 = CHR ''8''" "digit 0 = CHR ''0''" "digit 5 = CHR ''5''" by code_simp+
  then show ?thesis by (simp add: Itoa.simps)
qed

lemma tx_addr_text: "UDPAddr_String tx_addr = tx_text"
proof -
  have "IP_String (Some [10, 42, 0, 1]) = ''10.42.0.1''" by code_simp
  then show ?thesis by (simp add: UDPAddr_String_def tx_addr_def tx_text_def JoinHostPort_def pfcp_port_text)
qed

lemma tx_init_inv: "tx_inv tx_init" "tx_inv (tx_init\<lparr>next_ref := n\<rparr>)"
  by (simp_all add: tx_inv_def tx_init_def)

lemma tx_init_server:
  "Server tx_init = Some \<lparr>Addr = tx_addr, Conn = Some \<lparr>LocalAddr = tx_text\<rparr>\<rparr>" "next_ref tx_init = 0"
  by (simp_all add: tx_init_def)

lemma tx_init_held [simp]: "held tx_init k = None" "held (tx_init\<lparr>next_ref := n\<rparr>) k = None"
  by (simp_all add: held_def tx_init_def)

lemma one_tx_held: "held one_tx = [(tx_text, 7) \<mapsto> 0]"
proof -
  have "held (tx_init\<lparr>next_ref := 1\<rparr>) = Map.empty" by (rule ext) (rule tx_init_held(2))
  then show ?thesis
    using conjunct2 [OF put_refines(1) [OF tx_init_inv(2) [where n = 1] tx_init_held(2), where tx = "std_tx tx_addr tx_text 7" and x = 0]]
    by (simp add: one_tx_def)
qed

lemma one_tx_inv: "tx_inv one_tx" "Server one_tx = Server tx_init"
  unfolding one_tx_def by (rule put_refines(3) [OF tx_init_inv(2)]) (simp add: put_frame [OF tx_init_inv(2)])


text \<open>
  Releasing a peer drops the transactions held for its address, on whatever port they
  were seen, and no others; a peer whose address carries a zone keeps its transactions, because
  the host of its key ends in the zone.
\<close>

lemma forget_consumer_exact:
  assumes "tx_inv s" "enumerates ord" "Server s \<noteq> None"
    and "octets (addr_IP a) \<noteq> []" "CHR ''['' \<notin> set (addr_Zone a)" "CHR '']'' \<notin> set (addr_Zone a)"
  shows "held (ForgetConsumer ord (IP_String ip) s) (UDPAddr_String a, q) =
    (if addr_Zone a = [] \<and> IP_String (addr_IP a) = IP_String ip then None
     else held s (UDPAddr_String a, q))"
proof -
  have pct: "CHR ''%'' \<notin> set (IP_String ip)" using IP_String_addr_char [of ip] by (auto simp: addr_char_def)
  have "SplitHost (UDPAddr_String a) =
    Some (if addr_Zone a = [] then IP_String (addr_IP a) else IP_String (addr_IP a) @ ''%'' @ addr_Zone a)"
    using assms(4-6) by (simp add: UDPAddr_String_def SplitHost_JoinHostPort)
  moreover have "IP_String (addr_IP a) @ ''%'' @ addr_Zone a \<noteq> IP_String ip"
    using pct by (metis in_set_conv_decomp append_Cons append_Nil)
  ultimately show ?thesis
    using delete_by_host(2) [OF assms(1,2), of "IP_String ip"] assms(3)
    by (auto simp: ForgetConsumer_def map_keep_def split: option.split)
qed


text \<open>
  Property C18. The tables of the consumers, with their references, detached tables and retries,
  implement one map from consumer and number to transaction: after any sequence of registrations,
  removals and releases a lookup sees what the map holds.
\<close>

theorem transaction_tables_refine:
  assumes "tx_inv s" "Server s \<noteq> None" "along tx_exec tx_legal ops s"
  shows "held (fold tx_exec ops s) = fold tx_spec ops (held s)"
  using tx_run.run_refines [OF _ assms(3)] assms(1,2) by blast

theorem transaction_tables_refine_witness:
  "held (fold tx_exec [TxRelease sorted_list_of_set ''10.42.0.1'', TxPut 5 (std_tx tx_addr tx_text 7),
       TxRemove 0 (std_tx tx_addr tx_text 7)] one_tx) = [(tx_text, 7) \<mapsto> 5]"
proof -
  have "SplitHost tx_text = Some ''10.42.0.1''" by code_simp
  moreover have "map_keep (\<lambda>k _. SplitHost (fst k) \<noteq> Some ''10.42.0.1'') [(tx_text, 7 :: u32) \<mapsto> 0 :: nat] = Map.empty"
    using calculation by (auto simp: map_keep_def fun_eq_iff)
  ultimately show ?thesis
    using transaction_tables_refine [OF one_tx_inv(1), of "[TxRelease sorted_list_of_set ''10.42.0.1'',
        TxPut 5 (std_tx tx_addr tx_text 7), TxRemove 0 (std_tx tx_addr tx_text 7)]"] one_tx_inv(2)
    by (simp add: one_tx_held tx_init_server(1))
qed

section \<open>Reading and sending\<close>

text \<open>
  Property C33. A retransmitted request never reaches the dispatcher while the answer to it is held:
  reading a request of a peer whose answer under that number is in the table gives the resend
  error, which the loop does not dispatch, and tells the transaction to answer again.
\<close>

theorem retransmission_not_dispatched:
  assumes "tx_inv s" "Server s = Some srv" "Conn srv \<noteq> None"
    and "Parse lib (take PFCP_MAX_UDP_LEN bytes) = Some msg" "IsRequest lib msg"
    and "held s (UDPAddr_String addr, Sequence lib msg) = Some x"
  shows "readPfcpMessage lib (Datagram bytes addr) s
      = ((Some (msg, addr), Some ErrResendRequest), notify x ReceiveResendRequest s)
    \<and> readLoop lib [Datagram bytes addr] s = (([], False), notify x ReceiveResendRequest s)"
proof -
  have "findTransaction lib msg addr s = Inr (Some x)"
    using find_refines(1) [OF assms(1) _ assms(5), of addr] assms(2,6) by simp
  with assms show ?thesis by (simp add: readPfcpMessage_def)
qed

definition std_req :: "u32 \<Rightarrow> plain_msg" where
  "std_req q = \<lparr>pm_type = MsgTypeSessionReportRequest, pm_seq = q, pm_seid = 1, pm_node = [], pm_flags = None\<rparr>"

definition std_rsp :: "u32 \<Rightarrow> plain_msg" where
  "std_rsp q = \<lparr>pm_type = MsgTypeSessionReportResponse, pm_seq = q, pm_seid = 1, pm_node = [], pm_flags = None\<rparr>"

text \<open>A wire format for evaluation: one octet for the kind, one for the number.\<close>

definition wire_lib :: "plain_msg pfcp_lib" where
  "wire_lib = plain_lib\<lparr>Parse := (\<lambda>b. if length b = 2
     then Some (if b ! 0 = 0 then std_req (ucast (b ! 1)) else std_rsp (ucast (b ! 1))) else None)\<rparr>"

lemma wire_lib_laws: "lib_laws wire_lib"
proof -
  have "q mod 0x1000000 \<le> seq_max" for q :: u32
    by (simp add: seq_max_def word_le_nat_alt unat_mod)
  then show ?thesis by (simp add: lib_laws_def wire_lib_def plain_lib_def seq_mod)
qed

theorem retransmission_not_dispatched_witness:
  "readLoop wire_lib [Datagram [0, 7] tx_addr] one_tx = (([], False), notify 0 ReceiveResendRequest one_tx)"
proof -
  have p: "Parse wire_lib (take PFCP_MAX_UDP_LEN [0, 7]) = Some (std_req 7)"
    by (simp add: wire_lib_def PFCP_MAX_UDP_LEN_def std_req_def)
  have r: "IsRequest wire_lib (std_req 7)" "Sequence wire_lib (std_req 7) = 7"
    by (simp_all add: wire_lib_def plain_lib_def std_req_def IsRequest_def)
  show ?thesis
    using retransmission_not_dispatched [OF one_tx_inv(1) _ _ p r(1), of _ tx_addr 0] r(2) one_tx_inv(2)
    by (simp add: tx_init_def one_tx_held tx_addr_text)
qed

text \<open>
  Property C32. A response finds the request it answers: once a request was sent, reading a response
  that carries its number wakes its transaction, and nothing else, and is dispatched; this needs
  the address the socket reports for itself to print as the configured one does.
\<close>

theorem response_finds_request:
  assumes "tx_inv s" "Server s = Some srv" "Conn srv = Some conn"
    and "SendPfcp lib req dest ev s = (None, s1)" "IsRequest lib req"
    and "LocalAddr conn = UDPAddr_String (Addr srv)"
    and "Parse lib (take PFCP_MAX_UDP_LEN bytes) = Some rsp" "IsResponse lib rsp"
    and "Sequence lib rsp = Sequence lib req"
  shows "readPfcpMessage lib (Datagram bytes from) s1
      = ((Some (rsp, from), None), notify (next_ref s) ReceiveValidResponse s1)
    \<and> spawned s1 = next_ref s # spawned s"
  using assms(1)
proof (cases rule: SendPfcp_cases [where lib = lib and msg = req and addr = dest and ev = ev])
  case (Sent srv' conn' buf s')
  with assms have s': "s1 = s'" "srv' = srv" "conn' = conn" by auto
  have "held s1 (UDPAddr_String (Addr srv), Sequence lib rsp) = Some (next_ref s)"
    using Sent(6) assms s' by (simp add: tx_key_def)
  moreover have "tx_inv s1" "Server s1 \<noteq> None" using Sent s' by simp_all
  ultimately have "findTransaction lib rsp (Addr srv) s1 = Inr (Some (next_ref s))"
    using find_refines(2) [OF _ _ assms(8)] by blast
  with Sent s' assms show ?thesis using request_not_response [of lib rsp]
    by (auto simp: readPfcpMessage_def)
qed (use assms in auto)

theorem response_finds_request_witness:
  "readPfcpMessage wire_lib (Datagram [1, 9] tx_addr)
     (snd (SendPfcp wire_lib (std_req 9) tx_addr None tx_init))
   = ((Some (std_rsp 9, tx_addr), None),
      notify 0 ReceiveValidResponse (snd (SendPfcp wire_lib (std_req 9) tx_addr None tx_init)))"
proof -
  let ?r = "SendPfcp wire_lib (std_req 9) tx_addr None tx_init"
  have "Marshal wire_lib (std_req 9) = Some [9]" by (simp add: wire_lib_def plain_lib_def std_req_def)
  then have "fst ?r = None"
    using SendPfcp_ready [OF tx_init_inv(1) tx_init_server(1), where conn = "\<lparr>LocalAddr = tx_text\<rparr>"
        and lib = wire_lib and msg = "std_req 9" and buf = "[9]" and addr = tx_addr and ev = None] by simp
  then have sent: "?r = (None, snd ?r)" by (simp add: prod_eq_iff)
  have p: "Parse wire_lib (take PFCP_MAX_UDP_LEN [1, 9]) = Some (std_rsp 9)"
    by (simp add: wire_lib_def PFCP_MAX_UDP_LEN_def std_rsp_def)
  have r: "IsRequest wire_lib (std_req 9)" "IsResponse wire_lib (std_rsp 9)"
    "Sequence wire_lib (std_rsp 9) = Sequence wire_lib (std_req 9)"
    by (simp_all add: wire_lib_def plain_lib_def std_req_def std_rsp_def IsRequest_def IsResponse_def)
  show ?thesis
    using response_finds_request [OF tx_init_inv(1) tx_init_server(1) _ sent r(1) _ p r(2) r(3),
        of "\<lparr>LocalAddr = tx_text\<rparr>" tx_addr]
    by (simp add: tx_addr_text tx_init_server(2))
qed

lemma readLoop_server:
  "Server (snd (readPfcpMessage lib i s)) = Server s"
  by (simp add: readPfcpMessage_def notify_def split: option.split read_input.split sum.split)

lemma readLoop_append_closed:
  assumes "Server s = Some srv" "Conn srv \<noteq> None" "ReadError ErrClosed \<notin> set ins"
  shows "snd (fst (readLoop lib (ins @ [ReadError ErrClosed]) s))
    \<and> fst (fst (readLoop lib (ins @ [ReadError ErrClosed]) s)) = fst (fst (readLoop lib ins s))
    \<and> \<not> snd (fst (readLoop lib ins s))"
  using assms
proof (induction ins arbitrary: s)
  case Nil
  then show ?case by (simp add: readPfcpMessage_def)
next
  case (Cons i ins)
  let ?r = "readPfcpMessage lib i s"
  have srv: "Server (snd ?r) = Some srv" using Cons.prems by (simp add: readLoop_server)
  have open_: "snd (fst ?r) \<noteq> Some ErrClosed"
    using Cons.prems
    by (auto simp: readPfcpMessage_def findTransaction_def Let_def split: read_input.split option.split sum.split if_splits)
  obtain m e t where r: "?r = ((m, e), t)" by (metis prod.collapse)
  with Cons.IH [of t] Cons.prems srv open_ show ?case
    by (auto split: option.split prod.split)
qed

text \<open>
  The read loop stops when the socket is closed and only then: whatever errors precede
  it, it goes on, and every message that was read without an error before the close is dispatched,
  in order.
\<close>

lemma read_loop_stops:
  assumes "Server s = Some srv" "Conn srv \<noteq> None" "ReadError ErrClosed \<notin> set before"
  shows "fst (serve_pfcp lib before s) = (fst (fst (readLoop lib before s)), True)
    \<and> \<not> snd (fst (readLoop lib before s))"
  using readLoop_append_closed [OF assms, of lib] unfolding serve_pfcp_def by (simp add: prod_eq_iff)

end
