(* ===== verification/Tx_Threads.thy ===== *)
theory Tx_Threads
  imports Tx_Properties
begin

text \<open>
  The transaction tables as the goroutines of \<^verbatim>\<open>pfcp/udp/udp.go\<close> meet in them. A
  \<^verbatim>\<open>sync.Map\<close> makes each of its operations one step and nothing more, so a thread here takes
  one operation at a time: a registration and the release of a peer exclude each other by
  \<^verbatim>\<open>registerMu\<close>, but the end of a transaction and the lookups of the read loop take no lock
  and come between any two steps.
\<close>

section \<open>Threads\<close>

text \<open>
  What a thread is there for: \<^verbatim>\<open>PutTransaction\<close>, \<^verbatim>\<open>ForgetConsumer\<close> with the
  order in which it meets the consumers, \<^verbatim>\<open>removeTransaction\<close>, and
  \<^verbatim>\<open>readPfcpMessage\<close> from the point where a request or a response has been parsed, with
  \<^verbatim>\<open>findTransaction\<close> inside it.
\<close>

datatype 'm tx_job =
    Registers tx_ref Transaction
  | Releases "string order" string
  | Removes tx_ref Transaction
  | Matches 'm UDPAddr

text \<open>
  Where it is. A lookup asks for a table and for a number twice each: first whether there is one,
  then for what it is. A table that has gone in between is \<^verbatim>\<open>nil\<close>, and so is a transaction.
\<close>

datatype tx_pc =
    AwaitsLock
  | LooksUp nat
  | Inserts nat table_ref
  | Checks nat table_ref
  | Clears "string list"
  | Unlocks "udp_error option"
  | LoadsTable
  | DeletesOwn "table_ref option"
  | SeesTable
  | TakesTable
  | SeesNumber "table_ref option"
  | TakesNumber "table_ref option"
  | Posts "tx_ref option"
  | Finished "udp_error option"
  | NilDereference

fun job_start :: "'m tx_job \<Rightarrow> tx_pc" where
  "job_start (Registers x tx) = AwaitsLock"
| "job_start (Releases ord ip) = AwaitsLock"
| "job_start (Removes x tx) = LoadsTable"
| "job_start (Matches msg addr) = SeesTable"

definition table_at :: "table_ref option \<Rightarrow> 'w tx_state_scheme \<Rightarrow> TxTable option" where
  "table_at t s = Option.bind t (tables s)"

text \<open>
  The steps of a registration. Its lock is \<open>mu\<close>, the thread that holds
  \<^verbatim>\<open>registerMu\<close> if one does; no result means that the thread waits for it, or has ended.
\<close>

fun put_step ::
  "nat \<Rightarrow> tx_ref \<Rightarrow> Transaction \<Rightarrow> tx_pc \<Rightarrow> nat option \<Rightarrow> 'w tx_state_scheme
   \<Rightarrow> (tx_pc \<times> nat option \<times> 'w tx_state_scheme) option" where
  "put_step i x tx AwaitsLock mu s = (if mu = None then Some (LooksUp putAttempts, Some i, s) else None)"
| "put_step i x tx (LooksUp 0) mu s = Some (Unlocks (Some (ErrDetached (ConsumerAddr tx))), mu, s)"
| "put_step i x tx (LooksUp (Suc n)) mu s =
     (let (fresh, s) = newTxTable s;
          (txTable, s) = ConsumerTable_LoadOrStore (ConsumerAddr tx) fresh s
      in Some (Inserts n txTable, mu, s))"
| "put_step i x tx (Inserts n txTable) mu s =
     (let (loaded, s) = storeTx txTable (SequenceNumber tx) x s
      in Some (if loaded then Unlocks (Some (ErrDuplicateSequence (SequenceNumber tx))) else Checks n txTable, mu, s))"
| "put_step i x tx (Checks n txTable) mu s =
     Some (if stillHolds (ConsumerAddr tx) txTable s then Unlocks None else LooksUp n, mu, s)"
| "put_step i x tx (Unlocks e) mu s = Some (Finished e, None, s)"
| "put_step i x tx _ mu s = None"

fun release_step ::
  "nat \<Rightarrow> string order \<Rightarrow> string \<Rightarrow> tx_pc \<Rightarrow> nat option \<Rightarrow> 'w tx_state_scheme
   \<Rightarrow> (tx_pc \<times> nat option \<times> 'w tx_state_scheme) option" where
  "release_step i ord ip AwaitsLock mu s =
     (if Server s = None then Some (Finished None, mu, s)
      else if mu = None then Some (Clears (ord (dom (consumers s))), Some i, s) else None)"
| "release_step i ord ip (Clears (consumerAddr # keys)) mu s =
     Some (Clears keys, mu,
       if SplitHost consumerAddr = Some ip then s\<lparr>consumers := (consumers s)(consumerAddr := None)\<rparr> else s)"
| "release_step i ord ip (Clears []) mu s = Some (Unlocks None, mu, s)"
| "release_step i ord ip (Unlocks e) mu s = Some (Finished e, None, s)"
| "release_step i ord ip _ mu s = None"

text \<open>The end of a transaction takes no lock.\<close>

fun remove_step :: "tx_ref \<Rightarrow> Transaction \<Rightarrow> tx_pc \<Rightarrow> 'w tx_state_scheme \<Rightarrow> (tx_pc \<times> 'w tx_state_scheme) option" where
  "remove_step x tx LoadsTable s =
     (if Server s = None then Some (Finished (Some ErrNotInitialized), s)
      else Some (DeletesOwn (ConsumerTable_Load (ConsumerAddr tx) s), s))"
| "remove_step x tx (DeletesOwn None) s = Some (Finished (Some (ErrNotHeld (SequenceNumber tx))), s)"
| "remove_step x tx (DeletesOwn (Some t)) s =
     (let (deleted, table) = TxTable_DeleteIf (SequenceNumber tx) x
            (case tables s t of None \<Rightarrow> Map.empty | Some m \<Rightarrow> m);
          s = s\<lparr>tables := (tables s)(t \<mapsto> table)\<rparr>
      in Some (Finished (if deleted then None else Some (ErrNotHeld (SequenceNumber tx))), s))"
| "remove_step x tx _ s = None"

text \<open>
  A message that has been read: a request is looked up under the address of its peer, a response
  under that of the server. A request that is found is a retransmission, one that is not is new.
\<close>

definition lookup_addr :: "'m pfcp_lib \<Rightarrow> 'm \<Rightarrow> UDPAddr \<Rightarrow> 'w tx_state_scheme \<Rightarrow> string" where
  "lookup_addr lib msg addr s = UDPAddr_String (if IsResponse lib msg then Addr (the (Server s)) else addr)"

definition unmatched :: "'m pfcp_lib \<Rightarrow> 'm \<Rightarrow> udp_error \<Rightarrow> tx_pc" where
  "unmatched lib msg err = (if IsResponse lib msg then Finished (Some err) else Finished None)"

text \<open>
  What the read loop does with the transaction: it posts an event without blocking. It does not ask
  whether a response has a transaction, since no error was returned.
\<close>

fun post_step :: "'m pfcp_lib \<Rightarrow> 'm \<Rightarrow> tx_ref option \<Rightarrow> 'w tx_state_scheme \<Rightarrow> tx_pc \<times> 'w tx_state_scheme" where
  "post_step lib msg (Some x) s =
     (if IsResponse lib msg then (Finished None, notify x ReceiveValidResponse s)
      else (Finished (Some ErrResendRequest), notify x ReceiveResendRequest s))"
| "post_step lib msg None s = (if IsResponse lib msg then NilDereference else Finished None, s)"

fun match_step :: "'m pfcp_lib \<Rightarrow> 'm \<Rightarrow> UDPAddr \<Rightarrow> tx_pc \<Rightarrow> 'w tx_state_scheme \<Rightarrow> (tx_pc \<times> 'w tx_state_scheme) option" where
  "match_step lib msg addr SeesTable s =
     (if Server s = None then Some (Finished (Some ErrNotInitialized), s)
      else
        case ConsumerTable_Load (lookup_addr lib msg addr s) s of
          None \<Rightarrow> Some (unmatched lib msg ErrNoTxTable, s)
        | Some _ \<Rightarrow> Some (TakesTable, s))"
| "match_step lib msg addr TakesTable s = Some (SeesNumber (ConsumerTable_Load (lookup_addr lib msg addr s) s), s)"
| "match_step lib msg addr (SeesNumber t) s =
     (case TxTable_Load (Sequence lib msg) (table_at t s) of
        None \<Rightarrow> Some (unmatched lib msg (ErrNoSequence (Sequence lib msg)), s)
      | Some _ \<Rightarrow> Some (TakesNumber t, s))"
| "match_step lib msg addr (TakesNumber t) s = Some (Posts (TxTable_Load (Sequence lib msg) (table_at t s)), s)"
| "match_step lib msg addr (Posts (Some x)) s = Some (post_step lib msg (Some x) s)"
| "match_step lib msg addr (Posts None) s = Some (post_step lib msg None s)"
| "match_step lib msg addr _ s = None"

fun job_step ::
  "'m pfcp_lib \<Rightarrow> nat \<Rightarrow> 'm tx_job \<Rightarrow> tx_pc \<Rightarrow> nat option \<Rightarrow> 'w tx_state_scheme
   \<Rightarrow> (tx_pc \<times> nat option \<times> 'w tx_state_scheme) option" where
  "job_step lib i (Registers x tx) pc mu s = put_step i x tx pc mu s"
| "job_step lib i (Releases ord ip) pc mu s = release_step i ord ip pc mu s"
| "job_step lib i (Removes x tx) pc mu s = map_option (\<lambda>(pc, s). (pc, mu, s)) (remove_step x tx pc s)"
| "job_step lib i (Matches msg addr) pc mu s = map_option (\<lambda>(pc, s). (pc, mu, s)) (match_step lib msg addr pc s)"

section \<open>A thread alone\<close>

text \<open>A thread that nothing comes between, for as long as it can go on.\<close>

primrec job_alone ::
  "nat \<Rightarrow> 'm pfcp_lib \<Rightarrow> nat \<Rightarrow> 'm tx_job \<Rightarrow> tx_pc \<times> nat option \<times> 'w tx_state_scheme
   \<Rightarrow> tx_pc \<times> nat option \<times> 'w tx_state_scheme" where
  "job_alone 0 lib i job c = c"
| "job_alone (Suc n) lib i job c =
     (case c of (pc, mu, s) \<Rightarrow>
        (case job_step lib i job pc mu s of None \<Rightarrow> c | Some c' \<Rightarrow> job_alone n lib i job c'))"

lemma alone_step: "job_step lib i job pc mu s = Some c \<Longrightarrow> job_alone (Suc n) lib i job (pc, mu, s) = job_alone n lib i job c"
  by simp

lemma alone_finished [simp]: "job_alone n lib i job (Finished e, mu, s) = (Finished e, mu, s)"
  by (cases n; cases job) simp_all

lemma alone_unlocks [simp]:
  "0 < n \<Longrightarrow> job_alone n lib i (Registers x tx) (Unlocks e, mu, s) = (Finished e, None, s)"
  "0 < n \<Longrightarrow> job_alone n lib i (Releases ord ip) (Unlocks e, mu, s) = (Finished e, None, s)"
  by (cases n; simp)+

lemma alone_put:
  assumes "3 * n + 2 \<le> m"
  shows "job_alone m lib i (Registers x tx) (LooksUp n, mu, s)
   = (Finished (fst (putLoop n (ConsumerAddr tx) (SequenceNumber tx) x s)), None,
      snd (putLoop n (ConsumerAddr tx) (SequenceNumber tx) x s))"
  using assms
proof (induction n arbitrary: s m)
  case 0
  then obtain k where "m = Suc k" "0 < k" by (cases m) auto
  then show ?case by simp
next
  case (Suc n)
  then have "m = Suc (Suc (Suc (m - 3)))" "3 * n + 2 \<le> m - 3" by simp_all
  then obtain k where m: "m = Suc (Suc (Suc k))" "3 * n + 2 \<le> k" by blast
  then have "0 < k" by simp
  with m(2) show ?case unfolding m(1) by (simp add: split_beta Let_def Suc.IH)
qed

lemma alone_release:
  assumes "length keys + 2 \<le> m"
  shows "job_alone m lib i (Releases ord ip) (Clears keys, mu, s)
   = (Finished None, None, range_map consumers
       (\<lambda>consumerAddr _ s.
          if SplitHost consumerAddr = Some ip then s\<lparr>consumers := (consumers s)(consumerAddr := None)\<rparr> else s) keys s)"
  using assms
proof (induction keys arbitrary: s m)
  case Nil
  then obtain k where "m = Suc k" "0 < k" by (cases m) auto
  then show ?case by simp
next
  case (Cons a keys)
  then obtain k where m: "m = Suc k" "length keys + 2 \<le> k" by (cases m) auto
  have "(consumers s)(a := None) = consumers s" if "consumers s a = None" using that by (simp add: fun_upd_idem)
  with m show ?case by (cases "consumers s a") (simp_all add: Cons.IH)
qed

lemma register_alone:
  "job_alone 12 lib i (Registers x tx) (AwaitsLock, None, s) =
     (Finished (fst (PutTransaction x tx s)), None, snd (PutTransaction x tx s))"
proof -
  have "job_alone (Suc 11) lib i (Registers x tx) (AwaitsLock, None, s)
      = job_alone 11 lib i (Registers x tx) (LooksUp putAttempts, Some i, s)"
    by (rule alone_step) simp
  also have "\<dots> = (Finished (fst (PutTransaction x tx s)), None, snd (PutTransaction x tx s))"
    unfolding PutTransaction_def by (rule alone_put) (simp add: putAttempts_def)
  finally show ?thesis by simp
qed

lemma forget_alone:
  "\<exists>n. job_alone n lib i (Releases ord ip) (AwaitsLock, None, s) = (Finished None, None, ForgetConsumer ord ip s)"
proof (cases "Server s = None")
  case True
  then have "job_alone 1 lib i (Releases ord ip) (AwaitsLock, None, s) = (Finished None, None, ForgetConsumer ord ip s)"
    by (simp add: ForgetConsumer_def)
  then show ?thesis ..
next
  case False
  let ?keys = "ord (dom (consumers s))"
  have "job_alone (Suc (length ?keys + 2)) lib i (Releases ord ip) (AwaitsLock, None, s)
      = job_alone (length ?keys + 2) lib i (Releases ord ip) (Clears ?keys, Some i, s)"
    using False by (intro alone_step) simp
  also have "\<dots> = (Finished None, None, ForgetConsumer ord ip s)"
    by (subst alone_release [OF order.refl]) (use False in \<open>auto simp: ForgetConsumer_def DeleteByHost_def\<close>)
  finally show ?thesis ..
qed

lemma remove_alone:
  "job_alone 2 lib i (Removes x tx) (LoadsTable, mu, s) =
     (Finished (fst (removeTransaction x tx s)), mu, snd (removeTransaction x tx s))"
  by (simp add: numeral_2_eq_2 removeTransaction_def ConsumerTable_Load_def split_beta Let_def split: option.split)

lemma match_alone:
  assumes "Server s = Some srv" "Conn srv \<noteq> None" "Parse lib (take PFCP_MAX_UDP_LEN bytes) = Some msg"
    and "IsRequest lib msg \<or> IsResponse lib msg"
  shows "job_alone 5 lib i (Matches msg addr) (SeesTable, mu, s) =
    (Finished (snd (fst (readPfcpMessage lib (Datagram bytes addr) s))), mu, snd (readPfcpMessage lib (Datagram bytes addr) s))"
proof -
  let ?q = "Sequence lib msg"
  have five: "(5 :: nat) = Suc (Suc (Suc (Suc (Suc 0))))" by simp
  show ?thesis
  proof (cases "consumers s (lookup_addr lib msg addr s)")
    case None
    with assms show ?thesis unfolding five
      by (auto simp: readPfcpMessage_def findTransaction_def ConsumerTable_Load_def lookup_addr_def unmatched_def
          dest: request_not_response)
  next
    case (Some t)
    show ?thesis
    proof (cases "TxTable_Load ?q (tables s t)")
      case None
      with Some assms show ?thesis unfolding five
        by (auto simp: readPfcpMessage_def findTransaction_def ConsumerTable_Load_def lookup_addr_def unmatched_def
            table_at_def dest: request_not_response)
    next
      case found: (Some x)
      with Some assms show ?thesis unfolding five
        by (auto simp: readPfcpMessage_def findTransaction_def ConsumerTable_Load_def lookup_addr_def
            table_at_def dest: request_not_response)
    qed
  qed
qed

section \<open>The system of threads\<close>

record 'm tx_thread =
  job :: "'m tx_job"
  place :: tx_pc

type_synonym ('m, 'w) tables_sys = "'w tx_state_scheme \<times> nat option \<times> 'm tx_thread list"

fun over :: "tx_pc \<Rightarrow> bool" where
  "over (Finished e) = True"
| "over NilDereference = True"
| "over _ = False"

definition running :: "'m tx_thread list \<Rightarrow> bool" where
  "running ths \<longleftrightarrow> (\<forall>th \<in> set ths. place th \<noteq> NilDereference)"

definition started :: "'m tx_job \<Rightarrow> 'm tx_thread" where
  "started j = \<lparr>job = j, place = job_start j\<rparr>"

text \<open>
  A step: a message is to be sent and its transaction is made, a registered transaction is started
  and comes to its end, the release of a host is asked for, the read loop has read a message, or a
  thread takes a step. There is one read loop, so it reads when it is done with the message before;
  a dereference of \<^verbatim>\<open>nil\<close> on it ends the process.
\<close>

inductive table_step :: "'m pfcp_lib \<Rightarrow> ('m, 'w) tables_sys \<Rightarrow> ('m, 'w) tables_sys \<Rightarrow> bool" for lib where
  sends: "running ths
    \<Longrightarrow> table_step lib (s, mu, ths)
          (s\<lparr>transactions := (transactions s)(next_ref s \<mapsto> tx), next_ref := Suc (next_ref s)\<rparr>, mu,
           ths @ [started (Registers (next_ref s) tx)])"
| ends: "running ths \<Longrightarrow> \<lparr>job = Registers x tx, place = Finished None\<rparr> \<in> set ths
    \<Longrightarrow> \<forall>th \<in> set ths. job th \<noteq> Removes x tx
    \<Longrightarrow> table_step lib (s, mu, ths) (s, mu, ths @ [started (Removes x tx)])"
| releases: "running ths \<Longrightarrow> enumerates ord
    \<Longrightarrow> table_step lib (s, mu, ths) (s, mu, ths @ [started (Releases ord ip)])"
| reads: "running ths \<Longrightarrow> IsRequest lib msg \<or> IsResponse lib msg
    \<Longrightarrow> \<forall>th \<in> set ths. (\<exists>m a. job th = Matches m a) \<longrightarrow> over (place th)
    \<Longrightarrow> table_step lib (s, mu, ths) (s, mu, ths @ [started (Matches msg addr)])"
| runs: "running ths \<Longrightarrow> i < length ths \<Longrightarrow> job_step lib i (job (ths ! i)) (place (ths ! i)) mu s = Some (pc, mu', s')
    \<Longrightarrow> table_step lib (s, mu, ths) (s', mu', ths[i := (ths ! i)\<lparr>place := pc\<rparr>])"

inductive_cases table_stepE: "table_step lib c c'"

end
