(* ===== verification/Tx_Thread_Invariants.thy ===== *)
theory Tx_Thread_Invariants
  imports Tx_Threads
begin

text \<open>
  The invariant of the threads on the transaction tables: what each step does to the tables, what a
  thread knows at its place, who holds the lock, which thread owns a transaction. With it every
  step is a step of the one map that lookups see.
\<close>

section \<open>Moments of a run\<close>

text \<open>
  \<open>once step c0 c P\<close>: at some moment on the way from \<open>c0\<close> to \<open>c\<close> the state was as
  \<open>P\<close> says.
\<close>

definition once :: "('c \<Rightarrow> 'c \<Rightarrow> bool) \<Rightarrow> 'c \<Rightarrow> 'c \<Rightarrow> ('c \<Rightarrow> bool) \<Rightarrow> bool" where
  "once step c0 c P \<longleftrightarrow> (\<exists>c1. step\<^sup>*\<^sup>* c0 c1 \<and> step\<^sup>*\<^sup>* c1 c \<and> P c1)"

lemma once_now: "step\<^sup>*\<^sup>* c0 c \<Longrightarrow> P c \<Longrightarrow> once step c0 c P"
  by (auto simp: once_def)

lemma once_later: "once step c0 c P \<Longrightarrow> step c c' \<Longrightarrow> once step c0 c' P"
  unfolding once_def by (meson rtranclp.rtrancl_into_rtrancl)

lemma once_next: "step\<^sup>*\<^sup>* c0 c \<Longrightarrow> step c c' \<Longrightarrow> P c' \<Longrightarrow> once step c0 c' P"
  by (rule once_now) (rule rtranclp.rtrancl_into_rtrancl)

section \<open>Effects\<close>

text \<open>
  What one step does to the tables: nothing that exists changes, a consumer without a table gets an
  empty one, an entry is made in the table of a consumer, a consumer loses its table, an entry goes
  from a table that belongs to a consumer or to nobody any more.
\<close>

datatype effect =
    Nothing
  | Attached string
  | Entered string u32 tx_ref
  | Detached string
  | Left string table_ref u32 tx_ref

definition belongs :: "'w tx_state_scheme \<Rightarrow> string \<Rightarrow> table_ref \<Rightarrow> bool" where
  "belongs s a t \<longleftrightarrow> t < next_ref s \<and> tables s t \<noteq> None \<and> (\<forall>b. consumers s b = Some t \<longrightarrow> b = a)"

fun touches :: "effect \<Rightarrow> 'w tx_state_scheme \<Rightarrow> 'w tx_state_scheme \<Rightarrow> bool" where
  "touches Nothing s s' \<longleftrightarrow> consumers s' = consumers s \<and> next_ref s \<le> next_ref s'
     \<and> (\<forall>t < next_ref s. tables s' t = tables s t)"
| "touches (Attached a) s s' \<longleftrightarrow> consumers s a = None \<and> consumers s' = (consumers s)(a \<mapsto> next_ref s)
     \<and> next_ref s' = Suc (next_ref s) \<and> tables s' = (tables s)(next_ref s \<mapsto> Map.empty)"
| "touches (Entered a q x) s s' \<longleftrightarrow> consumers s' = consumers s \<and> next_ref s' = next_ref s
     \<and> (\<exists>t m. consumers s a = Some t \<and> tables s t = Some m \<and> m q = None \<and> tables s' = (tables s)(t \<mapsto> m(q \<mapsto> x)))"
| "touches (Detached a) s s' \<longleftrightarrow> consumers s' = (consumers s)(a := None) \<and> next_ref s' = next_ref s \<and> tables s' = tables s"
| "touches (Left a t q x) s s' \<longleftrightarrow> consumers s' = consumers s \<and> next_ref s' = next_ref s \<and> belongs s a t
     \<and> (\<exists>m. tables s t = Some m \<and> m q = Some x \<and> tables s' = (tables s)(t \<mapsto> m(q := None)))"

lemma belongs_own:
  assumes "tx_inv s" "consumers s a = Some t"
  shows "belongs s a t"
  using tx_invD(1) [OF assms] tx_invD(2) [OF assms] tx_invD(3) [OF assms(1) _ assms(2)]
  by (auto simp: belongs_def)

lemma touches_belongs: "touches ef s s' \<Longrightarrow> belongs s a t \<Longrightarrow> belongs s' a t"
  by (cases ef) (auto simp: belongs_def split: if_splits)

lemma touches_inv:
  assumes "touches ef s s'" "tx_inv s"
  shows "tx_inv s'"
proof (cases ef)
  case Nothing
  with assms show ?thesis by (fastforce simp: tx_inv_def)
next
  case (Attached a)
  have "inj_on ((consumers s)(a \<mapsto> next_ref s)) (insert a (dom (consumers s)))"
    using assms(2) tx_invD(1) [OF assms(2), of _ "next_ref s"] by (auto simp: tx_inv_def inj_on_def)
  with Attached assms show ?thesis by (fastforce simp: tx_inv_def intro: less_SucI)
next
  case (Entered a q x)
  with assms show ?thesis by (fastforce simp: tx_inv_def)
next
  case (Detached a)
  with assms show ?thesis by (auto simp: tx_inv_def inj_on_def split: if_splits)
next
  case (Left a t q x)
  with assms show ?thesis by (fastforce simp: tx_inv_def)
qed

text \<open>What the effects are on the one map that lookups see.\<close>

fun seen_effect :: "effect \<Rightarrow> 'w tx_state_scheme \<Rightarrow> (string \<times> u32 \<rightharpoonup> tx_ref) \<Rightarrow> (string \<times> u32 \<rightharpoonup> tx_ref)" where
  "seen_effect (Entered a q x) s m = m((a, q) \<mapsto> x)"
| "seen_effect (Detached a) s m = map_keep (\<lambda>k _. fst k \<noteq> a) m"
| "seen_effect (Left a t q x) s m = (if consumers s a = Some t then m((a, q) := None) else m)"
| "seen_effect _ s m = m"

lemma touches_held:
  assumes "touches ef s s'" "tx_inv s"
  shows "held s' = seen_effect ef s (held s)"
proof
  fix k :: "string \<times> u32"
  obtain b p where k: "k = (b, p)" by (cases k)
  note inv = tx_invD [OF assms(2)]
  have "held s' (b, p) = seen_effect ef s (held s) (b, p)"
  proof (cases ef)
    case Nothing
    with assms(1) inv(1) [of b] show ?thesis by (auto simp: held_def split: option.split)
  next
    case (Attached a)
    with assms(1) inv(1) [of b] show ?thesis by (auto simp: held_def TxTable_Load_def split: option.split)
  next
    case (Entered a q x)
    with assms(1) obtain t m where t: "consumers s a = Some t" "tables s t = Some m" "m q = None"
      "consumers s' = consumers s" "tables s' = (tables s)(t \<mapsto> m(q \<mapsto> x))" by auto
    have "b = a" if "consumers s b = Some t" using inv(3) [OF that t(1)] .
    with t Entered show ?thesis by (cases "consumers s b") (auto simp: held_def TxTable_Load_def)
  next
    case (Detached a)
    with assms(1) show ?thesis by (auto simp: held_def map_keep_def split: option.split)
  next
    case (Left a t q x)
    with assms(1) obtain m where t: "tables s t = Some m" "consumers s' = consumers s"
      "tables s' = (tables s)(t \<mapsto> m(q := None))" by auto
    have "b = a" if "consumers s b = Some t" using assms(1) Left that by (simp add: belongs_def)
    with t Left show ?thesis by (cases "consumers s b") (auto simp: held_def TxTable_Load_def)
  qed
  then show "held s' k = seen_effect ef s (held s) k" by (simp add: k)
qed

section \<open>Where a thread is\<close>

text \<open>The places at which a thread holds the lock, and what a thread knows at its place.\<close>

fun locked :: "tx_pc \<Rightarrow> bool" where
  "locked (LooksUp n) = True"
| "locked (Inserts n t) = True"
| "locked (Checks n t) = True"
| "locked (Clears keys) = True"
| "locked (Unlocks e) = True"
| "locked _ = False"

definition put_result :: "Transaction \<Rightarrow> udp_error option \<Rightarrow> bool" where
  "put_result tx e \<longleftrightarrow> e = None \<or> e = Some (ErrDuplicateSequence (SequenceNumber tx))"

fun knows :: "'m pfcp_lib \<Rightarrow> 'w tx_state_scheme \<Rightarrow> 'm tx_job \<Rightarrow> tx_pc \<Rightarrow> bool" where
  "knows lib s (Registers x tx) pc =
     (case pc of
        AwaitsLock \<Rightarrow> True
      | LooksUp n \<Rightarrow> n = putAttempts
      | Inserts n t \<Rightarrow> consumers s (ConsumerAddr tx) = Some t
      | Checks n t \<Rightarrow> consumers s (ConsumerAddr tx) = Some t
      | Unlocks e \<Rightarrow> put_result tx e
      | Finished e \<Rightarrow> put_result tx e
      | _ \<Rightarrow> False)"
| "knows lib s (Releases ord ip) pc =
     (case pc of AwaitsLock \<Rightarrow> True | Clears keys \<Rightarrow> True | Unlocks e \<Rightarrow> e = None | Finished e \<Rightarrow> e = None | _ \<Rightarrow> False)"
| "knows lib s (Removes x tx) pc =
     (case pc of
        LoadsTable \<Rightarrow> True
      | DeletesOwn (Some t) \<Rightarrow> belongs s (ConsumerAddr tx) t
      | DeletesOwn None \<Rightarrow> True
      | Finished e \<Rightarrow> True
      | _ \<Rightarrow> False)"
| "knows lib s (Matches msg addr) pc =
     (case pc of
        SeesTable \<Rightarrow> True
      | TakesTable \<Rightarrow> True
      | SeesNumber (Some t) \<Rightarrow> belongs s (lookup_addr lib msg addr s) t
      | SeesNumber None \<Rightarrow> True
      | TakesNumber (Some t) \<Rightarrow> belongs s (lookup_addr lib msg addr s) t
      | Posts x \<Rightarrow> True
      | Finished e \<Rightarrow> True
      | NilDereference \<Rightarrow> IsResponse lib msg
      | _ \<Rightarrow> False)"

text \<open>Which thread can have which effect, from where to where.\<close>

fun causes :: "'m tx_job \<Rightarrow> tx_pc \<Rightarrow> tx_pc \<Rightarrow> effect \<Rightarrow> bool" where
  "causes j pc pc' Nothing = True"
| "causes j pc pc' (Attached a) = locked pc"
| "causes j pc pc' (Entered a q x) =
     (\<exists>tx n t. j = Registers x tx \<and> pc = Inserts n t \<and> pc' = Checks n t \<and> a = ConsumerAddr tx \<and> q = SequenceNumber tx)"
| "causes j pc pc' (Detached a) = (\<exists>ord ip keys. j = Releases ord ip \<and> pc = Clears (a # keys) \<and> SplitHost a = Some ip)"
| "causes j pc pc' (Left a t q x) =
     (\<exists>tx. j = Removes x tx \<and> pc' = Finished None \<and> a = ConsumerAddr tx \<and> q = SequenceNumber tx)"

definition lock_moves :: "nat \<Rightarrow> tx_pc \<Rightarrow> tx_pc \<Rightarrow> nat option \<Rightarrow> nat option \<Rightarrow> bool" where
  "lock_moves i pc pc' mu mu' \<longleftrightarrow>
     (if locked pc then (if locked pc' then mu' = mu else mu' = None)
      else if locked pc' then mu = None \<and> mu' = Some i else mu' = mu)"

definition step_effect ::
  "'m pfcp_lib \<Rightarrow> nat \<Rightarrow> 'm tx_job \<Rightarrow> tx_pc \<Rightarrow> nat option \<Rightarrow> 'w tx_state_scheme
   \<Rightarrow> tx_pc \<Rightarrow> nat option \<Rightarrow> 'w tx_state_scheme \<Rightarrow> effect \<Rightarrow> bool" where
  "step_effect lib i j pc mu s pc' mu' s' ef \<longleftrightarrow> touches ef s s' \<and> causes j pc pc' ef \<and> knows lib s' j pc'
     \<and> lock_moves i pc pc' mu mu' \<and> Server s' = Server s"

lemma put_effect:
  assumes "tx_inv s" "knows lib s (Registers x tx) pc" "put_step i x tx pc mu s = Some (pc', mu', s')"
  shows "\<exists>ef. step_effect lib i (Registers x tx) pc mu s pc' mu' s' ef"
proof (cases pc)
  case AwaitsLock
  with assms show ?thesis
    by (intro exI [of _ Nothing]) (auto simp: step_effect_def lock_moves_def split: if_splits)
next
  case (LooksUp n)
  show ?thesis
  proof (cases "consumers s (ConsumerAddr tx)")
    case None
    with LooksUp assms show ?thesis
      by (intro exI [of _ "Attached (ConsumerAddr tx)"])
        (auto simp: step_effect_def lock_moves_def putAttempts_def numeral_3_eq_3 newTxTable_def ConsumerTable_LoadOrStore_def)
  next
    case (Some t)
    with LooksUp assms show ?thesis
      by (intro exI [of _ Nothing])
        (auto simp: step_effect_def lock_moves_def putAttempts_def numeral_3_eq_3 newTxTable_def ConsumerTable_LoadOrStore_def)
  qed
next
  case (Inserts n t)
  with assms have t: "consumers s (ConsumerAddr tx) = Some t" by simp
  then obtain m where m: "tables s t = Some m" using tx_invD(2) [OF assms(1)] by blast
  show ?thesis
  proof (cases "m (SequenceNumber tx)")
    case None
    with Inserts assms(3) t m show ?thesis
      by (intro exI [of _ "Entered (ConsumerAddr tx) (SequenceNumber tx) x"])
        (auto simp: step_effect_def lock_moves_def storeTx_def TxTable_LoadOrStore_def)
  next
    case (Some y)
    with Inserts assms(3) t m show ?thesis
      by (intro exI [of _ Nothing])
        (auto simp: step_effect_def lock_moves_def storeTx_def TxTable_LoadOrStore_def fun_upd_idem put_result_def)
  qed
next
  case (Checks n t)
  with assms show ?thesis
    by (intro exI [of _ Nothing]) (auto simp: step_effect_def lock_moves_def stillHolds_def put_result_def)
next
  case (Unlocks e)
  with assms show ?thesis by (intro exI [of _ Nothing]) (auto simp: step_effect_def lock_moves_def)
qed (use assms in simp_all)

lemma release_effect:
  assumes "Server s \<noteq> None" "knows lib s (Releases ord ip) pc" "release_step i ord ip pc mu s = Some (pc', mu', s')"
  shows "\<exists>ef. step_effect lib i (Releases ord ip) pc mu s pc' mu' s' ef"
proof (cases pc)
  case (Clears keys)
  show ?thesis
  proof (cases "\<exists>a ks. keys = a # ks \<and> SplitHost a = Some ip")
    case True
    then obtain a ks where "keys = a # ks" "SplitHost a = Some ip" by blast
    with Clears assms(3) show ?thesis
      by (intro exI [of _ "Detached a"]) (auto simp: step_effect_def lock_moves_def)
  next
    case False
    with Clears assms(3) show ?thesis
      by (cases keys; intro exI [of _ Nothing]) (auto simp: step_effect_def lock_moves_def)
  qed
qed (use assms in \<open>auto intro!: exI [of _ Nothing] simp: step_effect_def lock_moves_def split: if_splits\<close>)

lemma remove_effect:
  assumes "tx_inv s" "Server s \<noteq> None" "knows lib s (Removes x tx) pc" "remove_step x tx pc s = Some (pc', s')"
  shows "\<exists>ef. step_effect lib i (Removes x tx) pc mu s pc' mu s' ef"
proof (cases pc)
  case LoadsTable
  with assms belongs_own [OF assms(1), of "ConsumerAddr tx"] show ?thesis
    by (intro exI [of _ Nothing])
      (auto simp: step_effect_def lock_moves_def ConsumerTable_Load_def split: option.split)
next
  case (DeletesOwn t)
  show ?thesis
  proof (cases t)
    case None
    with DeletesOwn assms(4) show ?thesis
      by (intro exI [of _ Nothing]) (auto simp: step_effect_def lock_moves_def)
  next
    case (Some r)
    with DeletesOwn assms(3) have r: "belongs s (ConsumerAddr tx) r" by simp
    then obtain m where m: "tables s r = Some m" by (auto simp: belongs_def)
    show ?thesis
    proof (cases "m (SequenceNumber tx) = Some x")
      case True
      with DeletesOwn Some assms(4) r m show ?thesis
        by (intro exI [of _ "Left (ConsumerAddr tx) r (SequenceNumber tx) x"])
          (auto simp: step_effect_def lock_moves_def TxTable_DeleteIf_def)
    next
      case False
      with DeletesOwn Some assms(4) m show ?thesis
        by (intro exI [of _ Nothing])
          (auto simp: step_effect_def lock_moves_def TxTable_DeleteIf_def fun_upd_idem)
    qed
  qed
qed (use assms in simp_all)

lemma notify_fields [simp]:
  "consumers (notify x ev s) = consumers s" "tables (notify x ev s) = tables s"
  "next_ref (notify x ev s) = next_ref s" "Server (notify x ev s) = Server s"
  by (simp_all add: notify_def)

lemma lookup_addr_cong: "Server s' = Server s \<Longrightarrow> lookup_addr lib msg addr s' = lookup_addr lib msg addr s"
  by (simp add: lookup_addr_def)

lemma match_effect:
  assumes "tx_inv s" "Server s \<noteq> None" "knows lib s (Matches msg addr) pc" "match_step lib msg addr pc s = Some (pc', s')"
  shows "step_effect lib i (Matches msg addr) pc mu s pc' mu s' Nothing"
proof (cases pc)
  case TakesTable
  with assms belongs_own [OF assms(1), of "lookup_addr lib msg addr s"] show ?thesis
    by (auto simp: step_effect_def lock_moves_def ConsumerTable_Load_def split: option.split)
next
  case (Posts x)
  with assms show ?thesis
    by (cases x) (auto simp: step_effect_def lock_moves_def split: if_splits)
qed (use assms in \<open>auto simp: step_effect_def lock_moves_def unmatched_def ConsumerTable_Load_def
    TxTable_Load_def table_at_def split: option.splits if_splits\<close>)

lemma job_effect:
  assumes "tx_inv s" "Server s \<noteq> None" "knows lib s j pc" "job_step lib i j pc mu s = Some (pc', mu', s')"
  shows "\<exists>ef. step_effect lib i j pc mu s pc' mu' s' ef"
proof (cases j)
  case (Registers x tx)
  with assms show ?thesis using put_effect [of s lib x tx pc i mu pc' mu' s'] by simp
next
  case (Releases ord ip)
  with assms show ?thesis using release_effect [of s lib ord ip pc i mu pc' mu' s'] by simp
next
  case (Removes x tx)
  with assms show ?thesis using remove_effect [of s lib x tx pc pc' s' i mu] by auto
next
  case (Matches msg addr)
  with assms show ?thesis using match_effect [of s lib msg addr pc pc' s' i mu] by auto
qed

text \<open>What the other threads know survives: a change of the consumers is made under the lock.\<close>

lemma knows_kept:
  assumes "touches ef s s'" "Server s' = Server s" "knows lib s j pc" "locked pc \<Longrightarrow> consumers s' = consumers s"
  shows "knows lib s' j pc"
  using assms touches_belongs [OF assms(1)]
  by (cases j) (auto simp: lookup_addr_cong [OF assms(2)] split: tx_pc.splits option.splits)

section \<open>The invariant of the system\<close>

definition threads_know :: "'m pfcp_lib \<Rightarrow> ('m, 'w) tables_sys \<Rightarrow> bool" where
  "threads_know lib c \<longleftrightarrow>
     (case c of (s, mu, ths) \<Rightarrow>
        (\<forall>i < length ths. knows lib s (job (ths ! i)) (place (ths ! i)) \<and> (locked (place (ths ! i)) \<longleftrightarrow> mu = Some i))
        \<and> (\<forall>i. mu = Some i \<longrightarrow> i < length ths))"

text \<open>A transaction is registered by one thread, and ended by one that starts when it is registered.\<close>

definition owners :: "('m, 'w) tables_sys \<Rightarrow> bool" where
  "owners c \<longleftrightarrow>
     (case c of (s, mu, ths) \<Rightarrow>
        (\<forall>i < length ths. \<forall>x tx. job (ths ! i) = Registers x tx \<longrightarrow> x < next_ref s
           \<and> (\<forall>j < length ths. \<forall>tx'. job (ths ! j) = Registers x tx' \<longrightarrow> j = i))
        \<and> (\<forall>th \<in> set ths. \<forall>x tx. job th = Removes x tx \<longrightarrow> \<lparr>job = Registers x tx, place = Finished None\<rparr> \<in> set ths))"

definition tables_ok :: "'m pfcp_lib \<Rightarrow> ('m, 'w) tables_sys \<Rightarrow> bool" where
  "tables_ok lib c \<longleftrightarrow> tx_inv (fst c) \<and> Server (fst c) \<noteq> None \<and> threads_know lib c \<and> owners c"

lemma start_unlocked [simp]: "\<not> locked (job_start j)"
  by (cases j) simp_all

lemma start_knows [simp]: "knows lib s j (job_start j)"
  by (cases j) simp_all

text \<open>Every step is the arrival of a thread that changes no table, or a step of one thread.\<close>

definition arrives :: "('m, 'w) tables_sys \<Rightarrow> ('m, 'w) tables_sys \<Rightarrow> bool" where
  "arrives c c' \<longleftrightarrow>
     (case (c, c') of ((s, mu, ths), (s', mu', ths')) \<Rightarrow>
        \<exists>j. ths' = ths @ [started j] \<and> mu' = mu \<and> touches Nothing s s' \<and> Server s' = Server s
          \<and> (\<forall>x tx. j = Registers x tx \<longrightarrow> x = next_ref s \<and> x < next_ref s')
          \<and> (\<forall>x tx. j = Removes x tx \<longrightarrow> \<lparr>job = Registers x tx, place = Finished None\<rparr> \<in> set ths))"

definition moves :: "'m pfcp_lib \<Rightarrow> nat \<Rightarrow> effect \<Rightarrow> ('m, 'w) tables_sys \<Rightarrow> ('m, 'w) tables_sys \<Rightarrow> bool" where
  "moves lib i ef c c' \<longleftrightarrow>
     (case (c, c') of ((s, mu, ths), (s', mu', ths')) \<Rightarrow>
        \<exists>pc. i < length ths \<and> ths' = ths[i := (ths ! i)\<lparr>place := pc\<rparr>]
          \<and> job_step lib i (job (ths ! i)) (place (ths ! i)) mu s = Some (pc, mu', s')
          \<and> step_effect lib i (job (ths ! i)) (place (ths ! i)) mu s pc mu' s' ef)"

lemma step_cases:
  assumes "table_step lib c c'" "tables_ok lib c"
  shows "arrives c c' \<or> (\<exists>i ef. moves lib i ef c c')"
  using assms(1)
proof cases
  case (runs ths i mu s pc mu' s')
  then have "knows lib s (job (ths ! i)) (place (ths ! i))" "tx_inv s" "Server s \<noteq> None"
    using assms(2) by (auto simp: tables_ok_def threads_know_def)
  then obtain ef where "step_effect lib i (job (ths ! i)) (place (ths ! i)) mu s pc mu' s' ef"
    using job_effect runs(5) by blast
  with runs show ?thesis by (auto simp: moves_def)
qed (auto simp: arrives_def)

lemma effect_spares_others:
  assumes "moves lib i ef (s, mu, ths) (s', mu', ths')" "threads_know lib (s, mu, ths)" "mu = Some k" "k \<noteq> i"
  shows "consumers s' = consumers s"
proof -
  have "i < length ths" "\<not> locked (place (ths ! i))"
    using assms by (auto simp: moves_def threads_know_def)
  with assms(1) show ?thesis by (cases ef) (auto simp: moves_def step_effect_def)
qed

lemma arrives_know:
  assumes "arrives (s, mu, ths) (s', mu', ths')" "threads_know lib (s, mu, ths)"
  shows "threads_know lib (s', mu', ths')"
proof -
  obtain j where j: "ths' = ths @ [started j]" "mu' = mu" and kept: "touches Nothing s s'" "Server s' = Server s"
    using assms(1) by (auto simp: arrives_def)
  have "knows lib s' (job (ths ! i)) (place (ths ! i))" if "i < length ths" for i
    using knows_kept [OF kept] that assms(2) kept(1) by (auto simp: threads_know_def)
  with j assms(2) show ?thesis
    by (auto simp: threads_know_def nth_append started_def less_Suc_eq)
qed

lemma moves_know:
  assumes "moves lib i ef (s, mu, ths) (s', mu', ths')" "threads_know lib (s, mu, ths)"
  shows "threads_know lib (s', mu', ths')"
proof -
  let ?th = "ths ! i"
  obtain pc where i: "i < length ths" "ths' = ths[i := ?th\<lparr>place := pc\<rparr>]"
    and eff: "touches ef s s'" "Server s' = Server s" "knows lib s' (job ?th) pc" "lock_moves i (place ?th) pc mu mu'"
    using assms(1) by (auto simp: moves_def step_effect_def)
  have old: "knows lib s (job (ths ! k)) (place (ths ! k))" "locked (place (ths ! k)) \<longleftrightarrow> mu = Some k"
    if "k < length ths" for k using assms(2) that by (auto simp: threads_know_def)
  have "knows lib s' (job (ths ! k)) (place (ths ! k))" if "k < length ths" "k \<noteq> i" for k
    using knows_kept [OF eff(1,2) old(1) [OF that(1)]] old(2) [OF that(1)]
      effect_spares_others [OF assms(1,2) _ that(2)] by blast
  moreover have "locked (place (ths ! k)) \<longleftrightarrow> mu' = Some k" if "k < length ths" "k \<noteq> i" for k
    using eff(4) old(2) [OF that(1)] old(2) [OF i(1)] that(2) by (auto simp: lock_moves_def split: if_splits)
  moreover have "locked pc \<longleftrightarrow> mu' = Some i" "\<forall>k. mu' = Some k \<longrightarrow> k < length ths"
    using eff(4) old(2) [OF i(1)] i(1) assms(2) by (auto simp: lock_moves_def threads_know_def split: if_splits)
  ultimately show ?thesis using i eff(3) by (auto simp: threads_know_def nth_list_update)
qed

text \<open>A thread that has finished stays as it is.\<close>

lemma finished_stays: "job_step lib i j (Finished e) mu s = None" "job_step lib i j NilDereference mu s = None"
  by (cases j; simp)+

lemma moves_finished:
  assumes "moves lib i ef (s, mu, ths) (s', mu', ths')" "\<lparr>job = j, place = Finished e\<rparr> \<in> set ths"
  shows "\<lparr>job = j, place = Finished e\<rparr> \<in> set ths'"
proof -
  obtain k where k: "k < length ths" "ths ! k = \<lparr>job = j, place = Finished e\<rparr>"
    using assms(2) by (auto simp: in_set_conv_nth)
  then have "k \<noteq> i" using assms(1) by (auto simp: moves_def finished_stays)
  with assms(1) k show ?thesis by (auto simp: moves_def in_set_conv_nth nth_list_update intro!: exI [of _ k])
qed

lemma touches_ref: "touches ef s s' \<Longrightarrow> next_ref s \<le> next_ref s'"
  by (cases ef) auto

lemma ownersD:
  assumes "owners (s, mu, ths)" "k < length ths" "job (ths ! k) = Registers x tx"
  shows "x < next_ref s" "l < length ths \<Longrightarrow> job (ths ! l) = Registers x tx' \<Longrightarrow> l = k"
  using assms unfolding owners_def prod.case by blast+

lemma step_owners:
  assumes "arrives (s, mu, ths) (s', mu', ths') \<or> moves lib i ef (s, mu, ths) (s', mu', ths')" "owners (s, mu, ths)"
  shows "owners (s', mu', ths')"
  using assms(1)
proof
  assume "arrives (s, mu, ths) (s', mu', ths')"
  then obtain j where j: "ths' = ths @ [started j]" "next_ref s \<le> next_ref s'"
    "\<And>x tx. j = Registers x tx \<Longrightarrow> x = next_ref s \<and> x < next_ref s'"
    "\<And>x tx. j = Removes x tx \<Longrightarrow> \<lparr>job = Registers x tx, place = Finished None\<rparr> \<in> set ths"
    by (auto simp: arrives_def)
  have jobs: "job (ths' ! k) = (if k < length ths then job (ths ! k) else j)" if "k < length ths'" for k
    using that by (simp add: j(1) nth_append started_def)
  have new: "k < length ths \<and> job (ths ! k) = Registers x tx \<and> x < next_ref s \<or> k = length ths \<and> x = next_ref s"
    if "k < length ths'" "job (ths' ! k) = Registers x tx" for k x tx
    using that jobs [OF that(1)] ownersD(1) [OF assms(2), of k x tx] j(3) [of x tx] j(1)
    by (cases "k < length ths") auto
  have "x < next_ref s'" if "k < length ths'" "job (ths' ! k) = Registers x tx" for k x tx
    using new [OF that] that jobs [OF that(1)] j(2) j(3) [of x tx] by auto
  moreover have "l = k" if k: "k < length ths'" "job (ths' ! k) = Registers x tx"
    and l: "l < length ths'" "job (ths' ! l) = Registers x tx'" for k l x tx tx'
    using new [OF k] new [OF l] ownersD(2) [OF assms(2), of k x tx l tx'] by auto
  moreover have "\<lparr>job = Registers x tx, place = Finished None\<rparr> \<in> set ths'"
    if "th \<in> set ths'" "job th = Removes x tx" for th x tx
    using assms(2) that j(1,4) by (auto simp: owners_def started_def)
  ultimately show ?thesis unfolding owners_def by blast
next
  assume moved: "moves lib i ef (s, mu, ths) (s', mu', ths')"
  then obtain pc where i: "i < length ths" "ths' = ths[i := (ths ! i)\<lparr>place := pc\<rparr>]" and le: "next_ref s \<le> next_ref s'"
    by (auto simp: moves_def step_effect_def dest: touches_ref)
  have jobs: "job (ths' ! k) = job (ths ! k)" "length ths' = length ths" for k
    using i by (auto simp: nth_list_update)
  have "\<lparr>job = Registers x tx, place = Finished None\<rparr> \<in> set ths'" if th: "th \<in> set ths'" "job th = Removes x tx" for th x tx
  proof -
    obtain k where "k < length ths'" "ths' ! k = th" using th(1) by (auto simp: in_set_conv_nth)
    then have "ths ! k \<in> set ths" "job (ths ! k) = Removes x tx" using th(2) jobs(1) [of k] jobs(2) by auto
    then have "\<lparr>job = Registers x tx, place = Finished None\<rparr> \<in> set ths"
      using assms(2) unfolding owners_def prod.case by blast
    then show ?thesis by (rule moves_finished [OF moved])
  qed
  moreover have "x < next_ref s'" "j = k"
    if "k < length ths'" "job (ths' ! k) = Registers x tx" "j < length ths'" "job (ths' ! j) = Registers x tx'" for k j x tx tx'
    using ownersD(1) [OF assms(2), of k x tx] ownersD(2) [OF assms(2), of k x tx j tx'] that le unfolding jobs by simp_all
  ultimately show ?thesis unfolding owners_def by blast
qed

lemma step_ok:
  assumes "table_step lib c c'" "tables_ok lib c"
  shows "tables_ok lib c'"
proof -
  obtain s mu ths s' mu' ths' where c: "c = (s, mu, ths)" "c' = (s', mu', ths')" by (metis prod_cases3)
  from step_cases [OF assms] obtain i ef where
    how: "arrives (s, mu, ths) (s', mu', ths') \<or> moves lib i ef (s, mu, ths) (s', mu', ths')" unfolding c by blast
  then have "threads_know lib (s', mu', ths')"
    using assms(2) arrives_know moves_know unfolding c tables_ok_def by blast
  moreover have "owners (s', mu', ths')"
    using step_owners [OF how] assms(2) unfolding c tables_ok_def by blast
  moreover have "tx_inv s' \<and> Server s' \<noteq> None"
    using how assms(2) unfolding c
    by (auto simp: tables_ok_def arrives_def moves_def step_effect_def simp del: touches.simps dest: touches_inv)
  ultimately show ?thesis by (simp add: tables_ok_def c)
qed

section \<open>The one map\<close>

text \<open>
  What may happen to the one map in a step: an entry is made where there was none, an entry goes, a
  consumer loses its entries.
\<close>

inductive map_step :: "(string \<times> u32 \<rightharpoonup> tx_ref) \<Rightarrow> (string \<times> u32 \<rightharpoonup> tx_ref) \<Rightarrow> bool" where
  enters: "m k = None \<Longrightarrow> map_step m (m(k \<mapsto> x))"
| leaves: "m k = Some x \<Longrightarrow> map_step m (m(k := None))"
| forgets: "map_step m (map_keep (\<lambda>k _. fst k \<noteq> a) m)"

lemma touches_map_step:
  assumes "touches ef s s'" "tx_inv s"
  shows "map_step\<^sup>*\<^sup>* (held s) (held s')"
proof (cases ef)
  case (Entered a q x)
  then have "held s (a, q) = None" using assms(1) by (auto simp: held_def TxTable_Load_def)
  with Entered touches_held [OF assms] show ?thesis by (auto intro: map_step.enters)
next
  case (Detached a)
  with touches_held [OF assms] show ?thesis by (auto intro: map_step.forgets)
next
  case (Left a t q x)
  then have "consumers s a = Some t \<Longrightarrow> held s (a, q) = Some x"
    using assms(1) by (auto simp: held_def TxTable_Load_def)
  with Left touches_held [OF assms] show ?thesis by (auto intro: map_step.leaves)
qed (use touches_held [OF assms] in simp_all)

interpretation table_run: simulated_steps "table_step lib" "tables_ok lib" "\<lambda>c. held (fst c)" map_step for lib
proof
  fix c c' :: "('a, 'b) tables_sys"
  assume step: "table_step lib c c'" and ok: "tables_ok lib c"
  then show "tables_ok lib c'" by (rule step_ok)
  from step_cases [OF step ok] obtain ef where "touches ef (fst c) (fst c')"
    by (auto simp: arrives_def moves_def step_effect_def split: prod.splits simp del: touches.simps)
  then show "map_step\<^sup>*\<^sup>* (held (fst c)) (held (fst c'))"
    using ok by (simp add: tables_ok_def touches_map_step)
qed

end
