(* ===== verification/Tx_Thread_Properties.thy ===== *)
theory Tx_Thread_Properties
  imports Tx_Thread_Invariants
begin

text \<open>
  What holds of the transaction tables however their threads interleave: a registration and a lookup
  take effect at one moment each, an entry stays until its own end or the release of its host, every
  thread comes to its end, and a lookup that is overtaken can end the process.
\<close>

section \<open>What a thread has seen\<close>

text \<open>
  What a thread has seen since it came, by induction on the run: it holds at the start, it survives the
  steps of the others, and each step of the thread itself takes it along.
\<close>

lemma thread_history:
  assumes "(table_step lib)\<^sup>*\<^sup>* c0 c" "tables_ok lib c0" "length (snd (snd c0)) \<le> i" "i < length (snd (snd c))"
    and "job (snd (snd c) ! i) = j"
    and start: "\<And>c. Q c (job_start j)"
    and later: "\<And>s mu ths c'. (table_step lib)\<^sup>*\<^sup>* c0 (s, mu, ths) \<Longrightarrow> tables_ok lib (s, mu, ths) \<Longrightarrow> table_step lib (s, mu, ths) c'
      \<Longrightarrow> i < length ths \<Longrightarrow> job (ths ! i) = j \<Longrightarrow> Q (s, mu, ths) (place (ths ! i)) \<Longrightarrow> Q c' (place (ths ! i))"
    and own: "\<And>s mu ths s' mu' ths' pc. (table_step lib)\<^sup>*\<^sup>* c0 (s, mu, ths) \<Longrightarrow> tables_ok lib (s, mu, ths)
      \<Longrightarrow> table_step lib (s, mu, ths) (s', mu', ths') \<Longrightarrow> i < length ths \<Longrightarrow> job (ths ! i) = j
      \<Longrightarrow> job_step lib i j (place (ths ! i)) mu s = Some (pc, mu', s') \<Longrightarrow> Q (s, mu, ths) (place (ths ! i))
      \<Longrightarrow> Q (s', mu', ths') pc"
  shows "Q c (place (snd (snd c) ! i))"
  using assms(1,4,5)
proof (induction rule: rtranclp_induct)
  case base
  then show ?case using assms(3) by simp
next
  case (step c c')
  obtain s mu ths s' mu' ths' where c: "c = (s, mu, ths)" "c' = (s', mu', ths')" by (metis prod_cases3)
  have ok: "tables_ok lib (s, mu, ths)" using table_run.run_inv [OF step.hyps(1) assms(2)] c by simp
  have old: "Q c' (place (ths ! i))" if "i < length ths" "job (ths ! i) = j"
    using later [OF _ ok _ that] step.hyps step.IH that by (simp add: c)
  from step_cases [OF step.hyps(2)] ok consider
    (comes) "arrives (s, mu, ths) (s', mu', ths')" | (runs) k ef where "moves lib k ef (s, mu, ths) (s', mu', ths')"
    unfolding c by blast
  then show ?case
  proof cases
    case comes
    then obtain n where n: "ths' = ths @ [started n]" by (auto simp: arrives_def)
    then show ?thesis
      using old step.prems start by (cases "i < length ths") (auto simp: c nth_append started_def)
  next
    case runs
    then obtain pc where m: "k < length ths" "ths' = ths[k := (ths ! k)\<lparr>place := pc\<rparr>]"
      "job_step lib k (job (ths ! k)) (place (ths ! k)) mu s = Some (pc, mu', s')" by (auto simp: moves_def)
    then have i: "i < length ths" "job (ths ! i) = j" using step.prems by (auto simp: c nth_list_update split: if_splits)
    show ?thesis
    proof (cases "i = k")
      case True
      then have "Q (s', mu', ths') pc"
        using own [OF _ ok _ i, of s' mu' ths' pc] step.hyps step.IH m(3) i by (simp add: c)
      with True m show ?thesis by (simp add: c)
    next
      case False
      with old i m show ?thesis by (simp add: c)
    qed
  qed
qed

section \<open>Registrations\<close>

definition tx_entry :: "Transaction \<Rightarrow> string \<times> u32" where
  "tx_entry tx = (ConsumerAddr tx, SequenceNumber tx)"

text \<open>The moment at which a transaction enters the map.\<close>

definition entered :: "'m pfcp_lib \<Rightarrow> ('m, 'w) tables_sys \<Rightarrow> ('m, 'w) tables_sys \<Rightarrow> tx_ref \<Rightarrow> Transaction \<Rightarrow> bool" where
  "entered lib c0 c x tx \<longleftrightarrow>
     (\<exists>c1. (table_step lib)\<^sup>*\<^sup>* c0 c1 \<and> held (fst c1) (tx_entry tx) = None
        \<and> once (table_step lib) c1 c (\<lambda>c2. table_step lib c1 c2 \<and> held (fst c2) = (held (fst c1))(tx_entry tx \<mapsto> x)))"

fun has_put :: "tx_pc \<Rightarrow> bool" where
  "has_put (Checks n t) = True"
| "has_put (Unlocks e) = (e = None)"
| "has_put (Finished e) = (e = None)"
| "has_put _ = False"

fun has_failed :: "tx_pc \<Rightarrow> bool" where
  "has_failed (Unlocks e) = (e \<noteq> None)"
| "has_failed (Finished e) = (e \<noteq> None)"
| "has_failed _ = False"

definition put_seen ::
  "'m pfcp_lib \<Rightarrow> ('m, 'w) tables_sys \<Rightarrow> ('m, 'w) tables_sys \<Rightarrow> tx_ref \<Rightarrow> Transaction \<Rightarrow> tx_pc \<Rightarrow> bool" where
  "put_seen lib c0 c x tx pc \<longleftrightarrow>
     (has_put pc \<longrightarrow> entered lib c0 c x tx)
     \<and> (has_failed pc \<longrightarrow> once (table_step lib) c0 c (\<lambda>c1. held (fst c1) (tx_entry tx) \<noteq> None))"

lemma put_seen_later: "put_seen lib c0 c x tx pc \<Longrightarrow> table_step lib c c' \<Longrightarrow> put_seen lib c0 c' x tx pc"
  unfolding put_seen_def entered_def by (meson once_later)

lemma insert_step:
  assumes "tx_inv s" "consumers s (ConsumerAddr tx) = Some t" "put_step i x tx (Inserts n t) mu s = Some (pc, mu', s')"
  shows "if held s (tx_entry tx) = None
    then pc = Checks n t \<and> held s' = (held s)(tx_entry tx \<mapsto> x)
    else pc = Unlocks (Some (ErrDuplicateSequence (SequenceNumber tx)))"
proof -
  obtain m where m: "tables s t = Some m" using tx_invD(2) [OF assms(1,2)] by blast
  have held: "held s (tx_entry tx) = m (SequenceNumber tx)"
    using assms(2) m by (simp add: tx_entry_def held_simps)
  show ?thesis
  proof (cases "m (SequenceNumber tx)")
    case None
    with assms(2,3) m have "pc = Checks n t" "touches (Entered (ConsumerAddr tx) (SequenceNumber tx) x) s s'"
      by (auto simp: storeTx_def TxTable_LoadOrStore_def)
    with None held touches_held [OF this(2) assms(1)] show ?thesis by (simp add: tx_entry_def)
  next
    case (Some y)
    with assms(3) m held show ?thesis by (auto simp: storeTx_def TxTable_LoadOrStore_def)
  qed
qed

lemma put_seen_step:
  assumes run: "(table_step lib)\<^sup>*\<^sup>* c0 (s, mu, ths)" and ok: "tables_ok lib (s, mu, ths)"
    and step: "table_step lib (s, mu, ths) (s', mu', ths')" and i: "i < length ths" "job (ths ! i) = Registers x tx"
    and moved: "put_step i x tx (place (ths ! i)) mu s = Some (pc, mu', s')"
    and seen: "put_seen lib c0 (s, mu, ths) x tx (place (ths ! i))"
  shows "put_seen lib c0 (s', mu', ths') x tx pc"
proof -
  note later = put_seen_later [OF seen step]
  have know: "knows lib s (Registers x tx) (place (ths ! i))" "tx_inv s"
    using ok i by (auto simp: tables_ok_def threads_know_def)
  show ?thesis
  proof (cases "place (ths ! i)")
    case (LooksUp n)
    with know(1) moved show ?thesis by (auto simp: put_seen_def putAttempts_def numeral_3_eq_3 split_beta)
  next
    case (Inserts n t)
    with know have t: "consumers s (ConsumerAddr tx) = Some t" by simp
    note ins = insert_step [OF know(2) t, of i x n mu pc mu' s']
    show ?thesis
    proof (cases "held s (tx_entry tx)")
      case None
      then have "pc = Checks n t" "held s' = (held s)(tx_entry tx \<mapsto> x)" using ins moved Inserts by auto
      moreover have "once (table_step lib) (s, mu, ths) (s', mu', ths')
          (\<lambda>c2. table_step lib (s, mu, ths) c2 \<and> held (fst c2) = (held (fst (s, mu, ths)))(tx_entry tx \<mapsto> x))"
        by (rule once_next [where c = "(s, mu, ths)"]) (use step calculation(2) in simp_all)
      then have "entered lib c0 (s', mu', ths') x tx"
        unfolding entered_def using run None by (intro exI [of _ "(s, mu, ths)"]) simp
      ultimately show ?thesis by (simp add: put_seen_def)
    next
      case (Some y)
      then have "pc = Unlocks (Some (ErrDuplicateSequence (SequenceNumber tx)))" using ins moved Inserts by auto
      moreover have "once (table_step lib) c0 (s', mu', ths') (\<lambda>c1. held (fst c1) (tx_entry tx) \<noteq> None)"
        by (rule once_later [OF once_now [OF run] step]) (simp add: Some)
      ultimately show ?thesis by (simp add: put_seen_def)
    qed
  next
    case (Checks n t)
    with know moved later show ?thesis by (auto simp: put_seen_def stillHolds_def)
  next
    case (Unlocks e)
    with moved later show ?thesis by (auto simp: put_seen_def)
  qed (use moved know(1) in \<open>auto simp: put_seen_def split: if_splits\<close>)
qed

lemma registrations_seen:
  assumes "(table_step lib)\<^sup>*\<^sup>* c0 c" "tables_ok lib c0" "length (snd (snd c0)) \<le> i" "i < length (snd (snd c))"
    and "job (snd (snd c) ! i) = Registers x tx"
  shows "put_seen lib c0 c x tx (place (snd (snd c) ! i))"
  using assms
proof (rule thread_history)
  show "put_seen lib c0 c x tx (job_start (Registers x tx))" for c by (simp add: put_seen_def)
qed (auto intro: put_seen_later put_seen_step)

section \<open>Lookups\<close>

text \<open>
  While a lookup holds a table that is still that of the consumer, the table says what the one map
  says. When the table is taken away, the consumer has no entry for a moment; from then on the
  table only loses entries, so whatever it still has was in the map before.
\<close>

lemma touches_keeps_table:
  assumes "touches ef s s'" "consumers s a = Some t"
  shows "consumers s' a = Some t \<or> consumers s' a = None \<and> tables s' = tables s"
  using assms by (cases ef) auto

lemma touches_shrinks:
  assumes "touches ef s s'" "belongs s a t" "consumers s a \<noteq> Some t" "TxTable_Load q (tables s' t) = Some x"
  shows "TxTable_Load q (tables s t) = Some x"
proof (cases ef)
  case (Entered b p y)
  then obtain r m where r: "consumers s b = Some r" "tables s' = (tables s)(r \<mapsto> m(p \<mapsto> y))"
    using assms(1) by auto
  have "r \<noteq> t" using assms(2,3) r(1) unfolding belongs_def by metis
  with r(2) assms(4) show ?thesis by simp
next
  case (Left b r p y)
  with assms(1,4) show ?thesis by (auto simp: TxTable_Load_def split: if_splits)
qed (use assms in \<open>auto simp: belongs_def\<close>)

abbreviation saw ::
  "'m pfcp_lib \<Rightarrow> ('m, 'w) tables_sys \<Rightarrow> ('m, 'w) tables_sys \<Rightarrow> string \<times> u32 \<Rightarrow> tx_ref option \<Rightarrow> bool" where
  "saw lib c0 c k r \<equiv> once (table_step lib) c0 c (\<lambda>c1. held (fst c1) k = r)"

definition reads_true ::
  "'m pfcp_lib \<Rightarrow> ('m, 'w) tables_sys \<Rightarrow> ('m, 'w) tables_sys \<Rightarrow> string \<times> u32 \<Rightarrow> table_ref \<Rightarrow> bool" where
  "reads_true lib c0 c k t \<longleftrightarrow>
     consumers (fst c) (fst k) = Some t
     \<or> saw lib c0 c k None \<and> (\<forall>x. TxTable_Load (snd k) (tables (fst c) t) = Some x \<longrightarrow> saw lib c0 c k (Some x))"

definition lookup_result :: "'m pfcp_lib \<Rightarrow> 'm \<Rightarrow> udp_error option \<Rightarrow> bool" where
  "lookup_result lib msg e \<longleftrightarrow> (e = None \<longleftrightarrow> IsResponse lib msg)"

definition match_seen ::
  "'m pfcp_lib \<Rightarrow> ('m, 'w) tables_sys \<Rightarrow> 'm \<Rightarrow> string \<times> u32 \<Rightarrow> ('m, 'w) tables_sys \<Rightarrow> tx_pc \<Rightarrow> bool" where
  "match_seen lib c0 msg k c pc \<longleftrightarrow>
     (case pc of
        SeesNumber None \<Rightarrow> saw lib c0 c k None
      | SeesNumber (Some t) \<Rightarrow> reads_true lib c0 c k t
      | TakesNumber (Some t) \<Rightarrow> reads_true lib c0 c k t \<and> (\<exists>x. saw lib c0 c k (Some x))
      | Posts None \<Rightarrow> saw lib c0 c k None \<and> (\<exists>x. saw lib c0 c k (Some x))
      | Posts (Some x) \<Rightarrow> saw lib c0 c k (Some x)
      | Finished e \<Rightarrow> if lookup_result lib msg e then \<exists>x. saw lib c0 c k (Some x) else saw lib c0 c k None
      | NilDereference \<Rightarrow> saw lib c0 c k None \<and> (\<exists>x. saw lib c0 c k (Some x))
      | _ \<Rightarrow> True)"

lemma reads_true_later:
  assumes "(table_step lib)\<^sup>*\<^sup>* c0 (s, mu, ths)" "tables_ok lib (s, mu, ths)" "table_step lib (s, mu, ths) c'"
    and "belongs s (fst k) t" "reads_true lib c0 (s, mu, ths) k t"
  shows "reads_true lib c0 c' k t"
proof -
  obtain s' where s': "fst c' = s'" by simp
  from step_cases [OF assms(3,2)] s' obtain ef where ef: "touches ef s s'"
    by (auto simp: arrives_def moves_def step_effect_def split: prod.splits simp del: touches.simps)
  have run: "(table_step lib)\<^sup>*\<^sup>* c0 c'" by (rule rtranclp.rtrancl_into_rtrancl [OF assms(1,3)])
  show ?thesis
  proof (cases "consumers s (fst k) = Some t")
    case True
    then have "held s k = TxTable_Load (snd k) (tables s t)" by (simp add: held_def)
    then have now: "TxTable_Load (snd k) (tables s t) = Some x \<Longrightarrow> saw lib c0 c' k (Some x)" for x
      using once_later [OF once_now [OF assms(1)] assms(3), of "\<lambda>c1. held (fst c1) k = Some x"] by simp
    from touches_keeps_table [OF ef True] show ?thesis
    proof
      assume gone: "consumers s' (fst k) = None \<and> tables s' = tables s"
      then have "saw lib c0 c' k None" by (intro once_now [OF run]) (simp add: s' held_def)
      with gone now show ?thesis by (simp add: reads_true_def s')
    qed (simp add: reads_true_def s')
  next
    case False
    then have "saw lib c0 (s, mu, ths) k None"
      "\<And>x. TxTable_Load (snd k) (tables s t) = Some x \<Longrightarrow> saw lib c0 (s, mu, ths) k (Some x)"
      using assms(5) by (auto simp: reads_true_def)
    then show ?thesis
      using touches_shrinks [OF ef assms(4) False] assms(3) s'
      by (auto simp: reads_true_def intro: once_later [where c = "(s, mu, ths)"])
  qed
qed

lemma match_seen_later:
  assumes "(table_step lib)\<^sup>*\<^sup>* c0 (s, mu, ths)" "tables_ok lib (s, mu, ths)" "table_step lib (s, mu, ths) c'"
    and "knows lib s (Matches msg addr) pc" "fst k = lookup_addr lib msg addr s"
    and "match_seen lib c0 msg k (s, mu, ths) pc"
  shows "match_seen lib c0 msg k c' pc"
proof -
  have later: "saw lib c0 (s, mu, ths) k r \<Longrightarrow> saw lib c0 c' k r" for r
    using assms(3) by (rule once_later [rotated])
  note true = reads_true_later [OF assms(1-3), of k]
  show ?thesis using assms(4-6) later true
    by (auto simp: match_seen_def split: tx_pc.splits option.splits if_splits)
qed

lemma match_seen_step:
  assumes "(table_step lib)\<^sup>*\<^sup>* c0 (s, mu, ths)" "tables_ok lib (s, mu, ths)" "table_step lib (s, mu, ths) (s', mu', ths')"
    and "knows lib s (Matches msg addr) pc" "k = (lookup_addr lib msg addr s, Sequence lib msg)"
    and "match_seen lib c0 msg k (s, mu, ths) pc" "match_step lib msg addr pc s = Some (pc', s')"
  shows "match_seen lib c0 msg k (s', mu', ths') pc'"
proof -
  have later: "saw lib c0 (s, mu, ths) k r \<Longrightarrow> saw lib c0 (s', mu', ths') k r" for r
    using assms(3) by (rule once_later [rotated])
  have now: "held s k = r \<Longrightarrow> saw lib c0 (s', mu', ths') k r" for r
    using later [OF once_now [OF assms(1)], of r] by simp
  have own: "consumers s (fst k) = Some t \<Longrightarrow> held s k = TxTable_Load (snd k) (tables s t)" for t
    by (simp add: held_def)
  have none: "consumers s (fst k) = None \<Longrightarrow> held s k = None" by (simp add: held_def)
  have up: "Server s \<noteq> None" using assms(2) by (simp add: tables_ok_def)
  have truth: "reads_true lib c0 (s', mu', ths') k t"
      "TxTable_Load (snd k) (tables s t) = Some x \<Longrightarrow> saw lib c0 (s', mu', ths') k (Some x)"
      "TxTable_Load (snd k) (tables s t) = None \<Longrightarrow> saw lib c0 (s', mu', ths') k None"
    if "reads_true lib c0 (s, mu, ths) k t" "belongs s (fst k) t" for t x
    using reads_true_later [OF assms(1-3) that(2,1)] that(1) own [of t] now later
    by (auto simp: reads_true_def)
  show ?thesis
  proof (cases pc)
    case SeesTable
    with assms(5,7) up now none show ?thesis
      by (auto simp: match_seen_def unmatched_def lookup_result_def ConsumerTable_Load_def split: option.splits)
  next
    case TakesTable
    with assms(5,7) now none show ?thesis
      by (auto simp: match_seen_def ConsumerTable_Load_def reads_true_def split: option.splits)
  next
    case (SeesNumber t)
    show ?thesis
    proof (cases t)
      case None
      with SeesNumber assms(6,7) later show ?thesis
        by (auto simp: match_seen_def unmatched_def lookup_result_def table_at_def TxTable_Load_def)
    next
      case (Some r)
      with SeesNumber assms(4,5,6) have "reads_true lib c0 (s, mu, ths) k r" "belongs s (fst k) r"
        by (auto simp: match_seen_def)
      from truth [OF this] SeesNumber Some assms(5,7) show ?thesis
        by (auto simp: match_seen_def unmatched_def lookup_result_def table_at_def split: option.splits)
    qed
  next
    case (TakesNumber t)
    with assms(4,5,6) obtain r where r: "t = Some r" "reads_true lib c0 (s, mu, ths) k r" "belongs s (fst k) r"
      "\<exists>x. saw lib c0 (s, mu, ths) k (Some x)"
      by (auto simp: match_seen_def split: option.splits)
    then have "\<exists>x. saw lib c0 (s', mu', ths') k (Some x)" using later by blast
    with truth [OF r(2,3)] r(1) TakesNumber assms(5,7) show ?thesis
      by (auto simp: match_seen_def table_at_def split: option.splits)
  next
    case (Posts x)
    show ?thesis
    proof (cases x)
      case None
      with Posts assms(6,7) later show ?thesis
        by (auto simp: match_seen_def lookup_result_def split: if_splits)
    next
      case (Some a)
      have "saw lib c0 (s', mu', ths') k (Some a)"
        by (rule later) (use assms(6) Posts Some in \<open>simp add: match_seen_def\<close>)
      then have "\<exists>x. saw lib c0 (s', mu', ths') k (Some x)" by blast
      moreover have "\<exists>e. pc' = Finished e \<and> lookup_result lib msg e"
        using assms(7) Posts Some by (auto simp: lookup_result_def split: if_splits)
      ultimately show ?thesis by (auto simp: match_seen_def)
    qed
  qed (use assms(7) in simp_all)
qed

lemma step_server:
  assumes "table_step lib c c'" "tables_ok lib c"
  shows "Server (fst c') = Server (fst c)"
  using step_cases [OF assms] by (auto simp: arrives_def moves_def step_effect_def split: prod.splits)

lemma run_server: "(table_step lib)\<^sup>*\<^sup>* c0 c \<Longrightarrow> tables_ok lib c0 \<Longrightarrow> Server (fst c) = Server (fst c0)"
proof (induction rule: rtranclp_induct)
  case (step c c')
  then show ?case using step_server [OF step.hyps(2) table_run.run_inv [OF step.hyps(1)]] by simp
qed simp

lemma thread_knows:
  "tables_ok lib (s, mu, ths) \<Longrightarrow> i < length ths \<Longrightarrow> knows lib s (job (ths ! i)) (place (ths ! i))"
  by (simp add: tables_ok_def threads_know_def)

lemma lookups_seen:
  assumes "(table_step lib)\<^sup>*\<^sup>* c0 c" "tables_ok lib c0" "length (snd (snd c0)) \<le> i" "i < length (snd (snd c))"
    and "job (snd (snd c) ! i) = Matches msg addr"
    and k: "k = (lookup_addr lib msg addr (fst c0), Sequence lib msg)"
  shows "match_seen lib c0 msg k c (place (snd (snd c) ! i))"
  using assms(1-5)
proof (rule thread_history)
  show "match_seen lib c0 msg k c (job_start (Matches msg addr))" for c by (simp add: match_seen_def)
next
  fix s mu ths c'
  assume run: "(table_step lib)\<^sup>*\<^sup>* c0 (s, mu, ths)" "tables_ok lib (s, mu, ths)" "table_step lib (s, mu, ths) c'"
    and i: "i < length ths" "job (ths ! i) = Matches msg addr"
    and seen: "match_seen lib c0 msg k (s, mu, ths) (place (ths ! i))"
  have "fst k = lookup_addr lib msg addr s"
    using run_server [OF run(1) assms(2)] k by (simp add: lookup_addr_def)
  then show "match_seen lib c0 msg k c' (place (ths ! i))"
    using match_seen_later [OF run _ _ seen] thread_knows [OF run(2) i(1)] i(2) by simp
next
  fix s mu ths s' mu' ths' pc
  assume run: "(table_step lib)\<^sup>*\<^sup>* c0 (s, mu, ths)" "tables_ok lib (s, mu, ths)"
      "table_step lib (s, mu, ths) (s', mu', ths')"
    and i: "i < length ths" "job (ths ! i) = Matches msg addr"
    and step: "job_step lib i (Matches msg addr) (place (ths ! i)) mu s = Some (pc, mu', s')"
    and seen: "match_seen lib c0 msg k (s, mu, ths) (place (ths ! i))"
  have "k = (lookup_addr lib msg addr s, Sequence lib msg)"
    using run_server [OF run(1) assms(2)] k by (simp add: lookup_addr_def)
  then show "match_seen lib c0 msg k (s', mu', ths') pc"
    using match_seen_step [OF run _ _ seen] thread_knows [OF run(2) i(1)] i(2) step by auto
qed

section \<open>How long an entry stays\<close>

text \<open>
  The entry of a registered transaction is in the map, or its own end has taken it out, or a release
  of its host has begun.
\<close>

definition stays :: "('m, 'w) tables_sys \<Rightarrow> tx_ref \<Rightarrow> Transaction \<Rightarrow> bool" where
  "stays c x tx \<longleftrightarrow>
     held (fst c) (tx_entry tx) = Some x
     \<or> (\<exists>th \<in> set (snd (snd c)). job th = Removes x tx \<and> place th = Finished None)
     \<or> (\<exists>th \<in> set (snd (snd c)). \<exists>ord ip. job th = Releases ord ip \<and> SplitHost (ConsumerAddr tx) = Some ip
          \<and> place th \<noteq> AwaitsLock)"

lemma never_awaits: "job_step lib i j pc mu s = Some (pc', mu', s') \<Longrightarrow> pc' \<noteq> AwaitsLock"
proof (cases j)
  case (Registers x tx)
  assume "job_step lib i j pc mu s = Some (pc', mu', s')"
  with Registers show ?thesis
    by (cases "(i, x, tx, pc, mu, s)" rule: put_step.cases) (auto simp: split_beta Let_def split: if_splits)
next
  case (Releases ord ip)
  assume "job_step lib i j pc mu s = Some (pc', mu', s')"
  with Releases show ?thesis
    by (cases "(i, ord, ip, pc, mu, s)" rule: release_step.cases) (auto split: if_splits)
next
  case (Removes x tx)
  assume "job_step lib i j pc mu s = Some (pc', mu', s')"
  with Removes show ?thesis
    by (cases "(x, tx, pc, s)" rule: remove_step.cases) (auto simp: split_beta Let_def split: if_splits)
next
  case (Matches msg addr)
  assume "job_step lib i j pc mu s = Some (pc', mu', s')"
  with Matches show ?thesis
    by (cases "(lib, msg, addr, pc, s)" rule: match_step.cases)
      (auto simp: unmatched_def split: if_splits option.splits)
qed

lemma same_tx:
  assumes "owners (s, mu, ths)" "i < length ths" "job (ths ! i) = Registers x tx"
    and "th \<in> set ths" "job th = Removes x tx'"
  shows "tx' = tx"
proof -
  have "\<lparr>job = Registers x tx', place = Finished None\<rparr> \<in> set ths"
    using assms(1,4,5) unfolding owners_def prod.case by blast
  then obtain l where "l < length ths" "ths ! l = \<lparr>job = Registers x tx', place = Finished None\<rparr>"
    by (auto simp: in_set_conv_nth)
  with ownersD(2) [OF assms(1-3), of l tx'] assms(3) show ?thesis by auto
qed

lemma stays_step:
  assumes "table_step lib (s, mu, ths) (s', mu', ths')" "tables_ok lib (s, mu, ths)"
    and "i < length ths" "job (ths ! i) = Registers x tx" "stays (s, mu, ths) x tx"
  shows "stays (s', mu', ths') x tx"
proof -
  let ?k = "tx_entry tx"
  from step_cases [OF assms(1,2)] consider
    (comes) "arrives (s, mu, ths) (s', mu', ths')" | (runs) j ef where "moves lib j ef (s, mu, ths) (s', mu', ths')" by blast
  then show ?thesis
  proof cases
    case comes
    then obtain n where n: "ths' = ths @ [started n]" "touches Nothing s s'" by (auto simp: arrives_def)
    have "held s' = held s" using touches_held [OF n(2)] assms(2) by (simp add: tables_ok_def)
    with assms(5) n(1) show ?thesis by (auto simp: stays_def)
  next
    case runs
    then obtain pc where m: "j < length ths" "ths' = ths[j := (ths ! j)\<lparr>place := pc\<rparr>]" "pc \<noteq> AwaitsLock"
      and ef: "touches ef s s'" "causes (job (ths ! j)) (place (ths ! j)) pc ef"
      by (auto simp: moves_def step_effect_def simp del: touches.simps dest: never_awaits)
    have mover: "(ths ! j)\<lparr>place := pc\<rparr> \<in> set ths'" using m by (auto simp: set_update_memI)
    have held: "held s' = seen_effect ef s (held s)" using touches_held [OF ef(1)] assms(2) by (simp add: tables_ok_def)
    from assms(5) consider (in_map) "held s ?k = Some x"
      | (ended) "\<lparr>job = Removes x tx, place = Finished None\<rparr> \<in> set ths"
      | (released) l ord ip where "l < length ths" "job (ths ! l) = Releases ord ip"
          "SplitHost (ConsumerAddr tx) = Some ip" "place (ths ! l) \<noteq> AwaitsLock"
      unfolding stays_def by (fastforce simp: in_set_conv_nth)
    then show ?thesis
    proof cases
      case ended
      from moves_finished [OF runs this] show ?thesis by (force simp: stays_def)
    next
      case released
      then have "l < length ths'" "job (ths' ! l) = Releases ord ip" "place (ths' ! l) \<noteq> AwaitsLock"
        using m by (auto simp: nth_list_update)
      moreover from this(1) have "ths' ! l \<in> set ths'" by (rule nth_mem)
      ultimately show ?thesis using released(3) by (auto simp: stays_def)
    next
      case in_map
      show ?thesis
      proof (cases ef)
        case (Entered a q y)
        then have "held s (a, q) = None" using ef(1) by (auto simp: held_def TxTable_Load_def)
        with in_map held Entered show ?thesis by (auto simp: stays_def)
      next
        case (Detached a)
        with ef(2) obtain ord ip where "job (ths ! j) = Releases ord ip" "SplitHost a = Some ip" by auto
        with mover m(3) have "a = ConsumerAddr tx \<Longrightarrow> ?thesis" by (force simp: stays_def)
        moreover have "a \<noteq> ConsumerAddr tx \<Longrightarrow> ?thesis"
          using in_map held Detached by (simp add: stays_def tx_entry_def map_keep_def)
        ultimately show ?thesis by blast
      next
        case (Left a t q y)
        show ?thesis
        proof (cases "consumers s a = Some t \<and> (a, q) = ?k")
          case True
          with Left ef(1) in_map have "y = x" by (auto simp: held_def TxTable_Load_def tx_entry_def)
          with Left ef(2) obtain tx' where j: "job (ths ! j) = Removes x tx'" "pc = Finished None" by auto
          then have "tx' = tx" using same_tx [OF _ assms(3,4), of s mu "ths ! j"] assms(2) m(1) by (simp add: tables_ok_def)
          with j mover show ?thesis by (force simp: stays_def)
        next
          case False
          with in_map held Left show ?thesis by (auto simp: stays_def)
        qed
      qed (use in_map held in \<open>simp_all add: stays_def\<close>)
    qed
  qed
qed

lemma registered_stay:
  assumes "(table_step lib)\<^sup>*\<^sup>* c0 c" "tables_ok lib c0" "length (snd (snd c0)) \<le> i" "i < length (snd (snd c))"
    and "job (snd (snd c) ! i) = Registers x tx"
  shows "has_put (place (snd (snd c) ! i)) \<longrightarrow> stays c x tx"
  using assms
proof (rule thread_history [where Q = "\<lambda>c pc. has_put pc \<longrightarrow> stays c x tx"])
  fix s mu ths s' mu' ths' pc
  assume ok: "tables_ok lib (s, mu, ths)" and step: "table_step lib (s, mu, ths) (s', mu', ths')"
    and i: "i < length ths" "job (ths ! i) = Registers x tx"
    and own: "job_step lib i (Registers x tx) (place (ths ! i)) mu s = Some (pc, mu', s')"
    and before: "has_put (place (ths ! i)) \<longrightarrow> stays (s, mu, ths) x tx"
  have know: "knows lib s (Registers x tx) (place (ths ! i))" "tx_inv s"
    using thread_knows [OF ok i(1)] i(2) ok by (simp_all add: tables_ok_def)
  show "has_put pc \<longrightarrow> stays (s', mu', ths') x tx"
  proof (cases "place (ths ! i)")
    case (Inserts n t)
    with know have "consumers s (ConsumerAddr tx) = Some t" by simp
    from insert_step [OF know(2) this, of i x n mu pc mu' s'] own Inserts show ?thesis
      by (auto simp: stays_def split: if_splits)
  next
    case (Checks n t)
    with before stays_step [OF step ok i] show ?thesis by simp
  next
    case (Unlocks e)
    with before own stays_step [OF step ok i] show ?thesis by auto
  qed (use own know in \<open>auto simp: putAttempts_def numeral_3_eq_3 split_beta split: if_splits\<close>)
qed (use stays_step in \<open>fastforce+\<close>)

section \<open>Every thread comes to its end\<close>

fun left_over :: "tx_pc \<Rightarrow> nat" where
  "left_over AwaitsLock = 0"
| "left_over (LooksUp n) = 3 * n + 2"
| "left_over (Inserts n t) = 3 * n + 4"
| "left_over (Checks n t) = 3 * n + 3"
| "left_over (Clears keys) = length keys + 2"
| "left_over (Unlocks e) = 1"
| "left_over LoadsTable = 2"
| "left_over (DeletesOwn t) = 1"
| "left_over SeesTable = 5"
| "left_over TakesTable = 4"
| "left_over (SeesNumber t) = 3"
| "left_over (TakesNumber t) = 2"
| "left_over (Posts x) = 1"
| "left_over (Finished e) = 0"
| "left_over NilDereference = 0"

lemma job_progress:
  "job_step lib i j pc mu s = Some (pc', mu', s') \<Longrightarrow> pc = AwaitsLock \<or> left_over pc' < left_over pc"
proof (cases j)
  case (Registers x tx)
  assume "job_step lib i j pc mu s = Some (pc', mu', s')"
  with Registers show ?thesis
    by (cases "(i, x, tx, pc, mu, s)" rule: put_step.cases) (auto simp: split_beta Let_def split: if_splits)
next
  case (Releases ord ip)
  assume "job_step lib i j pc mu s = Some (pc', mu', s')"
  with Releases show ?thesis
    by (cases "(i, ord, ip, pc, mu, s)" rule: release_step.cases) (auto split: if_splits)
next
  case (Removes x tx)
  assume "job_step lib i j pc mu s = Some (pc', mu', s')"
  with Removes show ?thesis
    by (cases "(x, tx, pc, s)" rule: remove_step.cases) (auto simp: split_beta Let_def split: if_splits)
next
  case (Matches msg addr)
  assume "job_step lib i j pc mu s = Some (pc', mu', s')"
  with Matches show ?thesis
    by (cases "(lib, msg, addr, pc, s)" rule: match_step.cases)
      (auto simp: unmatched_def split: if_splits option.splits)
qed

text \<open>Only the lock makes a thread wait.\<close>

lemma job_can_go:
  assumes "knows lib s j pc" "Server s \<noteq> None" "\<not> over pc" "pc = AwaitsLock \<Longrightarrow> mu = None"
  shows "job_step lib i j pc mu s \<noteq> None"
proof (cases j)
  case (Registers x tx)
  with assms show ?thesis by (cases "(i, x, tx, pc, mu, s)" rule: put_step.cases) (auto simp: split_beta Let_def putAttempts_def numeral_3_eq_3)
next
  case (Releases ord ip)
  with assms show ?thesis by (cases "(i, ord, ip, pc, mu, s)" rule: release_step.cases) auto
next
  case (Removes x tx)
  with assms show ?thesis by (cases "(x, tx, pc, s)" rule: remove_step.cases) (auto simp: split_beta Let_def)
next
  case (Matches msg addr)
  with assms show ?thesis by (cases "(lib, msg, addr, pc, s)" rule: match_step.cases) (auto split: option.splits)
qed

lemma some_thread_goes:
  assumes "tables_ok lib (s, mu, ths)" "running ths" "\<exists>th \<in> set ths. \<not> over (place th)"
  shows "\<exists>i pc mu' s'. i < length ths \<and> job_step lib i (job (ths ! i)) (place (ths ! i)) mu s = Some (pc, mu', s')"
proof -
  have "\<exists>i < length ths. \<not> over (place (ths ! i)) \<and> (place (ths ! i) = AwaitsLock \<longrightarrow> mu = None)"
  proof (cases mu)
    case None
    with assms(3) show ?thesis by (auto simp: in_set_conv_nth)
  next
    case (Some i)
    with assms(1) have "i < length ths" "locked (place (ths ! i))" by (auto simp: tables_ok_def threads_know_def)
    then show ?thesis by (cases "place (ths ! i)") auto
  qed
  then obtain i where i: "i < length ths" "\<not> over (place (ths ! i))" "place (ths ! i) = AwaitsLock \<longrightarrow> mu = None" by blast
  then have "job_step lib i (job (ths ! i)) (place (ths ! i)) mu s \<noteq> None"
    using job_can_go [OF thread_knows [OF assms(1) i(1)]] assms(1) by (simp add: tables_ok_def)
  with i(1) show ?thesis by (metis not_None_eq prod_cases3)
qed

definition awaiting :: "'m tx_thread list \<Rightarrow> nat" where
  "awaiting ths = (\<Sum>th\<leftarrow>ths. if place th = AwaitsLock then 1 else 0)"

definition to_do :: "'m tx_thread list \<Rightarrow> nat" where
  "to_do ths = (\<Sum>th\<leftarrow>ths. left_over (place th))"

lemma sum_update:
  fixes f :: "'a \<Rightarrow> nat"
  assumes "i < length xs"
  shows "(\<Sum>x\<leftarrow>xs[i := y]. f x) + f (xs ! i) = (\<Sum>x\<leftarrow>xs. f x) + f y"
  using assms
proof (induction xs arbitrary: i)
  case (Cons x xs)
  then show ?case by (cases i) auto
qed simp

lemma all_finish:
  assumes "tables_ok lib (s, mu, ths)"
  shows "\<exists>s' mu' ths'. (table_step lib)\<^sup>*\<^sup>* (s, mu, ths) (s', mu', ths') \<and> length ths' = length ths
    \<and> ((\<forall>th \<in> set ths'. over (place th)) \<or> \<not> running ths')"
  using assms
proof (induction "(awaiting ths, to_do ths)" arbitrary: s mu ths
    rule: wf_induct_rule [OF wf_lex_prod [OF wf_less_than wf_less_than]])
  case less: (1 ths s mu)
  show ?case
  proof (cases "running ths \<and> (\<exists>th \<in> set ths. \<not> over (place th))")
    case False
    then show ?thesis by (metis rtranclp.rtrancl_refl)
  next
    case True
    then obtain i pc mu' s' where i: "i < length ths"
      and go: "job_step lib i (job (ths ! i)) (place (ths ! i)) mu s = Some (pc, mu', s')"
      using some_thread_goes [OF less.prems] by blast
    let ?ths = "ths[i := (ths ! i)\<lparr>place := pc\<rparr>]"
    have step: "table_step lib (s, mu, ths) (s', mu', ?ths)" by (rule table_step.runs) (use True i go in simp_all)
    have "awaiting ?ths < awaiting ths \<or> awaiting ?ths = awaiting ths \<and> to_do ?ths < to_do ths"
      using sum_update [OF i, of "\<lambda>th. if place th = AwaitsLock then 1 else 0" "(ths ! i)\<lparr>place := pc\<rparr>"]
        sum_update [OF i, of "\<lambda>th. left_over (place th)" "(ths ! i)\<lparr>place := pc\<rparr>"]
        never_awaits [OF go] job_progress [OF go]
      by (auto simp: awaiting_def to_do_def split: if_splits)
    with less.hyps [of ?ths s' mu'] step_ok [OF step less.prems] obtain s2 mu2 ths2 where
      "(table_step lib)\<^sup>*\<^sup>* (s', mu', ?ths) (s2, mu2, ths2)" "length ths2 = length ths"
      "(\<forall>th \<in> set ths2. over (place th)) \<or> \<not> running ths2" by auto
    with step show ?thesis by (meson converse_rtranclp_into_rtranclp)
  qed
qed

section \<open>Runs of one thread\<close>

lemma alone_runs:
  assumes "job_alone n lib i j (pc, mu, s) = (pc', mu', s')" "running ths" "i < length ths"
    and "ths ! i = \<lparr>job = j, place = pc\<rparr>"
  shows "(table_step lib)\<^sup>*\<^sup>* (s, mu, ths) (s', mu', ths[i := \<lparr>job = j, place = pc'\<rparr>])"
  using assms
proof (induction n arbitrary: pc mu s ths)
  case 0
  then show ?case by (metis job_alone.simps(1) list_update_id prod.inject rtranclp.rtrancl_refl)
next
  case (Suc n)
  show ?case
  proof (cases "job_step lib i j pc mu s")
    case None
    with Suc.prems(1) have "pc' = pc" "mu' = mu" "s' = s" by auto
    moreover have "ths[i := \<lparr>job = j, place = pc\<rparr>] = ths" using Suc.prems(4) by (metis list_update_id)
    ultimately show ?thesis by simp
  next
    case (Some c)
    obtain pc1 mu1 s1 where c: "c = (pc1, mu1, s1)" by (metis prod_cases3)
    let ?ths = "ths[i := \<lparr>job = j, place = pc1\<rparr>]"
    have step: "table_step lib (s, mu, ths) (s1, mu1, ?ths)"
      using table_step.runs [of ths i lib mu s pc1 mu1 s1] Suc.prems Some c by simp
    have rest: "job_alone n lib i j (pc1, mu1, s1) = (pc', mu', s')" using Suc.prems(1) Some c by simp
    show ?thesis
    proof (cases "pc1 = NilDereference")
      case True
      then have "job_alone n lib i j (pc1, mu1, s1) = (pc1, mu1, s1)"
        by (cases n) (simp_all add: finished_stays)
      with rest step show ?thesis by (auto intro: r_into_rtranclp)
    next
      case False
      then have "running ?ths" using Suc.prems(2,3) by (auto simp: running_def dest!: set_update_subset_insert [THEN subsetD])
      from Suc.IH [OF rest this] Suc.prems(3) have "(table_step lib)\<^sup>*\<^sup>* (s1, mu1, ?ths) (s', mu', ths[i := \<lparr>job = j, place = pc'\<rparr>])"
        by simp
      with step show ?thesis by (rule converse_rtranclp_into_rtranclp)
    qed
  qed
qed

text \<open>A message is sent, and nothing else happens until it is registered.\<close>

lemma registering_run:
  fixes lib :: "'m pfcp_lib"
  assumes "tx_inv s" "held s (tx_entry tx) = None"
  obtains s' where "(table_step lib)\<^sup>*\<^sup>* (s, None, []) (s', None, [\<lparr>job = Registers (next_ref s) tx, place = Finished None\<rparr>])"
    "tx_inv s'" "held s' (tx_entry tx) = Some (next_ref s)" "Server s' = Server s"
proof -
  let ?x = "next_ref s" and ?j = "Registers (next_ref s) tx :: 'm tx_job"
  let ?s = "s\<lparr>transactions := (transactions s)(?x \<mapsto> tx), next_ref := Suc ?x\<rparr>"
  let ?s' = "snd (PutTransaction ?x tx ?s)"
  have inv: "tx_inv ?s" by (rule tx_inv_alloc [OF assms(1)])
  have free: "held ?s (ConsumerAddr tx, SequenceNumber tx) = None" using assms(2) by (simp add: tx_entry_def)
  note put = put_refines(1) [OF inv free, of ?x] put_refines(3) [OF inv, of ?x tx]
  have come: "table_step lib (s, None, []) (?s, None, [started ?j])"
    using table_step.sends [of "[]" lib s None tx] by (simp add: running_def)
  have "job_alone 12 lib 0 ?j (AwaitsLock, None, ?s) = (Finished None, None, ?s')"
    using put(1) by (simp only: register_alone)
  from alone_runs [OF this, of "[started ?j]"]
  have "(table_step lib)\<^sup>*\<^sup>* (?s, None, [started ?j]) (?s', None, [\<lparr>job = ?j, place = Finished None\<rparr>])"
    by (simp add: started_def running_def)
  with come have run: "(table_step lib)\<^sup>*\<^sup>* (s, None, []) (?s', None, [\<lparr>job = ?j, place = Finished None\<rparr>])"
    by (rule converse_rtranclp_into_rtranclp)
  show thesis
    by (rule that [OF run]) (use put put_frame(1) [OF inv] in \<open>simp_all add: tx_entry_def\<close>)
qed

text \<open>A lookup that has seen its transaction, and has not taken it yet.\<close>

lemma lookup_on_its_way:
  assumes "consumers s a = Some t" "tables s t = Some m" "m (Sequence lib msg) = Some x" "Server s \<noteq> None"
    and "a = lookup_addr lib msg addr s"
  shows "job_alone 3 lib i (Matches msg addr) (SeesTable, None, s) = (TakesNumber (Some t), None, s)"
  using assms by (auto simp: numeral_3_eq_3 ConsumerTable_Load_def table_at_def TxTable_Load_def)

lemma lookup_overtaken:
  assumes "tables s t = Some m" "m (Sequence lib msg) = None" "IsResponse lib msg"
  shows "job_alone 2 lib i (Matches msg addr) (TakesNumber (Some t), None, s) = (NilDereference, None, s)"
  using assms by (simp add: numeral_2_eq_2 table_at_def TxTable_Load_def)

lemma removal_empties:
  assumes "consumers s (ConsumerAddr tx) = Some t" "tables s t = Some m" "m (SequenceNumber tx) = Some x" "Server s \<noteq> None"
  obtains s' where "job_alone 2 lib i (Removes x tx) (LoadsTable, None, s) = (Finished None, None, s')"
    "tables s' t = Some (m(SequenceNumber tx := None))"
  using assms by (auto simp: numeral_2_eq_2 ConsumerTable_Load_def TxTable_DeleteIf_def)

lemma overtaken_run:
  fixes lib :: "'m pfcp_lib"
  assumes "tx_inv s" "Server s = Some srv" "IsResponse lib msg" "held s (tx_entry tx) = None"
    and "ConsumerAddr tx = UDPAddr_String (Addr srv)" "SequenceNumber tx = Sequence lib msg"
  shows "\<exists>s'. (table_step lib)\<^sup>*\<^sup>* (s, None, []) (s', None,
    [\<lparr>job = Registers (next_ref s) tx, place = Finished None\<rparr>, \<lparr>job = Matches msg addr, place = NilDereference\<rparr>,
     \<lparr>job = Removes (next_ref s) tx, place = Finished None\<rparr>])"
proof -
  let ?x = "next_ref s" and ?m = "Matches msg addr" and ?r = "Removes (next_ref s) tx :: 'm tx_job"
  let ?put = "\<lparr>job = Registers (next_ref s) tx, place = Finished None\<rparr>"
  obtain s1 where s1: "(table_step lib)\<^sup>*\<^sup>* (s, None, []) (s1, None, [?put])"
    "tx_inv s1" "held s1 (tx_entry tx) = Some ?x" "Server s1 = Server s"
    by (rule registering_run [OF assms(1,4)])
  then obtain t where t: "consumers s1 (ConsumerAddr tx) = Some t" by (auto simp: held_def tx_entry_def split: option.splits)
  obtain m where m: "tables s1 t = Some m" using tx_invD(2) [OF s1(2) t] by blast
  have x: "m (SequenceNumber tx) = Some ?x" using s1(3) t m by (simp add: held_def tx_entry_def TxTable_Load_def)
  have up: "Server s1 \<noteq> None" using s1(4) assms(2) by simp
  have here: "ConsumerAddr tx = lookup_addr lib msg addr s1" using assms s1(4) by (simp add: lookup_addr_def)
  have a: "table_step lib (s1, None, [?put]) (s1, None, [?put, started ?m])"
    using table_step.reads [of "[?put]" lib msg s1 None addr] assms(3) by (simp add: running_def)
  have "job_alone 3 lib 1 ?m (SeesTable, None, s1) = (TakesNumber (Some t), None, s1)"
    by (rule lookup_on_its_way [OF t m _ up here]) (use x assms(6) in simp)
  from alone_runs [OF this, of "[?put, started ?m]"]
  have b: "(table_step lib)\<^sup>*\<^sup>* (s1, None, [?put, started ?m])
      (s1, None, [?put, \<lparr>job = ?m, place = TakesNumber (Some t)\<rparr>])"
    by (simp add: started_def running_def)
  let ?two = "[?put, \<lparr>job = ?m, place = TakesNumber (Some t)\<rparr>]"
  have c: "table_step lib (s1, None, ?two) (s1, None, ?two @ [started ?r])"
    by (rule table_step.ends) (simp_all add: running_def)
  obtain s2 where s2: "job_alone 2 lib 2 ?r (LoadsTable, None, s1) = (Finished None, None, s2)"
    "tables s2 t = Some (m(SequenceNumber tx := None))"
    by (rule removal_empties [OF t m x up])
  from alone_runs [OF s2(1), of "?two @ [started ?r]"]
  have d: "(table_step lib)\<^sup>*\<^sup>* (s1, None, ?two @ [started ?r]) (s2, None, ?two @ [\<lparr>job = ?r, place = Finished None\<rparr>])"
    by (simp add: started_def running_def)
  let ?last = "[?put, \<lparr>job = ?m, place = NilDereference\<rparr>, \<lparr>job = ?r, place = Finished None\<rparr>]"
  have "job_alone 2 lib 1 ?m (TakesNumber (Some t), None, s2) = (NilDereference, None, s2)"
    by (rule lookup_overtaken [OF s2(2) _ assms(3)]) (simp add: assms(6))
  from alone_runs [OF this, of "?two @ [\<lparr>job = ?r, place = Finished None\<rparr>]"]
  have e: "(table_step lib)\<^sup>*\<^sup>* (s2, None, ?two @ [\<lparr>job = ?r, place = Finished None\<rparr>])
      (s2, None, ?last)"
    by (simp add: running_def)
  have "(table_step lib)\<^sup>*\<^sup>* (s, None, []) (s2, None, ?last)"
    using s1(1) a b c d e by (meson rtranclp.rtrancl_into_rtrancl rtranclp_trans)
  then show ?thesis by blast
qed

lemma start_ok: "tx_inv s \<Longrightarrow> Server s \<noteq> None \<Longrightarrow> tables_ok lib (s, None, [])"
  by (simp add: tables_ok_def threads_know_def owners_def)

section \<open>Properties\<close>

text \<open>
  Property C4. A response that arrives while its transaction comes to its end can end the process.
  The lookup asks whether there is a transaction under the number and then asks for it again; when
  the transaction is removed in between, the second answer is nil and no error is
  returned, so the read loop dereferences nil, and nothing happens after that.
\<close>

theorem late_response_ends_process:
  fixes lib :: "'m pfcp_lib"
  assumes "tx_inv s" "Server s = Some srv" "IsResponse lib msg" "held s (tx_entry tx) = None"
    and "ConsumerAddr tx = UDPAddr_String (Addr srv)" "SequenceNumber tx = Sequence lib msg"
  shows "\<exists>s' ths. (table_step lib)\<^sup>*\<^sup>* (s, None, []) (s', None, ths)
    \<and> \<lparr>job = Matches msg addr, place = NilDereference\<rparr> \<in> set ths \<and> (\<nexists>c. table_step lib (s', None, ths) c)"
proof -
  obtain s' where "(table_step lib)\<^sup>*\<^sup>* (s, None, []) (s', None,
    [\<lparr>job = Registers (next_ref s) tx, place = Finished None\<rparr>, \<lparr>job = Matches msg addr, place = NilDereference\<rparr>,
     \<lparr>job = Removes (next_ref s) tx, place = Finished None\<rparr>])" 
    using overtaken_run [OF assms] by blast
  moreover have "\<not> table_step lib (s', None,
    [\<lparr>job = Registers (next_ref s) tx, place = Finished None\<rparr>, \<lparr>job = Matches msg addr, place = NilDereference\<rparr>,
     \<lparr>job = Removes (next_ref s) tx, place = Finished None\<rparr>]) c" for c by (auto elim: table_stepE simp: running_def)
  ultimately show ?thesis by fastforce
qed

theorem late_response_ends_process_witness:
  "\<exists>s' ths. (table_step wire_lib)\<^sup>*\<^sup>* (tx_init, None, []) (s', None, ths)
    \<and> \<lparr>job = Matches (std_rsp 7) tx_addr, place = NilDereference\<rparr> \<in> set ths
    \<and> (\<nexists>c. table_step wire_lib (s', None, ths) c)"
  by (rule late_response_ends_process [OF tx_init_inv(1) tx_init_server(1) _ tx_init_held(1), of _ _ "std_tx tx_addr tx_text 7"])
    (simp_all add: wire_lib_def plain_lib_def IsResponse_def std_rsp_def tx_addr_text)

text \<open>
  Property C15. A registration takes effect at one moment, however it is interleaved with releases, ends
  and lookups. When it succeeds there was a step in which its entry, free before, was made; when it is
  refused the number was taken at some moment while it ran. It never finds its table detached, so
  it is not refused for another reason.
\<close>

theorem registration_is_atomic:
  fixes lib :: "'m pfcp_lib"
  assumes "tx_inv s" "Server s \<noteq> None" "(table_step lib)\<^sup>*\<^sup>* (s, None, []) c0" "(table_step lib)\<^sup>*\<^sup>* c0 (s', mu, ths)"
    and "length (snd (snd c0)) \<le> i" "i < length ths" "ths ! i = \<lparr>job = Registers x tx, place = Finished e\<rparr>"
  shows "if e = None then entered lib c0 (s', mu, ths) x tx
    else e = Some (ErrDuplicateSequence (SequenceNumber tx))
      \<and> once (table_step lib) c0 (s', mu, ths) (\<lambda>c. held (fst c) (tx_entry tx) \<noteq> None)"
proof -
  have ok: "tables_ok lib c0" by (rule table_run.run_inv [OF assms(3) start_ok [OF assms(1,2)]])
  then have "tables_ok lib (s', mu, ths)" by (rule table_run.run_inv [OF assms(4)])
  from thread_knows [OF this assms(6)] assms(7) have "put_result tx e" by simp
  moreover have "put_seen lib c0 (s', mu, ths) x tx (Finished e)"
    using registrations_seen [OF assms(4) ok, of i x tx] assms(5-7) by simp
  ultimately show ?thesis by (auto simp: put_result_def put_seen_def)
qed

theorem registration_is_atomic_witness:
  "\<exists>s'. entered wire_lib (tx_init, None, [])
     (s', None, [\<lparr>job = Registers 0 (std_tx tx_addr tx_text 7), place = Finished None\<rparr>]) 0 (std_tx tx_addr tx_text 7)"
proof -
  let ?tx = "std_tx tx_addr tx_text 7"
  obtain s' where "(table_step wire_lib)\<^sup>*\<^sup>* (tx_init, None, [])
      (s', None, [\<lparr>job = Registers (next_ref tx_init) ?tx, place = Finished None\<rparr>])"
    by (rule registering_run [OF tx_init_inv(1) tx_init_held(1)])
  then have "(table_step wire_lib)\<^sup>*\<^sup>* (tx_init, None, []) (s', None, [\<lparr>job = Registers 0 ?tx, place = Finished None\<rparr>])"
    by (simp only: tx_init_server(2))
  from registration_is_atomic [OF tx_init_inv(1) _ rtranclp.rtrancl_refl this, of 0 0 ?tx None] tx_init_server(1)
  show ?thesis by (intro exI [of _ s']) simp
qed

text \<open>
  Property C16. A lookup takes effect at one moment since its message was read. When it finds a
  transaction, the tables held one under its number at some moment; when it finds none, there was a moment
  at which they held none. Only a lookup that met both, one after the other, dereferences
  nil, and it is then the lookup of a response.
\<close>

theorem lookup_is_atomic:
  fixes lib :: "'m pfcp_lib"
  assumes "tx_inv s" "Server s \<noteq> None" "(table_step lib)\<^sup>*\<^sup>* (s, None, []) c0" "(table_step lib)\<^sup>*\<^sup>* c0 (s', mu, ths)"
    and "length (snd (snd c0)) \<le> i" "i < length ths" "ths ! i = \<lparr>job = Matches msg addr, place = pc\<rparr>" "over pc"
    and "k = (lookup_addr lib msg addr s, Sequence lib msg)"
  shows "case pc of
      NilDereference \<Rightarrow> IsResponse lib msg \<and> saw lib c0 (s', mu, ths) k None \<and> (\<exists>x. saw lib c0 (s', mu, ths) k (Some x))
    | Finished e \<Rightarrow> if lookup_result lib msg e then \<exists>x. saw lib c0 (s', mu, ths) k (Some x) else saw lib c0 (s', mu, ths) k None"
proof -
  have ok: "tables_ok lib c0" by (rule table_run.run_inv [OF assms(3) start_ok [OF assms(1,2)]])
  then have "tables_ok lib (s', mu, ths)" by (rule table_run.run_inv [OF assms(4)])
  from thread_knows [OF this assms(6)] assms(7) have know: "knows lib s' (Matches msg addr) pc" by simp
  have "lookup_addr lib msg addr (fst c0) = lookup_addr lib msg addr s"
    using run_server [OF assms(3) start_ok [OF assms(1,2)]] by (simp add: lookup_addr_def)
  then have "match_seen lib c0 msg k (s', mu, ths) pc"
    using lookups_seen [OF assms(4) ok, of i msg addr k] assms(5-9) by simp
  with know assms(8) show ?thesis by (cases pc) (auto simp: match_seen_def)
qed

theorem lookup_is_atomic_witness:
  "\<exists>c. saw wire_lib (tx_init, None, []) c (tx_text, 7) None \<and> (\<exists>x. saw wire_lib (tx_init, None, []) c (tx_text, 7) (Some x))"
proof -
  let ?tx = "std_tx tx_addr tx_text 7" and ?msg = "std_rsp 7"
  have msg: "IsResponse wire_lib ?msg" "Sequence wire_lib ?msg = 7"
    by (simp_all add: wire_lib_def plain_lib_def IsResponse_def std_rsp_def)
  obtain s' where run: "(table_step wire_lib)\<^sup>*\<^sup>* (tx_init, None, []) (s', None,
    [\<lparr>job = Registers (next_ref tx_init) ?tx, place = Finished None\<rparr>, \<lparr>job = Matches ?msg tx_addr, place = NilDereference\<rparr>,
     \<lparr>job = Removes (next_ref tx_init) ?tx, place = Finished None\<rparr>])"
    using overtaken_run [OF tx_init_inv(1) tx_init_server(1) msg(1) tx_init_held(1), of ?tx tx_addr]
    by (auto simp: msg(2) tx_addr_text)
  have "lookup_addr wire_lib ?msg tx_addr tx_init = tx_text" by (simp add: lookup_addr_def msg(1) tx_init_server tx_addr_text)
  with lookup_is_atomic [OF tx_init_inv(1) _ rtranclp.rtrancl_refl run, of 1 ?msg tx_addr NilDereference "(tx_text, 7)"]
    tx_init_server(1) msg(2)
  show ?thesis by auto
qed

text \<open>
  Property C17. An entry stays until its own end or the release of its host. From the moment at which a
  registration has succeeded, lookups find its transaction, unless the goroutine of that same transaction
  has taken it out, or a release of the host it is registered for has begun: no other registration, no end
  of another transaction, no other release and no lookup takes it away.
\<close>

theorem registered_entry_stays:
  fixes lib :: "'m pfcp_lib"
  assumes "tx_inv s" "Server s \<noteq> None" "(table_step lib)\<^sup>*\<^sup>* (s, None, []) (s', mu, ths)"
    and "\<lparr>job = Registers x tx, place = Finished None\<rparr> \<in> set ths"
  shows "held s' (ConsumerAddr tx, SequenceNumber tx) = Some x
    \<or> (\<exists>th \<in> set ths. job th = Removes x tx \<and> place th = Finished None)
    \<or> (\<exists>th \<in> set ths. \<exists>ord ip. job th = Releases ord ip \<and> SplitHost (ConsumerAddr tx) = Some ip \<and> place th \<noteq> AwaitsLock)"
proof -
  obtain i where i: "i < length ths" "ths ! i = \<lparr>job = Registers x tx, place = Finished None\<rparr>"
    using assms(4) by (auto simp: in_set_conv_nth)
  with registered_stay [OF assms(3) start_ok [OF assms(1,2)], of i x tx] show ?thesis
    by (simp add: stays_def tx_entry_def)
qed

theorem registered_entry_stays_witness:
  "\<exists>s'. (table_step wire_lib)\<^sup>*\<^sup>* (tx_init, None, []) (s', None, [\<lparr>job = Registers 0 (std_tx tx_addr tx_text 7), place = Finished None\<rparr>])
    \<and> held s' (tx_text, 7) = Some 0"
proof -
  let ?tx = "std_tx tx_addr tx_text 7"
  obtain s' where "(table_step wire_lib)\<^sup>*\<^sup>* (tx_init, None, [])
      (s', None, [\<lparr>job = Registers (next_ref tx_init) ?tx, place = Finished None\<rparr>])"
    by (rule registering_run [OF tx_init_inv(1) tx_init_held(1)])
  then have run: "(table_step wire_lib)\<^sup>*\<^sup>* (tx_init, None, []) (s', None, [\<lparr>job = Registers 0 ?tx, place = Finished None\<rparr>])"
    by (simp only: tx_init_server(2))
  from registered_entry_stays [OF tx_init_inv(1) _ run, of 0 ?tx] tx_init_server(1)
  have "held s' (tx_text, 7) = Some 0" by simp
  with run show ?thesis by blast
qed

text \<open>
  Property C19. No thread is stuck on the tables. Wherever the threads are, the ones that have come can
  all finish without another coming, unless one of them ends the process on its way: the lock is
  always given back, whoever waits for it.
\<close>

theorem table_threads_finish:
  fixes lib :: "'m pfcp_lib"
  assumes "tx_inv s" "Server s \<noteq> None" "(table_step lib)\<^sup>*\<^sup>* (s, None, []) (s1, mu, ths)"
  shows "\<exists>s' mu' ths'. (table_step lib)\<^sup>*\<^sup>* (s1, mu, ths) (s', mu', ths') \<and> length ths' = length ths
    \<and> ((\<forall>th \<in> set ths'. over (place th)) \<or> \<not> running ths')"
  by (rule all_finish) (rule table_run.run_inv [OF assms(3) start_ok [OF assms(1,2)]])

theorem table_threads_finish_witness:
  "\<exists>s' mu' ths'. (table_step wire_lib)\<^sup>*\<^sup>* (tx_init, None, [started (Matches (std_req 7) tx_addr)]) (s', mu', ths')
    \<and> length ths' = 1 \<and> ((\<forall>th \<in> set ths'. over (place th)) \<or> \<not> running ths')"
proof -
  have "table_step wire_lib (tx_init, None, []) (tx_init, None, [started (Matches (std_req 7) tx_addr)])"
    using table_step.reads [of "[]" wire_lib "std_req 7" tx_init None tx_addr]
    by (simp add: running_def wire_lib_def plain_lib_def IsRequest_def std_req_def)
  from table_threads_finish [OF tx_init_inv(1) _ r_into_rtranclp [of "table_step wire_lib", OF this]] tx_init_server(1)
  show ?thesis by simp
qed

text \<open>
  With nothing in between, the steps of each thread are the operation it stands for: a
  registration, a release, the end of a transaction and the matching of a message that was read end
  with the result and the tables of the operations that the rest of the development takes as one step.
\<close>

lemma operations_are_their_steps:
  assumes "Server s = Some srv" "Conn srv \<noteq> None" "Parse lib (take PFCP_MAX_UDP_LEN bytes) = Some msg"
    and "IsRequest lib msg \<or> IsResponse lib msg"
  shows "job_alone 12 lib i (Registers x tx) (AwaitsLock, None, s)
      = (Finished (fst (PutTransaction x tx s)), None, snd (PutTransaction x tx s))
    \<and> (\<exists>n. job_alone n lib i (Releases ord ip) (AwaitsLock, None, s) = (Finished None, None, ForgetConsumer ord ip s))
    \<and> job_alone 2 lib i (Removes x tx) (LoadsTable, mu, s)
      = (Finished (fst (removeTransaction x tx s)), mu, snd (removeTransaction x tx s))
    \<and> job_alone 5 lib i (Matches msg addr) (SeesTable, mu, s)
      = (Finished (snd (fst (readPfcpMessage lib (Datagram bytes addr) s))), mu, snd (readPfcpMessage lib (Datagram bytes addr) s))"
  using register_alone forget_alone remove_alone match_alone [OF assms] by blast

end
