(* ===== verification/Upf_Nodes.thy ===== *)
theory Upf_Nodes
  imports Node_Id Pfcp_Message
begin

text \<open>
  The user planes an association was asked for (\<^verbatim>\<open>config/config.go\<close>). The table maps
  the octets of a node id to a pointer; a node is made once under its key and never removed, so
  the key stands for the pointer. A stored response of which nothing was stored yet is the zero
  value of its struct, whose header is nil.
\<close>

section \<open>State\<close>

datatype UPFStatus = NotAssociated | AssociatedSettingUp | AssociatedSetUpSuccess

record 'm UPNode =
  UpfName :: string
  LastAssoRsp :: "'m option"
  LastHBRsp :: "'m option"
  ANIP :: IP
  NodeID_of :: NodeID
  State :: UPFStatus

type_synonym 'm UPFs = "string \<rightharpoonup> 'm UPNode"

definition nodeValue :: "NodeID \<Rightarrow> string" where
  "nodeValue n = go_string (octets (NodeIdValue n))"

section \<open>Operations\<close>

definition IsUpfAssociated :: "NodeID \<Rightarrow> 'm UPFs \<Rightarrow> bool" where
  "IsUpfAssociated nodeId upfs =
     (case upfs (nodeValue nodeId) of
        Some upf \<Rightarrow> State upf = AssociatedSetUpSuccess
      | None \<Rightarrow> False)"

definition upf_matches :: "NodeID \<Rightarrow> 'm UPNode \<Rightarrow> bool" where
  "upf_matches nodeId upf \<longleftrightarrow>
     (if NodeIdType nodeId = NodeIdTypeIpv4Address
      then octets (To4 (ANIP upf)) = octets (NodeIdValue nodeId)
      else NodeIdType nodeId = NodeIdTypeFqdn \<and> NodeIdType (NodeID_of upf) = NodeIdTypeFqdn
        \<and> octets (NodeIdValue nodeId) = octets (NodeIdValue (NodeID_of upf)))"

definition GetUpfFromNodeId :: "string order \<Rightarrow> NodeID \<Rightarrow> 'm UPFs \<Rightarrow> string option" where
  "GetUpfFromNodeId ord nodeId upfs =
     range_find (\<lambda>k. case upfs k of
         Some upf \<Rightarrow> if upf_matches nodeId upf then Some k else None
       | None \<Rightarrow> None) (ord (dom upfs))"

definition InsertUpfNode ::
  "(string \<Rightarrow> dns_answer) \<Rightarrow> NodeID \<Rightarrow> dns_cache \<Rightarrow> 'm UPFs \<Rightarrow> dns_cache \<times> 'm UPFs" where
  "InsertUpfNode LookupHost nodeId cache upfs =
     (if upfs (nodeValue nodeId) \<noteq> None then (cache, upfs)
      else
        let (ip, cache) = ResolveNodeIdToIp LookupHost nodeId cache;
            upf = \<lparr>UpfName = nodeValue nodeId, LastAssoRsp = None, LastHBRsp = None, ANIP = ip,
              NodeID_of = nodeId, State = NotAssociated\<rparr>
        in (cache, upfs(nodeValue nodeId \<mapsto> upf)))"

definition update_node :: "string \<Rightarrow> ('m UPNode \<Rightarrow> 'm UPNode) \<Rightarrow> 'm UPFs \<Rightarrow> 'm UPFs" where
  "update_node k f upfs = upfs(k := map_option f (upfs k))"

definition ActivateUpfNode :: "string order \<Rightarrow> NodeID \<Rightarrow> 'm UPFs \<Rightarrow> string option \<times> 'm UPFs" where
  "ActivateUpfNode ord nodeId upfs =
     (case GetUpfFromNodeId ord nodeId upfs of
        Some k \<Rightarrow> (Some k, update_node k (\<lambda>upf. upf\<lparr>State := AssociatedSetUpSuccess\<rparr>) upfs)
      | None \<Rightarrow> (None, upfs))"

definition PreservePfcpAssociationRsp :: "string \<Rightarrow> 'm \<Rightarrow> 'm UPFs \<Rightarrow> 'm UPFs" where
  "PreservePfcpAssociationRsp k rsp upfs = update_node k (\<lambda>upf. upf\<lparr>LastAssoRsp := Some rsp\<rparr>) upfs"

definition PreservePfcpHeartBeatRsp :: "string \<Rightarrow> 'm \<Rightarrow> 'm UPFs \<Rightarrow> 'm UPFs" where
  "PreservePfcpHeartBeatRsp k rsp upfs = update_node k (\<lambda>upf. upf\<lparr>LastHBRsp := Some rsp\<rparr>) upfs"

section \<open>Well-formed tables\<close>

text \<open>
  Every node stands under the octets of its own id, and only the four fields of the id and of the
  name are fixed at its making.
\<close>

definition nodes_inv :: "'m UPFs \<Rightarrow> bool" where
  "nodes_inv upfs \<longleftrightarrow> finite (dom upfs)
     \<and> (\<forall>k upf. upfs k = Some upf \<longrightarrow> UpfName upf = k \<and> nodeValue (NodeID_of upf) = k)"

lemma update_node_dom [simp]: "dom (update_node k f upfs) = dom upfs"
  by (auto simp: update_node_def split: if_splits)

lemma update_node_apply:
  "update_node k f upfs j = (if j = k then map_option f (upfs k) else upfs j)"
  by (simp add: update_node_def)

lemma update_node_inv:
  assumes "nodes_inv upfs" "\<And>u. UpfName (f u) = UpfName u" "\<And>u. NodeID_of (f u) = NodeID_of u"
  shows "nodes_inv (update_node k f upfs)"
  using assms by (auto simp: nodes_inv_def update_node_apply split: if_splits)

lemma nodes_inv_empty: "nodes_inv Map.empty"
  by (simp add: nodes_inv_def)

lemma insert_node_inv: "nodes_inv upfs \<Longrightarrow> nodes_inv (snd (InsertUpfNode L nodeId cache upfs))"
  by (auto simp: InsertUpfNode_def nodes_inv_def Let_def split: prod.splits)

lemma activate_node_inv: "nodes_inv upfs \<Longrightarrow> nodes_inv (snd (ActivateUpfNode ord nodeId upfs))"
  by (auto simp: ActivateUpfNode_def intro: update_node_inv split: option.split)

lemma get_upf_Some:
  assumes "nodes_inv upfs" "enumerates ord" "GetUpfFromNodeId ord nodeId upfs = Some k"
  shows "\<exists>upf. upfs k = Some upf \<and> upf_matches nodeId upf"
  using range_find_SomeD [OF assms(3) [unfolded GetUpfFromNodeId_def]] assms(1,2)
  by (auto split: option.splits if_splits)

lemma get_upf_None:
  assumes "nodes_inv upfs" "enumerates ord"
  shows "GetUpfFromNodeId ord nodeId upfs = None \<longleftrightarrow>
    (\<forall>k upf. upfs k = Some upf \<longrightarrow> \<not> upf_matches nodeId upf)"
  using assms by (auto simp: GetUpfFromNodeId_def range_find_None nodes_inv_def split: option.splits)

text \<open>Host names are found whatever the order: a name has one entry.\<close>

lemma get_upf_fqdn:
  assumes "nodes_inv upfs" "enumerates ord" "NodeIdType nodeId = NodeIdTypeFqdn"
  shows "GetUpfFromNodeId ord nodeId upfs =
    (case upfs (nodeValue nodeId) of
       Some upf \<Rightarrow> if NodeIdType (NodeID_of upf) = NodeIdTypeFqdn then Some (nodeValue nodeId) else None
     | None \<Rightarrow> None)"
proof (cases "GetUpfFromNodeId ord nodeId upfs")
  case None
  then have none: "\<not> upf_matches nodeId upf" if "upfs k = Some upf" for k upf
    using get_upf_None [OF assms(1,2)] that by blast
  have "NodeIdType (NodeID_of upf) \<noteq> NodeIdTypeFqdn" if "upfs (nodeValue nodeId) = Some upf" for upf
  proof -
    have "nodeValue (NodeID_of upf) = nodeValue nodeId" using assms(1) that by (simp add: nodes_inv_def)
    then show ?thesis using none [OF that] assms(3) by (simp add: upf_matches_def node_id_types nodeValue_def)
  qed
  with None show ?thesis by (simp split: option.split)
next
  case (Some k)
  then obtain upf where u: "upfs k = Some upf" "upf_matches nodeId upf"
    using get_upf_Some [OF assms(1,2)] by blast
  then have "k = nodeValue nodeId" "NodeIdType (NodeID_of upf) = NodeIdTypeFqdn"
    using assms by (auto simp: upf_matches_def node_id_types nodes_inv_def nodeValue_def)
  with Some u show ?thesis by simp
qed

text \<open>An identity of type IPv6 is never found, although it can be inserted.\<close>

lemma get_upf_ipv6: "NodeIdType nodeId = NodeIdTypeIpv6Address \<Longrightarrow> GetUpfFromNodeId ord nodeId upfs = None"
  by (auto simp: GetUpfFromNodeId_def range_find_None upf_matches_def node_id_types split: option.split)

end
