(* ===== verification/Handler.thy ===== *)
theory Handler
  imports Upf_Addrs Upf_Nodes Udp_Server
begin

text \<open>
  The message handlers (\<^verbatim>\<open>pfcp/handler/handler.go\<close>) and the dispatcher
  (\<^verbatim>\<open>pfcp/dispatcher.go\<close>). The state of the adapter is that of the address and relay
  tables, extended by what the other packages keep: the transaction tables, the user planes and
  the waiting requests. A handler is run in one piece here; the report handlers are taken apart
  into the calls that other goroutines can come between in \<open>Report_Threads\<close>.
\<close>

section \<open>State\<close>

record 'm rest = tx_state +
  upfs :: "'m UPFs"
  waiters :: "udp_error txn_state"

type_synonym 'm adapter = "'m rest addr_state_scheme"

abbreviation rest_of :: "'m adapter \<Rightarrow> 'm rest" where
  "rest_of s \<equiv> addr_state.more s"

definition on_rest :: "('m rest \<Rightarrow> 'r \<times> 'm rest) \<Rightarrow> 'm adapter \<Rightarrow> 'r \<times> 'm adapter" where
  "on_rest f s = (let (r, w) = f (rest_of s) in (r, addr_state.more_update (\<lambda>_. w) s))"

text \<open>
  How a handler ends: normally, blocked for good on a full channel, or in a panic.
\<close>

datatype 's outcome = Done 's | Blocked | Panicked

datatype handler_error = UdpError udp_error | NoWaiter u32 | UpfNotFound string

text \<open>The hook the transaction tables register for released addresses.\<close>

definition release_hook :: "string order \<Rightarrow> 'm rest hook" where
  "release_hook ord = Some (ForgetConsumer ord)"

section \<open>Answers to waiting requests\<close>

definition send_to_waiter :: "u32 \<Rightarrow> udp_error PfcpHttpRsp \<Rightarrow> 'm adapter \<Rightarrow> bool \<times> 'm adapter outcome" where
  "send_to_waiter seq rsp s =
     (case deliverRsp seq rsp (waiters (rest_of s)) of
        (found, None) \<Rightarrow> (found, Blocked)
      | (found, Some w) \<Rightarrow> (found, Done (addr_state.more_update (\<lambda>r. r\<lparr>waiters := w\<rparr>) s)))"

definition sendErrRsp :: "'m pfcp_lib \<Rightarrow> 'm \<Rightarrow> udp_error \<Rightarrow> 'm adapter \<Rightarrow> 'm adapter outcome" where
  "sendErrRsp lib msg err s = snd (send_to_waiter (Sequence lib msg) \<lparr>Err = Some err, Rsp = None\<rparr> s)"

definition handleSendPfcpAssoSetReqError :: "'m pfcp_lib \<Rightarrow> 'm \<Rightarrow> udp_error \<Rightarrow> 'm adapter \<Rightarrow> 'm adapter outcome" where
  "handleSendPfcpAssoSetReqError lib msg pfcpErr s = sendErrRsp lib msg pfcpErr s"

definition handleSendPfcpHeartbeatReqError :: "'m pfcp_lib \<Rightarrow> 'm \<Rightarrow> udp_error \<Rightarrow> 'm adapter \<Rightarrow> 'm adapter outcome" where
  "handleSendPfcpHeartbeatReqError lib msg pfcpErr s = sendErrRsp lib msg pfcpErr s"

definition handleSendPfcpSessEstReqError :: "'m pfcp_lib \<Rightarrow> 'm \<Rightarrow> udp_error \<Rightarrow> 'm adapter \<Rightarrow> 'm adapter outcome" where
  "handleSendPfcpSessEstReqError lib msg pfcpErr s = sendErrRsp lib msg pfcpErr s"

definition handleSendPfcpSessModReqError :: "'m pfcp_lib \<Rightarrow> 'm \<Rightarrow> udp_error \<Rightarrow> 'm adapter \<Rightarrow> 'm adapter outcome" where
  "handleSendPfcpSessModReqError lib msg pfcpErr s = sendErrRsp lib msg pfcpErr s"

definition handleSendPfcpSessRelReqError :: "'m pfcp_lib \<Rightarrow> 'm \<Rightarrow> udp_error \<Rightarrow> 'm adapter \<Rightarrow> 'm adapter outcome" where
  "handleSendPfcpSessRelReqError lib msg pfcpErr s = sendErrRsp lib msg pfcpErr s"

lemmas send_error_defs = handleSendPfcpAssoSetReqError_def handleSendPfcpHeartbeatReqError_def
  handleSendPfcpSessEstReqError_def handleSendPfcpSessModReqError_def handleSendPfcpSessRelReqError_def

definition HandlePfcpSendError :: "'m pfcp_lib \<Rightarrow> 'm \<Rightarrow> udp_error \<Rightarrow> 'm adapter \<Rightarrow> 'm adapter outcome" where
  "HandlePfcpSendError lib msg pfcpErr s =
     (case MessageType lib msg of
        MsgTypeAssociationSetupRequest \<Rightarrow> handleSendPfcpAssoSetReqError lib msg pfcpErr s
      | MsgTypeHeartbeatRequest \<Rightarrow> handleSendPfcpHeartbeatReqError lib msg pfcpErr s
      | MsgTypeSessionEstablishmentRequest \<Rightarrow> handleSendPfcpSessEstReqError lib msg pfcpErr s
      | MsgTypeSessionModificationRequest \<Rightarrow> handleSendPfcpSessModReqError lib msg pfcpErr s
      | MsgTypeSessionDeletionRequest \<Rightarrow> handleSendPfcpSessRelReqError lib msg pfcpErr s
      | _ \<Rightarrow> Done s)"

definition encodeAndSendRsp ::
  "'m pfcp_lib \<Rightarrow> 'm \<Rightarrow> 'm adapter \<Rightarrow> handler_error option \<times> 'm adapter outcome" where
  "encodeAndSendRsp lib msg s =
     (case Marshal lib msg of
        None \<Rightarrow> (Some (UdpError ErrMarshal), Done s)
      | Some buf \<Rightarrow>
          (case send_to_waiter (Sequence lib msg) \<lparr>Err = None, Rsp = Some buf\<rparr> s of
             (False, out) \<Rightarrow> (Some (NoWaiter (Sequence lib msg)), out)
           | (True, out) \<Rightarrow> (None, out)))"

section \<open>Responses of the user plane\<close>

definition HandlePfcpAssociationSetupResponse ::
  "'m pfcp_lib \<Rightarrow> string order \<Rightarrow> 'm \<Rightarrow> 'm adapter \<Rightarrow> 'm adapter outcome" where
  "HandlePfcpAssociationSetupResponse lib ord msg s =
     (if \<not> IsA lib MsgTypeAssociationSetupResponse msg then Done s
      else if RecoveryTimeStamp lib msg = None then Done s
      else
        case Cause lib msg of
          None \<Rightarrow> Done s
        | Some cause \<Rightarrow>
            if cause = CauseRequestAccepted lib then
              (case NodeIDText lib msg of
                 None \<Rightarrow> Done s
               | Some nodeIDstr \<Rightarrow>
                   (case ActivateUpfNode ord (NewNodeID nodeIDstr) (upfs (rest_of s)) of
                      (None, _) \<Rightarrow> Panicked
                    | (Some k, nodes) \<Rightarrow>
                        let nodes = PreservePfcpAssociationRsp k msg nodes;
                            s = addr_state.more_update (\<lambda>r. r\<lparr>upfs := nodes\<rparr>) s
                        in snd (encodeAndSendRsp lib msg s)))
            else snd (encodeAndSendRsp lib msg s))"

definition HandlePfcpHeartbeatResponse :: "'m pfcp_lib \<Rightarrow> 'm \<Rightarrow> 'm adapter \<Rightarrow> 'm adapter outcome" where
  "HandlePfcpHeartbeatResponse lib msg s =
     (if \<not> IsA lib MsgTypeHeartbeatResponse msg then Done s
      else if RecoveryTimeStamp lib msg = None then Done s
      else snd (encodeAndSendRsp lib msg s))"

definition HandlePfcpSessionEstablishmentResponse :: "'m pfcp_lib \<Rightarrow> 'm \<Rightarrow> 'm adapter \<Rightarrow> 'm adapter outcome" where
  "HandlePfcpSessionEstablishmentResponse lib msg s =
     (if \<not> IsA lib MsgTypeSessionEstablishmentResponse msg then Done s
      else snd (encodeAndSendRsp lib msg s))"

definition HandlePfcpSessionModificationResponse :: "'m pfcp_lib \<Rightarrow> 'm \<Rightarrow> 'm adapter \<Rightarrow> 'm adapter outcome" where
  "HandlePfcpSessionModificationResponse lib msg s =
     (if \<not> IsA lib MsgTypeSessionModificationResponse msg then Done s
      else snd (encodeAndSendRsp lib msg s))"

definition HandlePfcpSessionDeletionResponse :: "'m pfcp_lib \<Rightarrow> 'm \<Rightarrow> 'm adapter \<Rightarrow> 'm adapter outcome" where
  "HandlePfcpSessionDeletionResponse lib msg s =
     (if \<not> IsA lib MsgTypeSessionDeletionResponse msg then Done s
      else snd (encodeAndSendRsp lib msg s))"

section \<open>Session reports\<close>

definition reportResponseEventData :: PfcpEventData where
  "reportResponseEventData = \<lparr>ErrHandler = ResendWindowClosedHandler, LSEID = 0\<rparr>"

definition rejectSessionReport ::
  "'m pfcp_lib \<Rightarrow> u64 \<Rightarrow> u32 \<Rightarrow> UDPAddr \<Rightarrow> 'm adapter \<Rightarrow> udp_error option \<times> 'm adapter" where
  "rejectSessionReport lib seid seq addr s =
     on_rest (SendPfcp lib (NewRejection lib seid seq) addr (Some reportResponseEventData)) s"

definition refuseAndRelease ::
  "'m pfcp_lib \<Rightarrow> u64 \<Rightarrow> u32 \<Rightarrow> UDPAddr \<Rightarrow> u32 \<Rightarrow> 'm adapter \<Rightarrow> 'm adapter" where
  "refuseAndRelease lib seid seq addr relaySeq s =
     (let (_, s) = rejectSessionReport lib seid seq addr s in ForgetReportRelay relaySeq s)"

definition relayGiveUp :: "'m pfcp_lib \<Rightarrow> u64 \<Rightarrow> time \<Rightarrow> 'm \<Rightarrow> 'm adapter \<Rightarrow> 'm adapter" where
  "relayGiveUp lib seid now sent s =
     (case TakeReportRelay (Sequence lib sent) now s of
        (None, s) \<Rightarrow> s
      | (Some (addr, seq), s) \<Rightarrow> refuseAndRelease lib seid seq addr (Sequence lib sent) s)"

definition relaySendAttempts :: nat where "relaySendAttempts = 4"

primrec relaySendLoop ::
  "nat \<Rightarrow> 'm pfcp_lib \<Rightarrow> 'm \<Rightarrow> UDPAddr \<Rightarrow> u64 \<Rightarrow> u32 \<Rightarrow> UDPAddr \<Rightarrow> u32 \<Rightarrow> 'm adapter \<Rightarrow> 'm adapter" where
  "relaySendLoop 0 lib report smf seid seq addr relaySeq s =
     refuseAndRelease lib seid seq addr relaySeq s"
| "relaySendLoop (Suc n) lib report smf seid seq addr relaySeq s =
     (let report = SetSequenceNumber lib relaySeq report;
          (err, s) = on_rest (SendPfcp lib report smf
             (Some \<lparr>ErrHandler = RelayGiveUpHandler seid, LSEID = 0\<rparr>)) s in
      case err of
        None \<Rightarrow> s
      | Some (ErrDuplicateSequence _) \<Rightarrow>
          (case RenumberReportRelay relaySeq s of
             (Inl ErrRelayNotHeld, s) \<Rightarrow> s
           | (Inl _, s) \<Rightarrow> refuseAndRelease lib seid seq addr relaySeq s
           | (Inr renumbered, s) \<Rightarrow> relaySendLoop n lib report smf seid seq addr renumbered s)
      | Some _ \<Rightarrow> refuseAndRelease lib seid seq addr relaySeq s)"

text \<open>
  What the handler takes from its surroundings: the orders of its loops and its two readings of
  the clock, in the source check and for the claim.
\<close>

record report_env =
  claim_orders :: relay_orders
  check_clock :: time
  claim_clock :: time

definition HandlePfcpSessionReportRequest ::
  "'m pfcp_lib \<Rightarrow> report_env \<Rightarrow> 'm \<Rightarrow> UDPAddr option \<Rightarrow> 'm adapter \<Rightarrow> 'm adapter" where
  "HandlePfcpSessionReportRequest lib e msg peer s =
     (if \<not> IsA lib MsgTypeSessionReportRequest msg then s
      else
        case peer of
          None \<Rightarrow> s
        | Some addr \<Rightarrow>
            (let authorisedUnder = RelayGeneration (IP_String (addr_IP addr)) s in
             if \<not> IsKnownUpfAddr (addr_IP addr) (check_clock e) s then s
             else
               let seq = Sequence lib msg; seid = SEID lib msg in
               case SmfAddr s of
                 None \<Rightarrow> snd (rejectSessionReport lib seid seq addr s)
               | Some smf \<Rightarrow>
                   (case RelayReportSequence (claim_orders e) addr seq (claim_clock e) authorisedUnder s of
                      (Inl ErrPeerReleased, s) \<Rightarrow> s
                    | (Inl _, s) \<Rightarrow> snd (rejectSessionReport lib seid seq addr s)
                    | (Inr (relaySeq, fresh), s) \<Rightarrow>
                        if \<not> fresh then s
                        else relaySendLoop relaySendAttempts lib msg smf seid seq addr relaySeq s)))"

definition HandlePfcpSessionReportResponse :: "'m pfcp_lib \<Rightarrow> time \<Rightarrow> 'm \<Rightarrow> 'm adapter \<Rightarrow> 'm adapter" where
  "HandlePfcpSessionReportResponse lib now msg s =
     (if \<not> IsA lib MsgTypeSessionReportResponse msg then s
      else
        let relaySeq = Sequence lib msg in
        case TakeReportRelay relaySeq now s of
          (None, s) \<Rightarrow> s
        | (Some (addr, seq), s) \<Rightarrow>
            (let (_, s) = on_rest (SendPfcp lib (SetSequenceNumber lib seq msg) addr (Some reportResponseEventData)) s
             in ForgetReportRelay relaySeq s))"

section \<open>The answer to a repeated association setup\<close>

definition BuildPfcpAssociationResponse ::
  "'m pfcp_lib \<Rightarrow> string order \<Rightarrow> NodeID \<Rightarrow> u32 \<Rightarrow> 'm adapter \<Rightarrow> (handler_error + 'm) outcome" where
  "BuildPfcpAssociationResponse lib ord nodeId seqNo s =
     (case GetUpfFromNodeId ord nodeId (upfs (rest_of s)) of
        None \<Rightarrow> Done (Inl (UpfNotFound (nodeValue nodeId)))
      | Some k \<Rightarrow>
          (case Option.bind (upfs (rest_of s) k) LastAssoRsp of
             None \<Rightarrow> Panicked
           | Some rsp \<Rightarrow> Done (Inr (SetSequenceNumber lib seqNo rsp))))"

section \<open>The error handlers\<close>

definition runErrHandler ::
  "'m pfcp_lib \<Rightarrow> time \<Rightarrow> (err_handler \<times> 'm \<times> udp_error) option \<Rightarrow> 'm adapter \<Rightarrow> 'm adapter outcome" where
  "runErrHandler lib now call s =
     (case call of
        None \<Rightarrow> Done s
      | Some (HandlePfcpSendErrorHandler, msg, err) \<Rightarrow> HandlePfcpSendError lib msg err s
      | Some (RelayGiveUpHandler seid, msg, err) \<Rightarrow> Done (relayGiveUp lib seid now msg s)
      | Some (ResendWindowClosedHandler, msg, err) \<Rightarrow> Done s)"

section \<open>The dispatcher\<close>

definition Dispatch ::
  "'m pfcp_lib \<Rightarrow> report_env \<Rightarrow> string order \<Rightarrow> time \<Rightarrow> 'm \<Rightarrow> UDPAddr option \<Rightarrow> 'm adapter \<Rightarrow> 'm adapter outcome" where
  "Dispatch lib e ord now msg remoteAddr s =
     (case MessageType lib msg of
        MsgTypeHeartbeatResponse \<Rightarrow> HandlePfcpHeartbeatResponse lib msg s
      | MsgTypeAssociationSetupResponse \<Rightarrow> HandlePfcpAssociationSetupResponse lib ord msg s
      | MsgTypeSessionEstablishmentResponse \<Rightarrow> HandlePfcpSessionEstablishmentResponse lib msg s
      | MsgTypeSessionModificationResponse \<Rightarrow> HandlePfcpSessionModificationResponse lib msg s
      | MsgTypeSessionDeletionResponse \<Rightarrow> HandlePfcpSessionDeletionResponse lib msg s
      | MsgTypeSessionReportRequest \<Rightarrow> Done (HandlePfcpSessionReportRequest lib e msg remoteAddr s)
      | MsgTypeSessionReportResponse \<Rightarrow> Done (HandlePfcpSessionReportResponse lib now msg s)
      | _ \<Rightarrow> Done s)"

end
