(* ===== verification/Handler_Properties.thy ===== *)
theory Handler_Properties
  imports Handler Addr_Properties Tx_Properties
begin

text \<open>
  The properties of the handlers: which reports are relayed, that a copy of a report is always
  absorbed, that an answer goes back to its origin, and that handling a message keeps every table
  consistent and never blocks.
\<close>

section \<open>What the steps of a handler keep\<close>

lemma on_rest_frame [simp]:
  "rest_of (snd (on_rest f s)) = snd (f (rest_of s))"
  "fst (on_rest f s) = fst (f (rest_of s))"
  "reportRelays (snd (on_rest f s)) = reportRelays s"
  "relay_inv (snd (on_rest f s)) = relay_inv s"
  "addr_inv (snd (on_rest f s)) = addr_inv s"
  by (simp_all add: on_rest_def addr_inv_def split: prod.split)

lemma on_rest_claimed [simp]: "claimed now addr seq (snd (on_rest f s)) = claimed now addr seq s"
  by (simp add: claimed_def)

lemma relay_op_rest:
  "rest_of (ForgetReportRelay k s) = rest_of s"
  "rest_of (snd (RenumberReportRelay k s)) = rest_of s"
  "rest_of (snd (TakeReportRelay k now s)) = rest_of s"
  "rest_of (snd (RelayReportSequence it addr seq now gen s)) = rest_of s"
  using addr_fields(5) [OF relay_exec_more [of "Forget k" s]] addr_fields(5) [OF relay_exec_more [of "Renumber k" s]]
    addr_fields(5) [OF relay_exec_more [of "Take k now" s]]
    addr_fields(5) [OF relay_exec_more [of "Claim it addr seq now gen" s]]
  by simp_all

text \<open>
  A report is absorbed when a copy of it would not be relayed: it is claimed, or its answer is
  held under the number its user plane gave it.
\<close>

definition absorbed :: "time \<Rightarrow> UDPAddr \<Rightarrow> u32 \<Rightarrow> 'm adapter \<Rightarrow> bool" where
  "absorbed now addr seq s \<longleftrightarrow>
     claimed now addr seq s \<noteq> {} \<or> held (rest_of s) (UDPAddr_String addr, seq) \<noteq> None"

text \<open>The socket is up, and the library can encode the refusal of this report.\<close>

definition can_refuse :: "'m pfcp_lib \<Rightarrow> u64 \<Rightarrow> u32 \<Rightarrow> 'm adapter \<Rightarrow> bool" where
  "can_refuse lib seid seq s \<longleftrightarrow> lib_laws lib \<and> seq \<le> seq_max \<and> tx_inv (rest_of s)
     \<and> (\<exists>srv. Server (rest_of s) = Some srv \<and> Conn srv \<noteq> None)
     \<and> Marshal lib (NewRejection lib seid seq) \<noteq> None"

lemma send_keeps_ready:
  assumes "tx_inv w"
  shows "tx_inv (snd (SendPfcp lib msg addr ev w)) \<and> Server (snd (SendPfcp lib msg addr ev w)) = Server w"
  using assms
  by (cases rule: SendPfcp_cases [where lib = lib and msg = msg and addr = addr and ev = ev])
    (use assms in simp_all)

lemma can_refuse_send:
  "can_refuse lib seid seq s \<Longrightarrow> can_refuse lib seid seq (snd (on_rest (SendPfcp lib msg addr ev) s))"
  using send_keeps_ready [of "rest_of s" lib msg addr ev] by (auto simp: can_refuse_def)

lemma rejection_key:
  assumes "lib_laws lib" "seq \<le> seq_max"
  shows "tx_key lib conn addr (NewRejection lib seid seq) = (UDPAddr_String addr, seq)"
  using lib_lawsD(3,4) [OF assms(1)] assms(2)
  by (simp add: tx_key_def IsRequest_def IsResponse_def)

lemma response_key:
  assumes "lib_laws lib" "seq \<le> seq_max" "MessageType lib msg = MsgTypeSessionReportResponse"
  shows "tx_key lib conn addr (SetSequenceNumber lib seq msg) = (UDPAddr_String addr, seq)"
  using lib_lawsD(1,2) [OF assms(1)] assms(2,3)
  by (simp add: tx_key_def IsRequest_def IsResponse_def)

text \<open>A send of an answer leaves an answer held, whether it registered it or met an earlier one.\<close>

lemma answer_held:
  assumes "tx_inv w" "Server w = Some srv" "Conn srv \<noteq> None" "Marshal lib msg \<noteq> None"
    and "\<And>conn. tx_key lib conn addr msg = key"
  shows "held (snd (SendPfcp lib msg addr ev w)) key \<noteq> None"
  using assms(1)
  by (cases rule: SendPfcp_cases [where lib = lib and msg = msg and addr = addr and ev = ev])
    (use assms in auto)

text \<open>What a send that meets no earlier transaction registers.\<close>

lemma sent_registered:
  assumes "tx_inv w" "Server w = Some srv" "Conn srv = Some conn" "Marshal lib msg = Some buf"
    and "\<And>conn. tx_key lib conn addr msg = key" "held w key = None"
  shows "held (snd (SendPfcp lib msg addr ev w)) = (held w)(key \<mapsto> next_ref w)"
    "transactions (snd (SendPfcp lib msg addr ev w)) (next_ref w) = Some (NewTransaction lib msg buf conn addr ev)"
    "spawned (snd (SendPfcp lib msg addr ev w)) = next_ref w # spawned w"
  using assms(1)
  by (cases rule: SendPfcp_cases [where lib = lib and msg = msg and addr = addr and ev = ev];
      use assms(2-6) in simp)+

lemma reject_absorbs:
  assumes "can_refuse lib seid seq s"
  shows "held (rest_of (snd (rejectSessionReport lib seid seq addr s))) (UDPAddr_String addr, seq) \<noteq> None"
  using assms answer_held [of "rest_of s" _ lib "NewRejection lib seid seq" addr "(UDPAddr_String addr, seq)"]
  by (auto simp: can_refuse_def rejectSessionReport_def rejection_key)

lemma refuse_absorbs:
  "can_refuse lib seid seq s \<Longrightarrow> absorbed now addr seq (refuseAndRelease lib seid seq addr k s)"
  using reject_absorbs [of lib seid seq s addr]
  by (auto simp: absorbed_def refuseAndRelease_def relay_op_rest split: prod.split)

lemma relay_send_loop_absorbs:
  assumes "can_refuse lib seid seq s"
    and "reportRelays s k = Some r" "same_report addr seq r" "\<not> outlived now (recorded r)"
  shows "absorbed now addr seq (relaySendLoop n lib report smf seid seq addr k s)"
  using assms
proof (induction n arbitrary: report k s)
  case 0
  then show ?case by (simp add: refuse_absorbs)
next
  case (Suc n)
  let ?ev = "Some \<lparr>ErrHandler = RelayGiveUpHandler seid, LSEID = 0\<rparr>"
  let ?m = "SetSequenceNumber lib k report"
  let ?r = "on_rest (SendPfcp lib ?m smf ?ev) s"
  have ready: "can_refuse lib seid seq (snd ?r)" by (rule can_refuse_send [OF Suc.prems(1)])
  have relays: "reportRelays (snd ?r) k = Some r" using Suc.prems(2) by simp
  have sent: "absorbed now addr seq (snd ?r)"
    using relays Suc.prems(3,4) by (auto simp: absorbed_def claimed_def)
  have refused: "absorbed now addr seq (refuseAndRelease lib seid seq addr k t)" if "t = snd ?r" for t
    using refuse_absorbs [OF ready] that by simp
  show ?case
  proof (cases "fst ?r")
    case None
    with sent show ?thesis by (simp add: split_beta Let_def)
  next
    case (Some err)
    show ?thesis
    proof (cases "\<exists>q. err = ErrDuplicateSequence q")
      case False
      with Some refused show ?thesis by (auto simp: split_beta Let_def split: udp_error.split)
    next
      case True
      show ?thesis
      proof (cases rule: RenumberReportRelay_cases [of "snd ?r" k])
        case NotHeld
        with relays show ?thesis by simp
      next
        case (Exhausted r')
        with Some True refused show ?thesis by (auto simp: split_beta Let_def)
      next
        case (Moved r' k')
        let ?t = "snd (RenumberReportRelay k (snd ?r))"
        have "can_refuse lib seid seq ?t"
          using ready by (simp add: can_refuse_def relay_op_rest)
        moreover have "reportRelays ?t k' = Some r" using Moved relays by simp
        ultimately have "absorbed now addr seq (relaySendLoop n lib ?m smf seid seq addr k' ?t)"
          using Suc.IH Suc.prems(3,4) by blast
        with Some True Moved(6) show ?thesis by (auto simp: split_beta Let_def)
      qed
    qed
  qed
qed

section \<open>What every handler keeps\<close>

definition adapter_inv :: "'m adapter \<Rightarrow> bool" where
  "adapter_inv s \<longleftrightarrow> addr_inv s \<and> tx_inv (rest_of s) \<and> nodes_inv (upfs (rest_of s)) \<and> txn_inv (waiters (rest_of s))"

text \<open>Sending changes the transaction tables only.\<close>

lemma rest_fields:
  fixes w w' :: "'m rest"
  assumes "tx_state.more w = tx_state.more w'"
  shows "upfs w = upfs w'" "waiters w = waiters w'"
  using assms by (cases w; cases w'; simp)+

lemma send_frame:
  assumes "tx_inv (rest_of s)"
  shows "upfs (rest_of (snd (on_rest (SendPfcp lib msg addr ev) s))) = upfs (rest_of s)"
    "waiters (rest_of (snd (on_rest (SendPfcp lib msg addr ev) s))) = waiters (rest_of s)"
proof -
  have "tx_state.more (snd (SendPfcp lib msg addr ev (rest_of s))) = tx_state.more (rest_of s)"
    using assms
    by (cases rule: SendPfcp_cases [where lib = lib and msg = msg and addr = addr and ev = ev]) simp_all
  from rest_fields [OF this]
  show "upfs (rest_of (snd (on_rest (SendPfcp lib msg addr ev) s))) = upfs (rest_of s)"
    "waiters (rest_of (snd (on_rest (SendPfcp lib msg addr ev) s))) = waiters (rest_of s)" by simp_all
qed

lemma send_inv: "adapter_inv s \<Longrightarrow> adapter_inv (snd (on_rest (SendPfcp lib msg addr ev) s))"
  using send_keeps_ready [of "rest_of s" lib msg addr ev] send_frame [of s lib msg addr ev]
  by (simp add: adapter_inv_def)

lemma relay_exec_inv:
  assumes "adapter_inv s" "relay_legal op s"
  shows "adapter_inv (relay_exec op s)"
proof -
  have "rest_of (relay_exec op s) = rest_of s" by (rule addr_fields(5) [OF relay_exec_more])
  with assms addr_exec_inv [of s "Relay op" None] show ?thesis by (simp add: adapter_inv_def)
qed

lemma forget_relay_inv: "adapter_inv s \<Longrightarrow> adapter_inv (ForgetReportRelay k s)"
  using relay_exec_inv [of s "Forget k"] by simp

lemma reject_inv: "adapter_inv s \<Longrightarrow> adapter_inv (snd (rejectSessionReport lib seid seq addr s))"
  by (simp add: rejectSessionReport_def send_inv)

lemma refuse_inv: "adapter_inv s \<Longrightarrow> adapter_inv (refuseAndRelease lib seid seq addr k s)"
  using reject_inv [of s lib seid seq addr]
  by (simp add: refuseAndRelease_def forget_relay_inv split_beta)

lemma relay_send_loop_inv: "adapter_inv s \<Longrightarrow> adapter_inv (relaySendLoop n lib report smf seid seq addr k s)"
proof (induction n arbitrary: report k s)
  case 0
  then show ?case by (simp add: refuse_inv)
next
  case (Suc n)
  let ?s = "snd (on_rest (SendPfcp lib (SetSequenceNumber lib k report) smf
      (Some \<lparr>ErrHandler = RelayGiveUpHandler seid, LSEID = 0\<rparr>)) s)"
  have sent: "adapter_inv ?s" by (rule send_inv [OF Suc.prems])
  then have "adapter_inv (snd (RenumberReportRelay k ?s))" using relay_exec_inv [of ?s "Renumber k"] by simp
  with sent show ?case
    by (auto simp: split_beta Let_def refuse_inv Suc.IH
        split: option.split udp_error.split sum.split relay_error.split prod.split)
qed

lemma report_request_inv:
  assumes "adapter_inv s" "legal_orders (claim_orders e)"
  shows "adapter_inv (HandlePfcpSessionReportRequest lib e msg peer s)"
proof -
  have "adapter_inv (snd (RelayReportSequence (claim_orders e) addr seq (claim_clock e) gen s))" for addr seq gen
    using relay_exec_inv [of s "Claim (claim_orders e) addr seq (claim_clock e) gen"] assms by simp
  with assms(1) show ?thesis
    by (auto simp: HandlePfcpSessionReportRequest_def Let_def split_beta reject_inv relay_send_loop_inv
        split: option.split sum.split relay_error.split)
qed

lemma report_response_inv:
  assumes "adapter_inv s"
  shows "adapter_inv (HandlePfcpSessionReportResponse lib now msg s)"
proof -
  have "adapter_inv (snd (TakeReportRelay k now s))" for k using relay_exec_inv [of s "Take k now"] assms by simp
  with assms show ?thesis
    by (auto simp: HandlePfcpSessionReportResponse_def Let_def split_beta forget_relay_inv send_inv
        split: option.split)
qed

lemma give_up_inv:
  assumes "adapter_inv s"
  shows "adapter_inv (relayGiveUp lib seid now sent s)"
proof -
  have "adapter_inv (snd (TakeReportRelay k now s))" for k using relay_exec_inv [of s "Take k now"] assms by simp
  with assms show ?thesis
    by (auto simp: relayGiveUp_def split_beta refuse_inv split: option.split)
qed

text \<open>An outcome that is neither blocked nor leaves a broken table.\<close>

definition fine :: "'m adapter outcome \<Rightarrow> bool" where
  "fine out \<longleftrightarrow> out \<noteq> Blocked \<and> (\<forall>s. out = Done s \<longrightarrow> adapter_inv s)"

lemma fine_simps [simp]: "fine (Done s) \<longleftrightarrow> adapter_inv s" "fine Panicked" "\<not> fine Blocked"
  by (simp_all add: fine_def)

lemma waiter_fine:
  assumes "adapter_inv s"
  shows "fine (snd (send_to_waiter seq rsp s))"
proof -
  obtain w found where w: "deliverRsp seq rsp (waiters (rest_of s)) = (found, Some w)" "txn_inv w"
    using deliver_inv [of "waiters (rest_of s)" seq rsp] assms
    by (cases "deliverRsp seq rsp (waiters (rest_of s))") (auto simp: adapter_inv_def)
  have "tx_inv (r\<lparr>waiters := w\<rparr>) = tx_inv r" for r :: "'a rest" by (simp add: tx_inv_def)
  with assms w show ?thesis by (simp add: send_to_waiter_def adapter_inv_def addr_inv_def)
qed

lemma encode_fine: "adapter_inv s \<Longrightarrow> fine (snd (encodeAndSendRsp lib msg s))"
  using waiter_fine [of s "Sequence lib msg"]
  by (simp add: encodeAndSendRsp_def split: option.split prod.split bool.split) (metis snd_conv)

lemma association_fine:
  assumes "adapter_inv s"
  shows "fine (HandlePfcpAssociationSetupResponse lib ord msg s)"
proof -
  have keep: "adapter_inv (addr_state.more_update (\<lambda>r. r\<lparr>upfs := nodes\<rparr>) s)" if "nodes_inv nodes" for nodes
  proof -
    have "tx_inv (r\<lparr>upfs := nodes\<rparr>) = tx_inv r" for r :: "'a rest" by (simp add: tx_inv_def)
    with assms that show ?thesis by (simp add: adapter_inv_def addr_inv_def)
  qed
  have nodes: "nodes_inv (PreservePfcpAssociationRsp k msg ns)" if "nodes_inv ns" for k ns
    using that unfolding PreservePfcpAssociationRsp_def by (rule update_node_inv) simp_all
  have all: "nodes_inv (upfs (rest_of s))" using assms by (simp add: adapter_inv_def)
  have accepted: "fine (snd (encodeAndSendRsp lib msg (addr_state.more_update
      (\<lambda>r. r\<lparr>upfs := PreservePfcpAssociationRsp k msg ns\<rparr>) s)))"
    if "ActivateUpfNode ord n (upfs (rest_of s)) = (Some k, ns)" for k n ns
    using encode_fine [OF keep [OF nodes]] activate_node_inv [OF all, of ord n] that by simp
  have other: "fine (snd (encodeAndSendRsp lib msg s))" by (rule encode_fine [OF assms])
  show ?thesis
    using assms accepted other
    by (simp add: HandlePfcpAssociationSetupResponse_def Let_def split: option.split prod.split)
qed

lemma send_error_fine: "adapter_inv s \<Longrightarrow> fine (HandlePfcpSendError lib msg err s)"
  using waiter_fine [of s "Sequence lib msg"]
  by (simp add: HandlePfcpSendError_def send_error_defs sendErrRsp_def split: msg_type.split)

lemma dispatch_fine:
  assumes "adapter_inv s" "legal_orders (claim_orders e)"
  shows "fine (Dispatch lib e ord now msg peer s)"
  using assms association_fine [OF assms(1), of lib ord msg] encode_fine [OF assms(1), of lib msg]
    report_request_inv [OF assms, of lib msg peer] report_response_inv [OF assms(1), of lib now msg]
  by (simp add: Dispatch_def HandlePfcpHeartbeatResponse_def HandlePfcpSessionEstablishmentResponse_def
      HandlePfcpSessionModificationResponse_def HandlePfcpSessionDeletionResponse_def split: msg_type.split)

section \<open>A concrete adapter\<close>

text \<open>
  One user plane at \<^const>\<open>upf_a\<close>, an SMF, a socket, and nothing in flight; then the same with
  one report of that user plane being relayed.
\<close>

definition std_rest :: "plain_msg rest" where
  "std_rest = tx_state.extend tx_init \<lparr>upfs = Map.empty, waiters = \<lparr>UpfTxns = Map.empty, chans = Map.empty\<rparr>\<rparr>"

definition std_adapter :: "plain_msg adapter" where
  "std_adapter = addr_state.extend (at_a\<lparr>smfAddr := Some [10, 42, 0, 9]\<rparr>) std_rest"

definition relaying :: "plain_msg adapter" where
  "relaying = recordRelayLocked 0x800000 (new_relay upf_a 7 (secs 101)) (std_adapter\<lparr>reportRelaySeq := 0x800000\<rparr>)"

definition std_report_env :: report_env where
  "std_report_env = \<lparr>claim_orders = std_orders, check_clock = secs 102, claim_clock = secs 102\<rparr>"

lemma at_a_relays: "reportRelays at_a = Map.empty"
proof -
  obtain gone where "released_exactly std_env None gone addr_init at_a"
    using commit_releases [OF addr_init_inv std_env_legal, of "secs 100" "addr_IP upf_a" "''2/upf-a''" None]
    unfolding at_a_def by blast
  then show ?thesis
    by (auto simp: released_exactly_def map_keep_def addr_init_def relay_init_def relay_state.defs)
qed

lemma std_adapter_fields [simp]:
  "rest_of std_adapter = std_rest" "upfNodeAddrs std_adapter = upfNodeAddrs at_a"
  "upfAddrs std_adapter = upfAddrs at_a" "reportRelays std_adapter = Map.empty"
  "relaysByHost std_adapter = relaysByHost at_a" "relayGenerations std_adapter = relayGenerations at_a"
  "reportRelaySeq std_adapter = reportRelaySeq at_a"
  "smfAddr std_adapter = Some [10, 42, 0, 9]"
  by (simp_all add: std_adapter_def addr_state.defs at_a_relays)

lemma std_rest_fields [simp]:
  "Server std_rest = Server tx_init" "held std_rest k = None" "tx_inv std_rest"
  "upfs std_rest = Map.empty" "UpfTxns (waiters std_rest) = Map.empty"
  by (simp_all add: std_rest_def tx_state.defs held_def tx_init_def tx_inv_def)

lemma std_adapter_inv: "adapter_inv std_adapter"
  using at_a_inv
  by (simp add: adapter_inv_def addr_inv_def relay_inv_def at_a_relays nodes_inv_empty txn_inv_def)

lemma relaying_fields [simp]:
  "rest_of relaying = std_rest" "upfNodeAddrs relaying = upfNodeAddrs at_a"
  "smfAddr relaying = Some [10, 42, 0, 9]"
  "reportRelays relaying = [0x800000 \<mapsto> new_relay upf_a 7 (secs 101)]"
proof -
  have "relay_state.more relaying = relay_state.more std_adapter" by (simp add: relaying_def)
  note f = addr_fields [OF this]
  show "rest_of relaying = std_rest" "upfNodeAddrs relaying = upfNodeAddrs at_a"
    "smfAddr relaying = Some [10, 42, 0, 9]" using f by simp_all
  show "reportRelays relaying = [0x800000 \<mapsto> new_relay upf_a 7 (secs 101)]" by (simp add: relaying_def)
qed

lemma relaying_inv: "adapter_inv relaying"
proof -
  have "relay_state.more relaying = relay_state.more std_adapter" by (simp add: relaying_def)
  note f = addr_fields [OF this]
  have "relay_inv relaying" unfolding relaying_def
    by (rule relay_inv_record)
      (use std_adapter_inv in \<open>simp_all add: adapter_inv_def addr_inv_def relaySequenceFloor_def relaySequenceCeil_def\<close>)
  with std_adapter_inv f show ?thesis by (simp add: adapter_inv_def addr_inv_def)
qed

lemma wire_lib_simps [simp]:
  "IsA wire_lib t m \<longleftrightarrow> pm_type m = t" "MessageType wire_lib m = pm_type m"
  "Marshal wire_lib m = Some [ucast (pm_seq m)]" "Sequence wire_lib m = pm_seq m mod 0x1000000"
  "SetSequenceNumber wire_lib q m = m\<lparr>pm_seq := q\<rparr>"
  by (simp_all add: wire_lib_def plain_lib_def)

lemma std_known: "IsKnownUpfAddr (addr_IP upf_a) (secs 102) std_adapter"
  using std_adapter_inv upf_resolved
  by (simp add: adapter_inv_def known_addr_iff at_a_nodes upf_texts) (simp add: secs_def)

lemma std_can_refuse: "can_refuse wire_lib seid 7 std_adapter"
  by (simp add: can_refuse_def wire_lib_laws seq_max_def tx_init_server)

section \<open>Properties\<close>

text \<open>
  Property C5. Every report of a user plane the SMF names is absorbed once it has been handled,
  whatever went wrong in between: a copy of it finds a claim, or the answer held for it. The
  handler runs while the socket is up and the library can encode a refusal.
\<close>

theorem report_absorbed:
  assumes "adapter_inv s" "legal_orders (claim_orders e)"
    and "IsA lib MsgTypeSessionReportRequest msg" "IsKnownUpfAddr (addr_IP addr) (check_clock e) s"
    and "can_refuse lib (SEID lib msg) (Sequence lib msg) s"
  shows "absorbed (claim_clock e) addr (Sequence lib msg) (HandlePfcpSessionReportRequest lib e msg (Some addr) s)"
proof -
  let ?gen = "RelayGeneration (IP_String (addr_IP addr)) s" and ?q = "Sequence lib msg" and ?id = "SEID lib msg"
  let ?c = "RelayReportSequence (claim_orders e) addr ?q (claim_clock e) ?gen s"
  note handler = HandlePfcpSessionReportRequest_def Let_def
  have refuse: "can_refuse lib ?id ?q (snd ?c)" using assms(5) by (simp add: can_refuse_def relay_op_rest)
  have inv: "relay_inv s" using assms(1) by (simp add: adapter_inv_def addr_inv_def)
  show ?thesis
  proof (cases "SmfAddr s")
    case None
    with assms(3,4) reject_absorbs [OF assms(5), of addr] show ?thesis
      by (simp add: handler absorbed_def)
  next
    case (Some smf)
    from inv assms(2) show ?thesis
    proof (cases rule: RelayReportSequence_cases [where addr = addr and seq = ?q and now = "claim_clock e" and gen = ?gen])
      case Released
      then show ?thesis by simp
    next
      case (Known k)
      then have "claimed (claim_clock e) addr ?q (snd ?c) \<noteq> {}"
        using claimed_sweep [OF inv assms(2), of "claim_clock e" addr ?q] by auto
      with Known Some assms(3,4) show ?thesis by (simp add: handler absorbed_def)
    next
      case Exhausted
      with Some assms(3,4) reject_absorbs [OF refuse, of addr] show ?thesis
        by (simp add: handler absorbed_def)
    next
      case (Fresh k)
      have "reportRelays (snd ?c) k = Some (new_relay addr ?q (claim_clock e))" using Fresh by simp
      then have "absorbed (claim_clock e) addr ?q
        (relaySendLoop relaySendAttempts lib msg smf ?id ?q addr k (snd ?c))"
        by (rule relay_send_loop_absorbs [OF refuse]) (simp_all add: same_report_def host_of_def outlived_iff)
      with Fresh Some assms(3,4) show ?thesis by (simp add: handler)
    qed
  qed
qed

theorem report_absorbed_witness:
  "absorbed (secs 102) upf_a 7 (HandlePfcpSessionReportRequest wire_lib std_report_env (std_req 7) (Some upf_a) std_adapter)"
  using report_absorbed [OF std_adapter_inv, of std_report_env wire_lib "std_req 7" upf_a]
    std_known std_can_refuse
  by (simp add: std_report_env_def std_req_def)

text \<open>
  A retransmission of a report that is being relayed sends nothing at all: no
  transaction is made, registered or started for it.
\<close>

lemma retransmission_sends_nothing:
  assumes "adapter_inv s" "legal_orders (claim_orders e)" "SmfAddr s \<noteq> None"
    and "claimed (claim_clock e) addr (Sequence lib msg) s \<noteq> {}"
  shows "rest_of (HandlePfcpSessionReportRequest lib e msg (Some addr) s) = rest_of s"
proof -
  have inv: "relay_inv s" using assms(1) by (simp add: adapter_inv_def addr_inv_def)
  obtain smf where smf: "SmfAddr s = Some smf" using assms(3) by blast
  from inv assms(2) show ?thesis
    by (cases rule: RelayReportSequence_cases [where addr = addr and seq = "Sequence lib msg"
          and now = "claim_clock e" and gen = "RelayGeneration (IP_String (addr_IP addr)) s"])
      (use assms(4) smf relay_op_rest(4) [of "claim_orders e" addr "Sequence lib msg" "claim_clock e"
          "RelayGeneration (IP_String (addr_IP addr)) s" s]
        in \<open>auto simp: HandlePfcpSessionReportRequest_def Let_def\<close>)
qed

text \<open>
  Property C27. A report from an address the SMF does not name, or no longer names, has no effect:
  it is neither relayed nor answered, and no table changes.
\<close>

theorem unknown_source_dropped:
  assumes "addr_inv s"
    and "\<not> (\<exists>n r. upfNodeAddrs s n = Some r \<and> node_addr r = IP_String (addr_IP addr)
           \<and> check_clock e - seen r \<le> 30 * Minute)"
  shows "HandlePfcpSessionReportRequest lib e msg (Some addr) s = s"
proof -
  have "\<not> IsKnownUpfAddr (addr_IP addr) (check_clock e) s"
    using assms(2) known_addr_iff [OF assms(1)] by blast
  then show ?thesis by (simp add: HandlePfcpSessionReportRequest_def Let_def split: option.split)
qed

theorem unknown_source_dropped_witness:
  "HandlePfcpSessionReportRequest wire_lib std_report_env (std_req 7) (Some upf_b) std_adapter = std_adapter"
  by (rule unknown_source_dropped)
    (use std_adapter_inv in \<open>simp_all add: adapter_inv_def at_a_nodes upf_texts\<close>)

text \<open>
  Property C12. A report the SMF does not answer is refused: when the transaction of a relayed
  report ends in an error within the lifetime of its entry, the error handler registers, and
  starts, the transaction of the rejection for the user plane, under the number that user plane
  gave the report, and the entry is gone afterwards. The socket is open, the rejection can be
  encoded, and nothing is held under that number yet; the state is the one the ending transaction
  has left.
\<close>

theorem unanswered_report_is_refused:
  assumes "adapter_inv s" "lib_laws lib" "EventData tx = Some \<lparr>ErrHandler = RelayGiveUpHandler seid, LSEID = 0\<rparr>"
    and "Parse lib (SendMsg tx) = Some sent"
    and "reportRelays s (Sequence lib sent) = Some r" "\<not> answered r" "\<not> outlived now (recorded r)" "upfSeq r \<le> seq_max"
    and "Server (rest_of s) = Some srv" "Conn srv = Some conn"
    and "Marshal lib (NewRejection lib seid (upfSeq r)) = Some buf"
    and "held (rest_of s) (UDPAddr_String (upfAddr r), upfSeq r) = None"
  shows "(let (call, s1) = on_rest (startTxLifeCycle lib x tx (Some err)) s; y = next_ref (rest_of s1) in
      \<exists>s2. runErrHandler lib now call s1 = Done s2
        \<and> held (rest_of s2) = (held (rest_of s1))((UDPAddr_String (upfAddr r), upfSeq r) \<mapsto> y)
        \<and> transactions (rest_of s2) y = Some (NewTransaction lib (NewRejection lib seid (upfSeq r)) buf conn
              (upfAddr r) (Some reportResponseEventData))
        \<and> spawned (rest_of s2) = y # spawned (rest_of s1)
        \<and> reportRelays s2 = (reportRelays s)(Sequence lib sent := None))"
proof -
  let ?k = "Sequence lib sent"
  let ?s1 = "snd (on_rest (startTxLifeCycle lib x tx (Some err)) s)"
  have call: "fst (on_rest (startTxLifeCycle lib x tx (Some err)) s) = Some (RelayGiveUpHandler seid, sent, err)"
    and rest1: "snd (startTxLifeCycle lib x tx (Some err) (rest_of s)) = snd (removeTransaction x tx (rest_of s))"
    using assms(3,4) by (simp_all add: startTxLifeCycle_def split_beta Let_def)
  obtain t where take: "TakeReportRelay ?k now ?s1 = (Some (upfAddr r, upfSeq r), t)"
    and relays: "reportRelays t = (reportRelays s)(?k \<mapsto> r\<lparr>answered := True\<rparr>)"
    using assms(5-7) by (simp add: TakeReportRelay_def outlived_def)
  have rest: "rest_of t = rest_of ?s1" using relay_op_rest(3) [of ?k now ?s1] by (simp add: take)
  have inv: "tx_inv (rest_of s)" using assms(1) by (simp add: adapter_inv_def)
  then have inv1: "tx_inv (rest_of ?s1)" using remove_keeps_inv [of "rest_of s" x tx] by (simp add: rest1)
  have free: "held (rest_of ?s1) (UDPAddr_String (upfAddr r), upfSeq r) = None"
    using inv assms(9,12) by (simp add: rest1 remove_refines)
  have server: "Server (rest_of ?s1) = Some srv" using assms(9) by (simp add: rest1 removeTransaction_frame(1))
  note sent = sent_registered [OF inv1 server assms(10,11) rejection_key [OF assms(2,8)] free,
      where ev = "Some reportResponseEventData"]
  let ?u = "snd (rejectSessionReport lib seid (upfSeq r) (upfAddr r) t)"
  have run: "runErrHandler lib now (Some (RelayGiveUpHandler seid, sent, err)) ?s1 = Done (ForgetReportRelay ?k ?u)"
    by (simp add: runErrHandler_def relayGiveUp_def take refuseAndRelease_def split_beta)
  have "reportRelays (ForgetReportRelay ?k ?u) = (reportRelays s)(?k := None)"
    using relays by (simp add: ForgetReportRelay_def rejectSessionReport_def)
  with sent run call rest show ?thesis
    by (simp add: split_beta Let_def relay_op_rest(1) rejectSessionReport_def)
qed

definition relayed_tx :: Transaction where
  "relayed_tx = (std_tx tx_addr tx_text 0x800000)\<lparr>EventData := Some \<lparr>ErrHandler = RelayGiveUpHandler 1, LSEID = 0\<rparr>\<rparr>"

text \<open>A wire format in which every message is the relayed report.\<close>

definition relay_lib :: "plain_msg pfcp_lib" where
  "relay_lib = plain_lib\<lparr>Parse := (\<lambda>_. Some (std_req 0x800000))\<rparr>"

lemma relay_lib_laws: "lib_laws relay_lib"
proof -
  have "q mod 0x1000000 \<le> seq_max" for q :: u32
    by (simp add: seq_max_def word_le_nat_alt unat_mod)
  then show ?thesis by (simp add: lib_laws_def relay_lib_def plain_lib_def seq_mod)
qed

theorem unanswered_report_is_refused_witness:
  "\<exists>s2. runErrHandler relay_lib (secs 110)
       (fst (on_rest (startTxLifeCycle relay_lib 4 relayed_tx (Some (ErrRequestTimeout 0x800000))) relaying))
       (snd (on_rest (startTxLifeCycle relay_lib 4 relayed_tx (Some (ErrRequestTimeout 0x800000))) relaying)) = Done s2
     \<and> held (rest_of s2) (UDPAddr_String upf_a, 7) \<noteq> None \<and> reportRelays s2 = Map.empty"
proof -
  have "Marshal relay_lib (NewRejection relay_lib 1 7) = Some [7]" by (simp add: relay_lib_def plain_lib_def)
  then show ?thesis
    using unanswered_report_is_refused [OF relaying_inv relay_lib_laws, of relayed_tx 1 "std_req 0x800000"
        "new_relay upf_a 7 (secs 101)" "secs 110" "\<lparr>Addr = tx_addr, Conn = Some \<lparr>LocalAddr = tx_text\<rparr>\<rparr>"
        "\<lparr>LocalAddr = tx_text\<rparr>" "[7]" 4 "ErrRequestTimeout 0x800000"]
    by (simp add: relayed_tx_def relay_lib_def plain_lib_def std_req_def outlived_iff secs_def seq_max_def tx_init_server
        split_beta Let_def) auto
qed

text \<open>An answer that is taken leaves the tables of addresses alone and ends its claim.\<close>

lemma report_response_frame:
  assumes "IsA lib MsgTypeSessionReportResponse rsp" "reportRelays s (Sequence lib rsp) = Some r"
    and "\<not> answered r" "\<not> outlived now (recorded r)"
  shows "reportRelays (HandlePfcpSessionReportResponse lib now rsp s) = (reportRelays s)(Sequence lib rsp := None)"
    "upfNodeAddrs (HandlePfcpSessionReportResponse lib now rsp s) = upfNodeAddrs s"
    "smfAddr (HandlePfcpSessionReportResponse lib now rsp s) = smfAddr s"
proof -
  let ?k = "Sequence lib rsp"
  obtain t where take: "TakeReportRelay ?k now s = (Some (upfAddr r, upfSeq r), t)"
    and relays: "reportRelays t = (reportRelays s)(?k \<mapsto> r\<lparr>answered := True\<rparr>)"
    using assms(2-4) by (simp add: TakeReportRelay_def outlived_def)
  let ?u = "snd (on_rest (SendPfcp lib (SetSequenceNumber lib (upfSeq r) rsp) (upfAddr r) (Some reportResponseEventData)) t)"
  have s1: "HandlePfcpSessionReportResponse lib now rsp s = ForgetReportRelay ?k ?u"
    using assms(1) by (simp add: HandlePfcpSessionReportResponse_def Let_def take split_beta)
  show "reportRelays (HandlePfcpSessionReportResponse lib now rsp s) = (reportRelays s)(?k := None)"
    using relays by (simp add: s1 ForgetReportRelay_def)
  have "relay_state.more (ForgetReportRelay ?k ?u) = relay_state.more ?u" by (simp add: ForgetReportRelay_def)
  note forget = addr_fields [OF this]
  have "relay_state.more t = relay_state.more s" using relay_exec_more [of "Take ?k now" s] take by simp
  note taken = addr_fields [OF this]
  show "upfNodeAddrs (HandlePfcpSessionReportResponse lib now rsp s) = upfNodeAddrs s"
    "smfAddr (HandlePfcpSessionReportResponse lib now rsp s) = smfAddr s"
    using forget taken by (simp_all add: s1 on_rest_def split_beta)
qed

lemma report_response_sends:
  assumes "IsA lib MsgTypeSessionReportResponse rsp" "reportRelays s (Sequence lib rsp) = Some r"
    and "\<not> answered r" "\<not> outlived now (recorded r)"
  shows "rest_of (HandlePfcpSessionReportResponse lib now rsp s)
    = snd (SendPfcp lib (SetSequenceNumber lib (upfSeq r) rsp) (upfAddr r) (Some reportResponseEventData) (rest_of s))"
proof -
  obtain t where take: "TakeReportRelay (Sequence lib rsp) now s = (Some (upfAddr r, upfSeq r), t)"
    using assms(2-4) by (simp add: TakeReportRelay_def outlived_def)
  moreover have "rest_of t = rest_of s" using relay_op_rest(3) [of "Sequence lib rsp" now s] by (simp add: take)
  ultimately show ?thesis
    using assms(1) by (simp add: HandlePfcpSessionReportResponse_def Let_def split_beta relay_op_rest(1))
qed

text \<open>A report that nothing claims is relayed under a new number, while one is free.\<close>

lemma unclaimed_report_relayed:
  assumes "adapter_inv s" "legal_orders (claim_orders e)" "IsA lib MsgTypeSessionReportRequest msg"
    and "IsKnownUpfAddr (addr_IP addr) (check_clock e) s" "SmfAddr s = Some smf"
    and "claimed (claim_clock e) addr (Sequence lib msg) s = {}"
    and "reportRelays s x = None" "relaySequenceFloor \<le> x" "x \<le> relaySequenceCeil"
  shows "\<exists>k t. RelayReportSequence (claim_orders e) addr (Sequence lib msg) (claim_clock e)
          (RelayGeneration (IP_String (addr_IP addr)) s) s = (Inr (k, True), t)
      \<and> HandlePfcpSessionReportRequest lib e msg (Some addr) s
        = relaySendLoop relaySendAttempts lib msg smf (SEID lib msg) (Sequence lib msg) addr k t"
proof -
  have inv: "relay_inv s" using assms(1) by (simp add: adapter_inv_def addr_inv_def)
  from inv assms(2) show ?thesis
  proof (cases rule: RelayReportSequence_cases [where addr = addr and seq = "Sequence lib msg" and now = "claim_clock e"
        and gen = "RelayGeneration (IP_String (addr_IP addr)) s"])
    case Exhausted
    have "reportRelays (sweepRelaysLocked (claim_orders e) (claim_clock e) s) x = None"
      using sweep_subset [OF inv assms(2)] assms(7) by (metis option.exhaust option.distinct(1))
    with Exhausted(3) [OF assms(8,9)] show ?thesis by simp
  next
    case (Fresh k)
    with assms(3-5) show ?thesis by (auto simp: HandlePfcpSessionReportRequest_def Let_def)
  qed (use assms(6) in simp_all)
qed

text \<open>
  Property C35. A copy of a report can be relayed a second time although its answer is held: a
  copy that was read and handed to its goroutine before the answer was registered, and that claims
  after the answer ended the first claim, is given a new number, and its relay starts while the
  answer is held under the number of the report. The answer could be encoded, the socket is open,
  and the report has no other claim.
\<close>

theorem delayed_copy_relayed_again:
  assumes "adapter_inv s" "lib_laws lib" "Server (rest_of s) = Some srv" "Conn srv = Some conn" "SmfAddr s = Some smf"
    and "Parse lib (take PFCP_MAX_UDP_LEN bytes) = Some copy" "IsRequest lib copy"
    and "IsA lib MsgTypeSessionReportRequest copy" "IsA lib MsgTypeSessionReportResponse rsp"
    and "reportRelays s (Sequence lib rsp) = Some r" "\<not> answered r" "\<not> outlived now (recorded r)"
    and "upfAddr r = addr" "upfSeq r = Sequence lib copy"
    and "held (rest_of s) (UDPAddr_String addr, Sequence lib copy) = None"
    and "legal_orders (claim_orders e)" "IsKnownUpfAddr (addr_IP addr) (check_clock e) s"
    and "claimed (claim_clock e) addr (Sequence lib copy) s = {Sequence lib rsp}"
    and "MessageType lib rsp = MsgTypeSessionReportResponse"
    and "Marshal lib (SetSequenceNumber lib (Sequence lib copy) rsp) = Some buf"
  shows "readLoop lib [Datagram bytes addr] (rest_of s) = (([(copy, addr)], False), rest_of s)
    \<and> (let s1 = HandlePfcpSessionReportResponse lib now rsp s; x = next_ref (rest_of s) in
        held (rest_of s1) (UDPAddr_String addr, Sequence lib copy) = Some x
        \<and> transactions (rest_of s1) x = Some (NewTransaction lib (SetSequenceNumber lib (Sequence lib copy) rsp) buf conn
              addr (Some reportResponseEventData))
        \<and> (\<exists>k t. RelayReportSequence (claim_orders e) addr (Sequence lib copy) (claim_clock e)
              (RelayGeneration (IP_String (addr_IP addr)) s1) s1 = (Inr (k, True), t)
          \<and> rest_of t = rest_of s1
          \<and> HandlePfcpSessionReportRequest lib e copy (Some addr) s1
            = relaySendLoop relaySendAttempts lib copy smf (SEID lib copy) (Sequence lib copy) addr k t))"
proof
  have inv: "addr_inv s" "relay_inv s" "tx_inv (rest_of s)" using assms(1) by (simp_all add: adapter_inv_def addr_inv_def)
  have "findTransaction lib copy addr (rest_of s) = Inr None"
    using find_refines(1) [OF inv(3) _ assms(7), of addr] assms(3,15) by simp
  then show "readLoop lib [Datagram bytes addr] (rest_of s) = (([(copy, addr)], False), rest_of s)"
    using assms(3,4,6,7) by (simp add: readPfcpMessage_def)
  let ?k = "Sequence lib rsp" and ?s1 = "HandlePfcpSessionReportResponse lib now rsp s"
  note frame = report_response_frame [OF assms(9-12)]
  have sends: "rest_of ?s1 = snd (SendPfcp lib (SetSequenceNumber lib (Sequence lib copy) rsp) addr
      (Some reportResponseEventData) (rest_of s))"
    using report_response_sends [OF assms(9-12)] assms(13,14) by simp
  note sent = sent_registered [OF inv(3) assms(3,4,20) response_key [OF assms(2) lib_lawsD(5) [OF assms(2,6)] assms(19)] assms(15),
      where ev = "Some reportResponseEventData"]
  have inv1: "adapter_inv ?s1" by (rule report_response_inv [OF assms(1)])
  then have "addr_inv ?s1" by (simp add: adapter_inv_def)
  then have known: "IsKnownUpfAddr (addr_IP addr) (check_clock e) ?s1"
    using assms(17) by (simp add: known_addr_iff inv(1) frame)
  have smf: "SmfAddr ?s1 = Some smf" using assms(5) unfolding SmfAddr_def frame .
  have unclaimed: "claimed (claim_clock e) addr (Sequence lib copy) ?s1 = {}"
    using assms(18) by (auto simp: claimed_def frame)
  have range: "relaySequenceFloor \<le> ?k" "?k \<le> relaySequenceCeil" using inv(2) assms(10) by (auto simp: relay_inv_def)
  have "reportRelays ?s1 ?k = None" by (simp add: frame)
  note again = unclaimed_report_relayed [OF inv1 assms(16,8) known smf unclaimed this range]
  then obtain k t where claim: "RelayReportSequence (claim_orders e) addr (Sequence lib copy) (claim_clock e)
        (RelayGeneration (IP_String (addr_IP addr)) ?s1) ?s1 = (Inr (k, True), t)"
    and relayed: "HandlePfcpSessionReportRequest lib e copy (Some addr) ?s1
        = relaySendLoop relaySendAttempts lib copy smf (SEID lib copy) (Sequence lib copy) addr k t" by blast
  have "rest_of t = rest_of ?s1"
    using relay_op_rest(4) [of "claim_orders e" addr "Sequence lib copy" "claim_clock e"
        "RelayGeneration (IP_String (addr_IP addr)) ?s1" ?s1] by (simp add: claim)
  with claim relayed sent show "let s1 = ?s1; x = next_ref (rest_of s) in
        held (rest_of s1) (UDPAddr_String addr, Sequence lib copy) = Some x
        \<and> transactions (rest_of s1) x = Some (NewTransaction lib (SetSequenceNumber lib (Sequence lib copy) rsp) buf conn
              addr (Some reportResponseEventData))
        \<and> (\<exists>k t. RelayReportSequence (claim_orders e) addr (Sequence lib copy) (claim_clock e)
              (RelayGeneration (IP_String (addr_IP addr)) s1) s1 = (Inr (k, True), t)
          \<and> rest_of t = rest_of s1
          \<and> HandlePfcpSessionReportRequest lib e copy (Some addr) s1
            = relaySendLoop relaySendAttempts lib copy smf (SEID lib copy) (Sequence lib copy) addr k t)"
    unfolding Let_def sends by auto
qed

theorem delayed_copy_relayed_again_witness:
  "readLoop wire_lib [Datagram [0, 7] upf_a] std_rest = (([(std_req 7, upf_a)], False), std_rest)
   \<and> (let s1 = HandlePfcpSessionReportResponse wire_lib (secs 102) (std_rsp 0x800000) relaying in
      held (rest_of s1) (UDPAddr_String upf_a, 7) = Some 0
      \<and> (\<exists>k t. RelayReportSequence std_orders upf_a 7 (secs 102) (RelayGeneration (IP_String (addr_IP upf_a)) s1) s1
          = (Inr (k, True), t)
        \<and> HandlePfcpSessionReportRequest wire_lib std_report_env (std_req 7) (Some upf_a) s1
          = relaySendLoop relaySendAttempts wire_lib (std_req 7)
             \<lparr>addr_IP = Some [10, 42, 0, 9], addr_Port = PfcpPort, addr_Zone = []\<rparr> 1 7 upf_a k t))"
proof -
  have p: "Parse wire_lib (take PFCP_MAX_UDP_LEN [0, 7]) = Some (std_req 7)" "IsRequest wire_lib (std_req 7)"
    "SEID wire_lib (std_req 7) = 1"
    by (simp_all add: wire_lib_def plain_lib_def IsRequest_def PFCP_MAX_UDP_LEN_def std_req_def)
  have "claimed (secs 102) upf_a 7 relaying = {0x800000}"
    by (auto simp: claimed_def same_report_def host_of_def outlived_iff secs_def split: if_splits)
  moreover have "IsKnownUpfAddr (addr_IP upf_a) (secs 102) relaying"
    using std_known relaying_inv std_adapter_inv by (simp add: adapter_inv_def known_addr_iff)
  moreover have "next_ref std_rest = 0" by (simp add: std_rest_def tx_state.defs tx_init_def)
  ultimately show ?thesis
    using delayed_copy_relayed_again [OF relaying_inv wire_lib_laws, of "\<lparr>Addr = tx_addr, Conn = Some \<lparr>LocalAddr = tx_text\<rparr>\<rparr>"
        "\<lparr>LocalAddr = tx_text\<rparr>" "\<lparr>addr_IP = Some [10, 42, 0, 9], addr_Port = PfcpPort, addr_Zone = []\<rparr>" "[0, 7]" "std_req 7"
        "std_rsp 0x800000" "new_relay upf_a 7 (secs 101)" "secs 102" upf_a std_report_env "[7]"] p
    by (simp add: tx_init_server SmfAddr_def std_report_env_def outlived_iff Let_def)
      (auto simp: std_req_def std_rsp_def secs_def)
qed

text \<open>
  An accepted association of a user plane that names itself by an IPv6 address ends in
  a panic: such an identity is never found in the table, and the handler stores the response
  through the nil it is given.
\<close>

lemma ipv6_association_panics:
  assumes "IsA lib MsgTypeAssociationSetupResponse msg" "RecoveryTimeStamp lib msg \<noteq> None"
    and "Cause lib msg = Some (CauseRequestAccepted lib)" "NodeIDText lib msg = Some text"
    and "ParseIP text \<noteq> None" "To4 (ParseIP text) = None"
  shows "HandlePfcpAssociationSetupResponse lib ord msg s = Panicked"
proof -
  have "NodeIdType (NewNodeID text) = NodeIdTypeIpv6Address"
    using assms(5,6) by (auto simp: NewNodeID_def Let_def)
  then have "ActivateUpfNode ord (NewNodeID text) (upfs (rest_of s)) = (None, upfs (rest_of s))"
    by (simp add: ActivateUpfNode_def get_upf_ipv6)
  with assms(1-4) show ?thesis by (auto simp: HandlePfcpAssociationSetupResponse_def)
qed


end
