(* ===== verification/Report_Threads.thy ===== *)
theory Report_Threads
  imports Handler_Properties
begin

text \<open>
  The handlers of session reports as goroutines (\<^verbatim>\<open>pfcp/handler/handler.go\<close>). Between
  two calls into the shared tables any other goroutine can run, so a handler is a thread that
  takes one call at a time: trying to send the report under a number, renumbering it, refusing it,
  answering it, releasing its claim. Any number of threads, new reports, answers, give-ups and
  other work of the adapter interleave freely. That every report stays absorbed at every moment, or
  is on record as lost, is an invariant of this system.
\<close>

section \<open>Threads\<close>

datatype 'm pc =
    Trying nat u32 'm
  | Renumbering nat u32 'm
  | Refusing u32
  | Answering u32 'm
  | Releasing u32
  | Ended

record 'm thread =
  th_addr :: UDPAddr
  th_seq :: u32
  th_seid :: u64
  th_smf :: UDPAddr
  th_pc :: "'m pc"

text \<open>
  One call of a thread. The relay of a report tries its numbers and renumbers; the answer of the
  SMF is sent under the number of the user plane; a refusal is sent; the claim is released.
\<close>

definition thread_step :: "'m pfcp_lib \<Rightarrow> 'm thread \<Rightarrow> 'm adapter \<Rightarrow> 'm pc \<times> 'm adapter" where
  "thread_step lib th s =
     (case th_pc th of
        Trying 0 k msg \<Rightarrow> (Refusing k, s)
      | Trying (Suc n) k msg \<Rightarrow>
          (let report = SetSequenceNumber lib k msg;
               (err, s) = on_rest (SendPfcp lib report (th_smf th)
                  (Some \<lparr>ErrHandler = RelayGiveUpHandler (th_seid th), LSEID = 0\<rparr>)) s in
           (case err of
              None \<Rightarrow> Ended
            | Some (ErrDuplicateSequence _) \<Rightarrow> Renumbering n k report
            | Some _ \<Rightarrow> Refusing k, s))
      | Renumbering n k report \<Rightarrow>
          (case RenumberReportRelay k s of
             (Inl ErrRelayNotHeld, s) \<Rightarrow> (Ended, s)
           | (Inl _, s) \<Rightarrow> (Refusing k, s)
           | (Inr renumbered, s) \<Rightarrow> (Trying n renumbered report, s))
      | Refusing k \<Rightarrow> (Releasing k, snd (rejectSessionReport lib (th_seid th) (th_seq th) (th_addr th) s))
      | Answering k response \<Rightarrow>
          (Releasing k, snd (on_rest (SendPfcp lib (SetSequenceNumber lib (th_seq th) response) (th_addr th)
             (Some reportResponseEventData)) s))
      | Releasing k \<Rightarrow> (Ended, ForgetReportRelay k s)
      | Ended \<Rightarrow> (Ended, s))"

text \<open>A thread that nothing comes between computes what its handler does in one piece.\<close>

primrec run_thread :: "'m pfcp_lib \<Rightarrow> nat \<Rightarrow> 'm thread \<Rightarrow> 'm adapter \<Rightarrow> 'm thread \<times> 'm adapter" where
  "run_thread lib 0 th s = (th, s)"
| "run_thread lib (Suc m) th s = (let (pc, s) = thread_step lib th s in run_thread lib m (th\<lparr>th_pc := pc\<rparr>) s)"

lemma run_thread_ended: "run_thread lib m (th\<lparr>th_pc := Ended\<rparr>) s = (th\<lparr>th_pc := Ended\<rparr>, s)"
  by (induction m) (simp_all add: thread_step_def)

lemma run_thread_refusing:
  "run_thread lib (Suc (Suc m)) (th\<lparr>th_pc := Refusing k\<rparr>) s
    = (th\<lparr>th_pc := Ended\<rparr>, refuseAndRelease lib (th_seid th) (th_seq th) (th_addr th) k s)"
  by (simp add: thread_step_def run_thread_ended refuseAndRelease_def split_beta)

lemma run_thread_relays:
  "run_thread lib (Suc (Suc (Suc (n + n)))) (th\<lparr>th_pc := Trying n k msg\<rparr>) s
   = (th\<lparr>th_pc := Ended\<rparr>,
      relaySendLoop n lib msg (th_smf th) (th_seid th) (th_seq th) (th_addr th) k s)"
proof (induction n arbitrary: k msg s)
  case 0
  show ?case
    by (subst run_thread.simps(2)) (simp add: thread_step_def run_thread_refusing del: run_thread.simps)
next
  case (Suc n)
  let ?m = "SetSequenceNumber lib k msg"
  let ?r = "on_rest (SendPfcp lib ?m (th_smf th) (Some \<lparr>ErrHandler = RelayGiveUpHandler (th_seid th), LSEID = 0\<rparr>)) s"
  have first: "run_thread lib (Suc (Suc (Suc (Suc n + Suc n)))) (th\<lparr>th_pc := Trying (Suc n) k msg\<rparr>) s
    = run_thread lib (Suc (Suc (Suc (Suc (n + n))))) (th\<lparr>th_pc := (case fst ?r of None \<Rightarrow> Ended
        | Some (ErrDuplicateSequence _) \<Rightarrow> Renumbering n k ?m | Some _ \<Rightarrow> Refusing k)\<rparr>) (snd ?r)"
    by (subst run_thread.simps(2)) (simp add: thread_step_def split_beta Let_def del: run_thread.simps)
  have dup: "run_thread lib (Suc (Suc (Suc (Suc (n + n))))) (th\<lparr>th_pc := Renumbering n k ?m\<rparr>) t
    = (th\<lparr>th_pc := Ended\<rparr>, case RenumberReportRelay k t of
         (Inl ErrRelayNotHeld, t) \<Rightarrow> t
       | (Inl _, t) \<Rightarrow> refuseAndRelease lib (th_seid th) (th_seq th) (th_addr th) k t
       | (Inr k', t) \<Rightarrow> relaySendLoop n lib ?m (th_smf th) (th_seid th) (th_seq th) (th_addr th) k' t)" for t
    by (subst run_thread.simps(2))
      (auto simp: thread_step_def Suc.IH run_thread_ended run_thread_refusing simp del: run_thread.simps
        split: prod.split sum.split relay_error.split)
  show ?case
    unfolding first
    by (auto simp: split_beta Let_def run_thread_ended run_thread_refusing dup simp del: run_thread.simps
        split: option.split udp_error.split)
qed

lemma run_thread_answers:
  assumes "IsA lib MsgTypeSessionReportResponse msg"
    and "TakeReportRelay (Sequence lib msg) now s = (Some (th_addr th, th_seq th), t)"
  shows "run_thread lib 2 (th\<lparr>th_pc := Answering (Sequence lib msg) msg\<rparr>) t
    = (th\<lparr>th_pc := Ended\<rparr>, HandlePfcpSessionReportResponse lib now msg s)"
  using assms by (simp add: thread_step_def HandlePfcpSessionReportResponse_def Let_def split_beta numeral_2_eq_2)

section \<open>The system of threads\<close>

text \<open>
  The number a thread works on: the relay and the answer of a report act on its entry until the
  claim is released.
\<close>

fun works_on :: "'m pc \<Rightarrow> u32 option" where
  "works_on (Trying n k msg) = Some k"
| "works_on (Renumbering n k msg) = Some k"
| "works_on (Refusing k) = Some k"
| "works_on (Answering k msg) = Some k"
| "works_on (Releasing k) = Some k"
| "works_on Ended = None"

abbreviation report_of :: "'m thread \<Rightarrow> UDPAddr \<times> u32" where
  "report_of th \<equiv> (th_addr th, th_seq th)"

text \<open>
  The sends of a refusal and of an answer that register nothing: there is no server, its socket is
  not open, or the message cannot be encoded. A send that is refused as a duplicate is none of
  them, since an answer is held then.
\<close>

definition fails :: "udp_error option \<Rightarrow> bool" where
  "fails err \<longleftrightarrow> (case err of None \<Rightarrow> False | Some (ErrDuplicateSequence _) \<Rightarrow> False | Some _ \<Rightarrow> True)"

definition unsent :: "'m pfcp_lib \<Rightarrow> 'm thread \<Rightarrow> 'm adapter \<Rightarrow> bool" where
  "unsent lib th s \<longleftrightarrow>
     (case th_pc th of
        Refusing k \<Rightarrow> fails (fst (rejectSessionReport lib (th_seid th) (th_seq th) (th_addr th) s))
      | Answering k response \<Rightarrow>
          fails (fst (on_rest (SendPfcp lib (SetSequenceNumber lib (th_seq th) response) (th_addr th)
            (Some reportResponseEventData)) s))
      | _ \<Rightarrow> False)"

text \<open>
  What else can end for a report while the threads stand still: the release of its peer takes its
  entry, or its answer, away; the resend window of the answer closes, by its deadline, by an error
  of a write or after the third retransmission.
\<close>

definition taken_from :: "'m adapter \<Rightarrow> 'm adapter \<Rightarrow> UDPAddr \<times> u32 \<Rightarrow> bool" where
  "taken_from s s' report \<longleftrightarrow>
     (\<exists>k r. reportRelays s k = Some r \<and> (upfAddr r, upfSeq r) = report \<and> reportRelays s' k = None)
     \<or> held (rest_of s) (UDPAddr_String (fst report), snd report) \<noteq> None
       \<and> held (rest_of s') (UDPAddr_String (fst report), snd report) = None"

text \<open>
  The system is the adapter, its threads, and a record of the reports that are lost: since such a
  report was last claimed, the send of its answer or refusal failed, or its entry or its answer was
  taken away. A step of the system, during which the clock stays before \<open>tend\<close>: a fresh report
  starts a thread; another claim changes what its sweep does; a thread takes a step; the answer of
  the SMF, or the end of the wait for it, starts a thread, whatever the others are at; anything
  else the adapter does, which adds no entry to the relay table. Two things are asked of a step.
  A report is claimed or answered while its entry does not outlive its lifetime by \<open>tend\<close>, and
  no number is given out anew while a thread still works under it (the counter would have to go
  round all eight million numbers within that thread's run).
\<close>

type_synonym 'm report_sys = "'m adapter \<times> 'm thread list \<times> (UDPAddr \<times> u32) set"

inductive sys_step :: "'m pfcp_lib \<Rightarrow> time \<Rightarrow> 'm report_sys \<Rightarrow> 'm report_sys \<Rightarrow> bool"
  for lib tend where
  arrives: "legal_orders it \<Longrightarrow> now \<le> tend \<Longrightarrow> \<not> outlived tend now \<Longrightarrow> seq \<le> seq_max
    \<Longrightarrow> RelayReportSequence it addr seq now gen s = (Inr (k, True), s')
    \<Longrightarrow> (\<forall>th \<in> set ths. works_on (th_pc th) \<noteq> Some k)
    \<Longrightarrow> sys_step lib tend (s, ths, lost) (s', ths @ [\<lparr>th_addr = addr, th_seq = seq, th_seid = seid, th_smf = smf,
          th_pc = Trying relaySendAttempts k msg\<rparr>], lost - {(addr, seq)})"
| repeated: "legal_orders it \<Longrightarrow> now \<le> tend \<Longrightarrow> RelayReportSequence it addr seq now gen s = (r, s')
    \<Longrightarrow> (\<forall>k. r \<noteq> Inr (k, True)) \<Longrightarrow> sys_step lib tend (s, ths, lost) (s', ths, lost)"
| runs: "i < length ths \<Longrightarrow> thread_step lib (ths ! i) s = (pc, s')
    \<Longrightarrow> (\<forall>th \<in> set ths. works_on pc \<noteq> works_on (th_pc (ths ! i)) \<longrightarrow> works_on pc \<noteq> None
          \<longrightarrow> works_on (th_pc th) \<noteq> works_on pc)
    \<Longrightarrow> sys_step lib tend (s, ths, lost) (s', ths[i := (ths ! i)\<lparr>th_pc := pc\<rparr>],
          if unsent lib (ths ! i) s then insert (report_of (ths ! i)) lost else lost)"
| answered: "TakeReportRelay k now s = (Some (addr, seq), s') \<Longrightarrow> k \<in> claimed tend addr seq s \<Longrightarrow> seq \<le> seq_max
    \<Longrightarrow> pc = Refusing k \<or> pc = Answering k msg \<and> MessageType lib msg = MsgTypeSessionReportResponse
    \<Longrightarrow> sys_step lib tend (s, ths, lost)
          (s', ths @ [\<lparr>th_addr = addr, th_seq = seq, th_seid = seid, th_smf = smf, th_pc = pc\<rparr>], lost)"
| elsewhere: "adapter_inv s' \<Longrightarrow> reportRelays s' \<subseteq>\<^sub>m reportRelays s
    \<Longrightarrow> sys_step lib tend (s, ths, lost) (s', ths, lost \<union> {report. taken_from s s' report})"

text \<open>
  A report is settled when its answer is held, or it is lost. A thread is secured when an entry of
  its report is there or the report is settled; when the entry under the number it works on, if one
  is there, is that of its report; and when, about to release that entry, its report is settled.
\<close>

definition owns :: "time \<Rightarrow> 'm adapter \<Rightarrow> 'm thread \<Rightarrow> u32 \<Rightarrow> bool" where
  "owns tend s th k \<longleftrightarrow> (\<exists>r. reportRelays s k = Some r \<and> upfAddr r = th_addr th \<and> upfSeq r = th_seq th
     \<and> \<not> outlived tend (recorded r))"

definition answer_for :: "'m adapter \<Rightarrow> 'm thread \<Rightarrow> bool" where
  "answer_for s th \<longleftrightarrow> held (rest_of s) (UDPAddr_String (th_addr th), th_seq th) \<noteq> None"

definition settled :: "(UDPAddr \<times> u32) set \<Rightarrow> 'm adapter \<Rightarrow> 'm thread \<Rightarrow> bool" where
  "settled lost s th \<longleftrightarrow> answer_for s th \<or> report_of th \<in> lost"

definition secured :: "time \<Rightarrow> (UDPAddr \<times> u32) set \<Rightarrow> 'm adapter \<Rightarrow> 'm thread \<Rightarrow> bool" where
  "secured tend lost s th \<longleftrightarrow>
     ((\<exists>k. owns tend s th k) \<or> settled lost s th)
     \<and> (\<forall>k. works_on (th_pc th) = Some k \<longrightarrow> reportRelays s k \<noteq> None \<longrightarrow> owns tend s th k)
     \<and> (\<forall>k. th_pc th = Releasing k \<longrightarrow> reportRelays s k \<noteq> None \<longrightarrow> settled lost s th)"

definition sys_inv :: "'m pfcp_lib \<Rightarrow> time \<Rightarrow> 'm report_sys \<Rightarrow> bool" where
  "sys_inv lib tend c \<longleftrightarrow>
     (case c of (s, ths, lost) \<Rightarrow>
        adapter_inv s
        \<and> (\<forall>th \<in> set ths. th_seq th \<le> seq_max \<and> secured tend lost s th
             \<and> (\<forall>k msg. th_pc th = Answering k msg \<longrightarrow> MessageType lib msg = MsgTypeSessionReportResponse)))"

lemma secured_absorbed:
  "secured tend lost s th \<Longrightarrow> absorbed tend (th_addr th) (th_seq th) s \<or> report_of th \<in> lost"
  by (auto simp: secured_def settled_def owns_def answer_for_def absorbed_def claimed_def same_report_def host_of_def)

lemma outlived_earlier: "\<not> outlived tend t \<Longrightarrow> now \<le> tend \<Longrightarrow> \<not> outlived now t"
  by (simp add: outlived_iff)

text \<open>What a step has to keep for a thread that does not take it.\<close>

lemma secured_keep:
  assumes "secured tend lost s th"
    and "\<And>k. owns tend s th k \<Longrightarrow> (\<exists>k. owns tend s' th k) \<or> settled lost' s' th"
    and "settled lost s th \<Longrightarrow> settled lost' s' th \<or> (\<exists>k. owns tend s' th k)"
    and "\<And>k. works_on (th_pc th) = Some k \<Longrightarrow> reportRelays s' k \<noteq> None
      \<Longrightarrow> reportRelays s k \<noteq> None \<and> (owns tend s th k \<longrightarrow> owns tend s' th k)"
    and "\<And>k. works_on (th_pc th) = Some k \<Longrightarrow> reportRelays s' k \<noteq> None \<Longrightarrow> owns tend s' th k
      \<Longrightarrow> settled lost s th \<Longrightarrow> settled lost' s' th"
  shows "secured tend lost' s' th"
proof -
  have works: "owns tend s' th k" if "works_on (th_pc th) = Some k" "reportRelays s' k \<noteq> None" for k
    using assms(1,4) that unfolding secured_def by blast
  have "settled lost' s' th" if k: "th_pc th = Releasing k" "reportRelays s' k \<noteq> None" for k
  proof -
    have on: "works_on (th_pc th) = Some k" using k(1) by simp
    then have "settled lost s th" using assms(1,4) k unfolding secured_def by blast
    then show ?thesis using assms(5) works on k(2) by blast
  qed
  moreover have "(\<exists>k. owns tend s' th k) \<or> settled lost' s' th" using assms(1-3) unfolding secured_def by blast
  ultimately show ?thesis using works unfolding secured_def by blast
qed

text \<open>
  The things a step does to the tables: it leaves the relays and adds to the answers, it moves an
  entry to a free number, or it drops an entry whose report is settled.
\<close>

lemma settled_more: "settled lost s th \<Longrightarrow> (answer_for s th \<Longrightarrow> answer_for s' th) \<Longrightarrow> lost \<subseteq> lost' \<Longrightarrow> settled lost' s' th"
  by (auto simp: settled_def)

lemma secured_send:
  assumes "secured tend lost s th" "reportRelays s' = reportRelays s" "answer_for s th \<Longrightarrow> answer_for s' th"
    and "lost \<subseteq> lost'"
  shows "secured tend lost' s' th"
  by (rule secured_keep [OF assms(1)]) (use assms(2-4) in \<open>auto simp: owns_def intro: settled_more\<close>)

lemma secured_move:
  assumes "secured tend lost s th" "works_on (th_pc th) \<noteq> Some k'" "rest_of s' = rest_of s"
    and "reportRelays s k = Some r" "reportRelays s k' = None" "reportRelays s' = (reportRelays s)(k := None, k' \<mapsto> r)"
  shows "secured tend lost s' th"
proof (rule secured_keep [OF assms(1)])
  fix x assume x: "owns tend s th x"
  then have "x = k \<Longrightarrow> owns tend s' th k'" "x \<noteq> k \<Longrightarrow> owns tend s' th x"
    using assms(4-6) by (auto simp: owns_def)
  then show "(\<exists>k. owns tend s' th k) \<or> settled lost s' th" by blast
qed (use assms(2,3,6) in \<open>auto simp: answer_for_def settled_def owns_def split: if_splits\<close>)

lemma secured_drop:
  assumes "secured tend lost s th" "rest_of s' = rest_of s"
    and "reportRelays s k \<noteq> None \<Longrightarrow> owns tend s own k \<and> settled lost s own"
    and "reportRelays s' = (reportRelays s)(k := None)"
  shows "secured tend lost s' th"
proof (rule secured_keep [OF assms(1)])
  fix x assume x: "owns tend s th x"
  show "(\<exists>k. owns tend s' th k) \<or> settled lost s' th"
  proof (cases "x = k")
    case True
    with x assms(3) have "th_addr th = th_addr own" "th_seq th = th_seq own" "settled lost s own"
      by (auto simp: owns_def)
    with assms(2) show ?thesis by (simp add: answer_for_def settled_def)
  next
    case False
    with x assms(4) show ?thesis by (auto simp: owns_def)
  qed
qed (use assms(2,4) in \<open>auto simp: answer_for_def settled_def owns_def split: if_splits\<close>)

lemma send_answers:
  assumes "adapter_inv s"
  shows "answer_for s th \<Longrightarrow> answer_for (snd (on_rest (SendPfcp lib msg addr ev) s)) th"
proof -
  have "tx_inv (rest_of s)" using assms by (simp add: adapter_inv_def)
  then show "answer_for s th \<Longrightarrow> ?thesis"
    by (cases rule: SendPfcp_cases [where lib = lib and msg = msg and addr = addr and ev = ev])
      (auto simp: answer_for_def)
qed

text \<open>A send that does not fail leaves an answer held under the key of its message.\<close>

lemma sent_held:
  assumes "tx_inv w" "\<not> fails (fst (SendPfcp lib msg addr ev w))" "\<And>conn. tx_key lib conn addr msg = key"
  shows "held (snd (SendPfcp lib msg addr ev w)) key \<noteq> None"
  using assms(1)
  by (cases rule: SendPfcp_cases [where lib = lib and msg = msg and addr = addr and ev = ev])
    (use assms(2,3) in \<open>auto simp: fails_def\<close>)

text \<open>
  While the socket is up and every message can be encoded, no send fails; both stay so while
  messages are sent.
\<close>

definition sending :: "'m pfcp_lib \<Rightarrow> 'm adapter \<Rightarrow> bool" where
  "sending lib s \<longleftrightarrow> lib_laws lib \<and> (\<forall>msg. Marshal lib msg \<noteq> None)
     \<and> (\<exists>srv. Server (rest_of s) = Some srv \<and> Conn srv \<noteq> None)"

lemma sending_not_unsent:
  assumes "adapter_inv s" "sending lib s"
  shows "\<not> unsent lib th s"
proof -
  have "\<not> fails (fst (SendPfcp lib msg addr ev (rest_of s)))" for msg addr ev
  proof -
    have ready: "Marshal lib msg \<noteq> None" "Server (rest_of s) \<noteq> None" "Conn (the (Server (rest_of s))) \<noteq> None"
      using assms(2) by (auto simp: sending_def simp del: not_None_eq)
    have "tx_inv (rest_of s)" using assms(1) by (simp add: adapter_inv_def)
    then show ?thesis
      by (cases rule: SendPfcp_cases [where lib = lib and msg = msg and addr = addr and ev = ev])
        (use ready in \<open>simp_all add: fails_def\<close>)
  qed
  then show ?thesis by (simp add: unsent_def rejectSessionReport_def split: pc.split)
qed

lemma sending_send: "adapter_inv s \<Longrightarrow> sending lib s \<Longrightarrow> sending lib (snd (on_rest (SendPfcp lib' msg addr ev) s))"
  using send_keeps_ready [of "rest_of s" lib' msg addr ev] by (simp add: sending_def adapter_inv_def)

lemma refusal_answers:
  assumes "adapter_inv s" "lib_laws lib" "th_seq th \<le> seq_max" "th_pc th = Refusing k" "\<not> unsent lib th s"
  shows "answer_for (snd (rejectSessionReport lib (th_seid th) (th_seq th) (th_addr th) s)) th"
  using sent_held [OF _ _ rejection_key [OF assms(2,3)], of "rest_of s"] assms
  by (simp add: answer_for_def adapter_inv_def unsent_def rejectSessionReport_def)

lemma response_answers:
  assumes "adapter_inv s" "lib_laws lib" "th_seq th \<le> seq_max" "th_pc th = Answering k msg" "\<not> unsent lib th s"
    and "MessageType lib msg = MsgTypeSessionReportResponse"
  shows "answer_for (snd (on_rest (SendPfcp lib (SetSequenceNumber lib (th_seq th) msg) (th_addr th)
    (Some reportResponseEventData)) s)) th"
  using sent_held [OF _ _ response_key [OF assms(2,3,6)], of "rest_of s"] assms
  by (simp add: answer_for_def adapter_inv_def unsent_def)

lemma owns_pc [simp]: "owns tend s (th\<lparr>th_pc := pc\<rparr>) = owns tend s th"
  "answer_for s (th\<lparr>th_pc := pc\<rparr>) = answer_for s th" "settled lost s (th\<lparr>th_pc := pc\<rparr>) = settled lost s th"
  by (simp_all add: owns_def answer_for_def settled_def fun_eq_iff)

lemma thread_step_cases:
  assumes "adapter_inv s" "lib_laws lib" "th_seq th \<le> seq_max"
    and "\<And>k msg. th_pc th = Answering k msg \<Longrightarrow> MessageType lib msg = MsgTypeSessionReportResponse"
    and "thread_step lib th s = (pc, s')"
  obtains (Sends) "reportRelays s' = reportRelays s" "\<And>th'. answer_for s th' \<Longrightarrow> answer_for s' th'"
      "adapter_inv s'" "works_on pc = None \<or> works_on pc = works_on (th_pc th)" "\<And>k msg. pc \<noteq> Answering k msg"
      "\<And>k. pc = Releasing k \<Longrightarrow> \<not> unsent lib th s \<Longrightarrow> answer_for s' th"
  | (Moves) k k' r n msg where "th_pc th = Renumbering n k msg" "reportRelays s k = Some r" "reportRelays s k' = None"
      "reportRelays s' = (reportRelays s)(k := None, k' \<mapsto> r)" "rest_of s' = rest_of s" "adapter_inv s'"
      "pc = Trying n k' msg" "k' \<noteq> k"
  | (Drops) k where "th_pc th = Releasing k" "pc = Ended" "reportRelays s' = (reportRelays s)(k := None)"
      "rest_of s' = rest_of s" "adapter_inv s'"
proof (cases "th_pc th")
  case (Trying n k msg)
  show thesis
  proof (cases n)
    case 0
    with Trying assms show thesis by (intro Sends) (auto simp: thread_step_def)
  next
    case (Suc m)
    let ?msg = "SetSequenceNumber lib k msg"
      and ?ev = "Some \<lparr>ErrHandler = RelayGiveUpHandler (th_seid th), LSEID = 0\<rparr>"
    let ?r = "on_rest (SendPfcp lib ?msg (th_smf th) ?ev) s"
    have "s' = snd ?r" "pc = Ended \<or> pc = Renumbering m k ?msg \<or> pc = Refusing k"
      using assms(5) Trying Suc
      by (auto simp: thread_step_def split_beta Let_def split: option.splits udp_error.splits)
    then show thesis
      using Trying send_answers [OF assms(1)] send_inv [OF assms(1)] by (intro Sends) auto
  qed
next
  case (Renumbering n k msg)
  show thesis
  proof (cases rule: RenumberReportRelay_cases [of s k])
    case NotHeld
    with Renumbering assms show thesis by (intro Sends) (auto simp: thread_step_def)
  next
    case (Exhausted r)
    with Renumbering assms show thesis by (intro Sends) (auto simp: thread_step_def)
  next
    case (Moved r k')
    have s': "s' = snd (RenumberReportRelay k s)" "pc = Trying n k' msg"
      using assms(5) Renumbering Moved by (simp_all add: thread_step_def)
    have "adapter_inv s'" using relay_exec_inv [OF assms(1), of "Renumber k"] s' by simp
    then show thesis
      using Moved Renumbering s' relay_op_rest(2) [of k s]
      by (intro Moves [of n k msg r k']) (simp_all add: fun_upd_twist)
  qed
next
  case (Refusing k)
  let ?s = "snd (rejectSessionReport lib (th_seid th) (th_seq th) (th_addr th) s)"
  have "s' = ?s" "pc = Releasing k" using assms(5) Refusing by (simp_all add: thread_step_def)
  moreover have "reportRelays ?s = reportRelays s" "\<And>th'. answer_for s th' \<Longrightarrow> answer_for ?s th'"
    using send_answers [OF assms(1)] by (simp_all add: rejectSessionReport_def)
  ultimately show thesis
    using Refusing reject_inv [OF assms(1)] refusal_answers [OF assms(1-3) Refusing] by (intro Sends) auto
next
  case (Answering k msg)
  have "s' = snd (on_rest (SendPfcp lib (SetSequenceNumber lib (th_seq th) msg) (th_addr th) (Some reportResponseEventData)) s)"
    "pc = Releasing k" using assms(5) Answering by (simp_all add: thread_step_def)
  then show thesis
    using Answering send_answers [OF assms(1)] send_inv [OF assms(1)]
      response_answers [OF assms(1-3) Answering _ assms(4) [OF Answering]]
    by (intro Sends) auto
next
  case (Releasing k)
  have "s' = ForgetReportRelay k s" "pc = Ended" using assms(5) Releasing by (simp_all add: thread_step_def)
  then show thesis
    using Releasing forget_relay_inv [OF assms(1)] relay_op_rest(1) [of k s]
    by (intro Drops [of k]) (simp_all add: ForgetReportRelay_def)
next
  case Ended
  then have "s' = s" "pc = Ended" using assms(5) by (simp_all add: thread_step_def)
  then show thesis using assms by (intro Sends) simp_all
qed

section \<open>The invariant of the system\<close>

lemma sys_invD:
  assumes "sys_inv lib tend (s, ths, lost)"
  shows "adapter_inv s" "relay_inv s"
    and "th \<in> set ths \<Longrightarrow> secured tend lost s th"
    and "th \<in> set ths \<Longrightarrow> th_seq th \<le> seq_max"
    and "th \<in> set ths \<Longrightarrow> th_pc th = Answering k msg \<Longrightarrow> MessageType lib msg = MsgTypeSessionReportResponse"
  using assms by (auto simp: sys_inv_def adapter_inv_def addr_inv_def)

lemma sys_inv_add:
  assumes "sys_inv lib tend (s, ths, lost)" "secured tend lost s th" "th_seq th \<le> seq_max"
    and "\<And>k msg. th_pc th = Answering k msg \<Longrightarrow> MessageType lib msg = MsgTypeSessionReportResponse"
  shows "sys_inv lib tend (s, ths @ [th], lost)"
  using assms by (auto simp: sys_inv_def)

text \<open>The state changes and the threads stay.\<close>

lemma sys_inv_state:
  assumes "sys_inv lib tend (s, ths, lost)" "adapter_inv s'"
    and "\<And>th. th \<in> set ths \<Longrightarrow> secured tend lost s th \<Longrightarrow> secured tend lost' s' th"
  shows "sys_inv lib tend (s', ths, lost')"
  using assms by (auto simp: sys_inv_def)

text \<open>One thread moves on.\<close>

lemma sys_inv_thread:
  assumes "sys_inv lib tend (s, ths, lost)" "i < length ths" "adapter_inv s'"
    and "secured tend lost' s' ((ths ! i)\<lparr>th_pc := pc\<rparr>)"
    and "\<And>j. j < length ths \<Longrightarrow> j \<noteq> i \<Longrightarrow> secured tend lost' s' (ths ! j)"
    and "\<And>k msg. pc \<noteq> Answering k msg"
  shows "sys_inv lib tend (s', ths[i := (ths ! i)\<lparr>th_pc := pc\<rparr>], lost')"
proof -
  let ?ths = "ths[i := (ths ! i)\<lparr>th_pc := pc\<rparr>]"
  have "th_seq th \<le> seq_max \<and> secured tend lost' s' th
      \<and> (\<forall>k msg. th_pc th = Answering k msg \<longrightarrow> MessageType lib msg = MsgTypeSessionReportResponse)"
    if "th \<in> set ?ths" for th
  proof -
    from that obtain j where j: "j < length ths" "th = ?ths ! j" by (auto simp: in_set_conv_nth)
    then have "ths ! j \<in> set ths" by simp
    then show ?thesis
      using j assms(4-6) sys_invD(4,5) [OF assms(1), of "ths ! j"] by (cases "j = i") auto
  qed
  then show ?thesis using assms(3) unfolding sys_inv_def by simp
qed

text \<open>A claim drops nothing that a thread of the run owns.\<close>

lemma claim_step:
  assumes "sys_inv lib tend (s, ths, lost)" "legal_orders it" "now \<le> tend"
    and "RelayReportSequence it addr seq now gen s = (r, s')"
  shows "adapter_inv s'" "\<And>th k. owns tend s th k \<Longrightarrow> owns tend s' th k"
    and "\<And>x. reportRelays s' x \<noteq> None \<Longrightarrow> r \<noteq> Inr (x, True) \<Longrightarrow> reportRelays s x \<noteq> None"
    and "r = Inr (k, True) \<Longrightarrow> reportRelays s' k = Some (new_relay addr seq now)"
    and "r = Inr (k, True) \<Longrightarrow> claimed now addr seq s = {}"
proof -
  note inv = sys_invD(1,2) [OF assms(1)]
  show "adapter_inv s'" using relay_exec_inv [OF inv(1), of "Claim it addr seq now gen"] assms(2,4) by simp
  have sweep: "owns tend s th x \<Longrightarrow> owns tend (sweepRelaysLocked it now s) th x" for th x
    using sweep_keeps_live [OF inv(2) assms(2)] outlived_earlier [OF _ assms(3)]
    unfolding owns_def by blast
  have subset: "reportRelays (sweepRelaysLocked it now s) x \<noteq> None \<Longrightarrow> reportRelays s x \<noteq> None" for x
    using sweep_subset [OF inv(2) assms(2)] by fastforce
  have fresh: "owns tend (sweepRelaysLocked it now s) th x \<Longrightarrow> reportRelays (sweepRelaysLocked it now s) y = None
      \<Longrightarrow> owns tend (recordRelayLocked y q ((sweepRelaysLocked it now s)\<lparr>reportRelaySeq := y\<rparr>)) th x" for th x y q
    by (auto simp: owns_def)
  note cases = RelayReportSequence_cases [OF inv(2) assms(2), where addr = addr and seq = seq and now = now and gen = gen]
  show "owns tend s' th x" if "owns tend s th x" for th x
    by (cases rule: cases) (use assms(4) that sweep fresh in auto)
  show "reportRelays s x \<noteq> None" if "reportRelays s' x \<noteq> None" "r \<noteq> Inr (x, True)" for x
    by (cases rule: cases) (use assms(4) that subset in \<open>auto split: if_splits\<close>)
  show "reportRelays s' k = Some (new_relay addr seq now)" "claimed now addr seq s = {}" if "r = Inr (k, True)"
    by (cases rule: cases; use assms(4) that in auto)+
qed

lemma secured_claim:
  assumes "secured tend lost s th" "\<And>k. owns tend s th k \<Longrightarrow> owns tend s' th k" "rest_of s' = rest_of s"
    and "\<And>k. works_on (th_pc th) = Some k \<Longrightarrow> reportRelays s' k \<noteq> None \<Longrightarrow> reportRelays s k \<noteq> None"
  shows "secured tend lost s' th"
proof (rule secured_keep [OF assms(1)])
  show "(\<exists>k. owns tend s' th k) \<or> settled lost s' th" if "owns tend s th k" for k
    using assms(2) [OF that] by blast
  show "reportRelays s k \<noteq> None \<and> (owns tend s th k \<longrightarrow> owns tend s' th k)"
    if "works_on (th_pc th) = Some k" "reportRelays s' k \<noteq> None" for k
    using assms(2,4) that by blast
qed (use assms(3) in \<open>auto simp: answer_for_def settled_def\<close>)

text \<open>
  A report that is claimed anew is no longer lost: the new entry absorbs it, and an entry of it
  that another thread was still to release is not there any more.
\<close>

lemma secured_arrival:
  assumes "secured tend lost s th" "\<And>th k. owns tend s th k \<Longrightarrow> owns tend s' th k" "rest_of s' = rest_of s"
    and "\<And>x. works_on (th_pc th) = Some x \<Longrightarrow> reportRelays s' x \<noteq> None \<Longrightarrow> reportRelays s x \<noteq> None"
    and "reportRelays s' k = Some (new_relay addr seq now)" "\<not> outlived tend now"
    and "claimed now addr seq s = {}" "now \<le> tend"
  shows "secured tend (lost - {(addr, seq)}) s' th"
proof (rule secured_keep [OF assms(1)])
  have new: "owns tend s' th k" if "report_of th = (addr, seq)" using that assms(5,6) by (simp add: owns_def)
  show "(\<exists>k. owns tend s' th k) \<or> settled (lost - {(addr, seq)}) s' th" if "owns tend s th x" for x
    using assms(2) [OF that] by blast
  show "settled (lost - {(addr, seq)}) s' th \<or> (\<exists>k. owns tend s' th k)" if "settled lost s th"
    using that new assms(3) by (auto simp: settled_def answer_for_def)
  show on: "reportRelays s x \<noteq> None \<and> (owns tend s th x \<longrightarrow> owns tend s' th x)"
    if "works_on (th_pc th) = Some x" "reportRelays s' x \<noteq> None" for x
    using assms(2,4) that by blast
  show "settled (lost - {(addr, seq)}) s' th"
    if "works_on (th_pc th) = Some x" "reportRelays s' x \<noteq> None" "owns tend s' th x" "settled lost s th" for x
  proof -
    have "owns tend s th x" using assms(1) on [OF that(1,2)] that(1) unfolding secured_def by blast
    then obtain r where r: "reportRelays s x = Some r" "upfAddr r = th_addr th" "upfSeq r = th_seq th"
      "\<not> outlived tend (recorded r)" by (auto simp: owns_def)
    have "report_of th \<noteq> (addr, seq)"
    proof
      assume "report_of th = (addr, seq)"
      with r(1-3) outlived_earlier [OF r(4) assms(8)] have "x \<in> claimed now addr seq s"
        by (simp add: claimed_def same_report_def host_of_def)
      with assms(7) show False by simp
    qed
    with that(4) assms(3) show ?thesis by (simp add: settled_def answer_for_def)
  qed
qed

lemma thread_runs_inv:
  assumes "sys_inv lib tend (s, ths, lost)" "lib_laws lib" "i < length ths" "thread_step lib (ths ! i) s = (pc, s')"
    and "\<forall>th \<in> set ths. works_on pc \<noteq> works_on (th_pc (ths ! i)) \<longrightarrow> works_on pc \<noteq> None
      \<longrightarrow> works_on (th_pc th) \<noteq> works_on pc"
  shows "sys_inv lib tend (s', ths[i := (ths ! i)\<lparr>th_pc := pc\<rparr>],
    if unsent lib (ths ! i) s then insert (report_of (ths ! i)) lost else lost)"
    (is "sys_inv lib tend (s', _, ?lost)")
proof -
  note inv = sys_invD [OF assms(1)]
  have mem: "ths ! i \<in> set ths" using assms(3) by simp
  have secure: "secured tend lost s (ths ! j)" if "j < length ths" for j using inv(3) that by simp
  have more: "lost \<subseteq> ?lost" by auto
  note cases = thread_step_cases [OF inv(1) assms(2) inv(4) [OF mem] _ assms(4)]
  show ?thesis
  proof (rule cases, erule inv(5) [OF mem], goal_cases Sends Moves Drops)
    case Sends
    have "secured tend ?lost s' (ths ! i)" by (rule secured_send [OF secure [OF assms(3)] Sends(1,2) more])
    moreover have "settled ?lost s' (ths ! i)" if "pc = Releasing k" for k
      using Sends(6) [OF that] by (auto simp: settled_def)
    ultimately have "secured tend ?lost s' ((ths ! i)\<lparr>th_pc := pc\<rparr>)" using Sends(4) by (auto simp: secured_def)
    then show ?thesis
      by (rule sys_inv_thread [OF assms(1,3) Sends(3)]) (use secured_send [OF secure Sends(1,2) more] Sends(5) in simp_all)
  next
    case (Moves k k' r n msg)
    then have lost: "?lost = lost" by (simp add: unsent_def)
    have "owns tend s (ths ! i) k" using secure [OF assms(3)] Moves(1,2) by (auto simp: secured_def)
    then have "owns tend s' (ths ! i) k'" using Moves(2,4) by (auto simp: owns_def)
    then have "secured tend lost s' ((ths ! i)\<lparr>th_pc := pc\<rparr>)" using Moves(7) by (auto simp: secured_def)
    then show ?thesis unfolding lost
    proof (rule sys_inv_thread [OF assms(1,3) Moves(6)])
      show "secured tend lost s' (ths ! j)" if j: "j < length ths" for j
      proof (rule secured_move [OF secure [OF j] _ Moves(5,2-4)])
        show "works_on (th_pc (ths ! j)) \<noteq> Some k'" using assms(5) Moves(1,7,8) j by simp
      qed
    qed (simp add: Moves(7))
  next
    case (Drops k)
    then have lost: "?lost = lost" by (simp add: unsent_def)
    have own: "reportRelays s k \<noteq> None \<Longrightarrow> owns tend s (ths ! i) k \<and> settled lost s (ths ! i)"
      using secure [OF assms(3)] Drops(1) by (simp add: secured_def)
    have kept: "secured tend lost s' (ths ! j)" if "j < length ths" for j
      by (rule secured_drop [OF secure [OF that] Drops(4) own Drops(3)])
    then have "secured tend lost s' ((ths ! i)\<lparr>th_pc := pc\<rparr>)"
      using assms(3) Drops(2) by (simp add: secured_def)
    then show ?thesis unfolding lost
      by (rule sys_inv_thread [OF assms(1,3) Drops(5)]) (simp_all add: kept Drops(2))
  qed
qed

text \<open>Every step of the system keeps its invariant.\<close>

lemma sys_step_inv: "sys_step lib tend c c' \<Longrightarrow> lib_laws lib \<Longrightarrow> sys_inv lib tend c \<Longrightarrow> sys_inv lib tend c'"
proof (induction rule: sys_step.induct)
  case (arrives it now seq addr gen s k s' ths lost seid smf msg)
  note claim = claim_step [OF arrives.prems(2) arrives.hyps(1,2,5)]
  have rest: "rest_of s' = rest_of s" using relay_op_rest(4) [of it addr seq now gen s] arrives.hyps(5) by simp
  have new: "reportRelays s' k = Some (new_relay addr seq now)" "claimed now addr seq s = {}" using claim(4,5) by auto
  have "sys_inv lib tend (s', ths, lost - {(addr, seq)})"
  proof (rule sys_inv_state [OF arrives.prems(2) claim(1)])
    show "secured tend (lost - {(addr, seq)}) s' th" if th: "th \<in> set ths" "secured tend lost s th" for th
      by (rule secured_arrival [OF th(2) claim(2) rest _ new(1) arrives.hyps(3) new(2) arrives.hyps(2)])
        (use claim(3) arrives.hyps(6) th(1) in auto)
  qed
  then show ?case
  proof (rule sys_inv_add)
    have "owns tend s' \<lparr>th_addr = addr, th_seq = seq, th_seid = seid, th_smf = smf,
        th_pc = Trying relaySendAttempts k msg\<rparr> k"
      using new(1) arrives.hyps(3) by (simp add: owns_def)
    then show "secured tend (lost - {(addr, seq)}) s' \<lparr>th_addr = addr, th_seq = seq, th_seid = seid, th_smf = smf,
        th_pc = Trying relaySendAttempts k msg\<rparr>"
      by (auto simp: secured_def)
  qed (use arrives.hyps(4) in simp_all)
next
  case (repeated it now addr seq gen s r s' ths lost)
  note claim = claim_step [OF repeated.prems(2) repeated.hyps(1-3)]
  have rest: "rest_of s' = rest_of s" using relay_op_rest(4) [of it addr seq now gen s] repeated.hyps(3) by simp
  show ?case
    by (rule sys_inv_state [OF repeated.prems(2) claim(1)], rule secured_claim [OF _ claim(2) rest])
      (use claim(3) repeated.hyps(4) in auto)
next
  case (runs i ths s pc s' lost)
  then show ?case by (intro thread_runs_inv)
next
  case (answered k now s addr seq s' pc msg ths lost seid smf)
  note inv = sys_invD [OF answered.prems(2)]
  obtain r where r: "reportRelays s k = Some r" "upfAddr r = addr" "upfSeq r = seq"
    and s': "s' = s\<lparr>reportRelays := (reportRelays s)(k \<mapsto> r\<lparr>answered := True\<rparr>)\<rparr>"
    using answered.hyps(1) by (auto simp: TakeReportRelay_def split: option.splits if_splits)
  have live: "\<not> outlived tend (recorded r)" using answered.hyps(2) r(1) by (auto simp: claimed_def)
  have own: "owns tend s th x \<Longrightarrow> owns tend s' th x" for th x using r(1) s' by (auto simp: owns_def)
  have "adapter_inv s'" using relay_exec_inv [OF inv(1), of "Take k now"] answered.hyps(1) by simp
  then have "sys_inv lib tend (s', ths, lost)"
    by (rule sys_inv_state [OF answered.prems(2)], intro secured_claim [OF _ own])
      (use s' r(1) in \<open>auto split: if_splits\<close>)
  then show ?case
  proof (rule sys_inv_add)
    show "secured tend lost s' \<lparr>th_addr = addr, th_seq = seq, th_seid = seid, th_smf = smf, th_pc = pc\<rparr>"
      using answered.hyps(4) r live s' by (auto simp: secured_def owns_def)
  qed (use answered.hyps(3,4) in auto)
next
  case (elsewhere s' s ths lost)
  let ?lost = "lost \<union> {report. taken_from s s' report}"
  have same: "reportRelays s' k = reportRelays s k" if "reportRelays s' k \<noteq> None" for k
    using elsewhere.hyps(2) that by (auto simp: map_le_def dom_def)
  show ?case
  proof (rule sys_inv_state [OF elsewhere.prems(2) elsewhere.hyps(1)])
    fix th assume th: "secured tend lost s th"
    have settled: "settled lost s th \<Longrightarrow> settled ?lost s' th"
      by (auto simp: settled_def answer_for_def taken_from_def)
    show "secured tend ?lost s' th"
    proof (rule secured_keep [OF th])
      fix k assume "owns tend s th k"
      then obtain r where r: "reportRelays s k = Some r" "(upfAddr r, upfSeq r) = report_of th" "\<not> outlived tend (recorded r)"
        by (auto simp: owns_def)
      show "(\<exists>k. owns tend s' th k) \<or> settled ?lost s' th"
      proof (cases "reportRelays s' k")
        case None
        with r(1,2) have "taken_from s s' (report_of th)" unfolding taken_from_def by blast
        then show ?thesis by (simp add: settled_def)
      next
        case (Some q)
        with same [of k] r show ?thesis by (auto simp: owns_def)
      qed
    qed (use settled same in \<open>auto simp: owns_def\<close>)
  qed
qed

interpretation report_threads: guarded_steps "sys_step lib tend" "\<lambda>c. lib_laws lib \<and> sys_inv lib tend c" for lib tend
  by unfold_locales (auto intro: sys_step_inv)

section \<open>Properties\<close>

lemma std_fresh_claim:
  "\<exists>k t. RelayReportSequence std_orders upf_a 7 (secs 102)
     (RelayGeneration (IP_String (addr_IP upf_a)) std_adapter) std_adapter = (Inr (k, True), t)"
proof -
  have inv: "relay_inv std_adapter" using std_adapter_inv by (simp add: adapter_inv_def addr_inv_def)
  from inv std_orders_legal show ?thesis
  proof (cases rule: RelayReportSequence_cases [where addr = upf_a and seq = 7 and now = "secs 102"
        and gen = "RelayGeneration (IP_String (addr_IP upf_a)) std_adapter"])
    case Exhausted
    then show ?thesis using sweep_subset [OF inv std_orders_legal, of "secs 102" relaySequenceFloor]
      by (fastforce simp: relaySequenceFloor_def relaySequenceCeil_def)
  qed (auto simp: claimed_def)
qed

text \<open>
  Property C2. No report slips through: however the goroutines of its relay, its answer, its
  refusal and those of other reports interleave, at every moment a copy of the report would be
  absorbed, by its claim or by the answer held for it, unless the report is lost. It is lost when,
  since it was last claimed, the send of its answer or of its refusal failed (no server, no
  socket, or a message that cannot be encoded), or its entry or the answer held for it was taken
  away from outside (the release of its peer, or the end of the answer's transaction: the window
  closed, a write failed, or a third retransmission was read). The numbers of
  user planes have three octets; the run starts with no handler at work and is looked at for as long
  as no entry of its reports outlives its lifetime, and while no relay number is given out anew that a
  goroutine still works under.
\<close>

theorem no_report_slips_through:
  assumes "adapter_inv s0" "lib_laws lib"
    and "(sys_step lib tend)\<^sup>*\<^sup>* (s0, [], {}) (s, ths, lost)" "th \<in> set ths"
  shows "absorbed tend (th_addr th) (th_seq th) s \<or> (th_addr th, th_seq th) \<in> lost"
proof -
  have "sys_inv lib tend (s0, [], {})" using assms(1) by (simp add: sys_inv_def)
  then have "sys_inv lib tend (s, ths, lost)" using report_threads.run_inv [OF assms(3)] assms(2) by blast
  then show ?thesis using secured_absorbed [OF sys_invD(3) [OF _ assms(4)]] by blast
qed

text \<open>A run of it: a report arrives, and its thread takes its first step; nothing is lost.\<close>

theorem no_report_slips_through_witness:
  "\<exists>s ths. (sys_step wire_lib (secs 110))\<^sup>*\<^sup>* (std_adapter, [], {}) (s, ths, {}) \<and> map th_seq ths = [7]
     \<and> absorbed (secs 110) upf_a 7 s"
proof -
  obtain k t where claim: "RelayReportSequence std_orders upf_a 7 (secs 102)
      (RelayGeneration (IP_String (addr_IP upf_a)) std_adapter) std_adapter = (Inr (k, True), t)"
    using std_fresh_claim by blast
  let ?th = "\<lparr>th_addr = upf_a, th_seq = 7, th_seid = 1, th_smf = tx_addr, th_pc = Trying relaySendAttempts k (std_req 7)\<rparr>"
  obtain pc u where step: "thread_step wire_lib ?th t = (pc, u)" by (metis surj_pair)
  then have pc: "works_on pc = None \<or> works_on pc = Some k"
    by (auto simp: thread_step_def relaySendAttempts_def eval_nat_numeral split_beta Let_def
        split: option.splits udp_error.splits)
  have "sys_step wire_lib (secs 110) (std_adapter, [], {}) (t, [] @ [?th], {} - {(upf_a, 7)})"
    by (rule sys_step.arrives [OF std_orders_legal _ _ _ claim]) (simp_all add: outlived_iff secs_def seq_max_def)
  moreover have "sys_step wire_lib (secs 110) (t, [?th], {}) (u, [?th][0 := ([?th] ! 0)\<lparr>th_pc := pc\<rparr>],
      if unsent wire_lib ([?th] ! 0) t then insert (report_of ([?th] ! 0)) {} else {})"
    by (rule sys_step.runs) (use step pc in auto)
  ultimately have run: "(sys_step wire_lib (secs 110))\<^sup>*\<^sup>* (std_adapter, [], {}) (u, [?th\<lparr>th_pc := pc\<rparr>], {})"
    by (simp add: unsent_def)
  have "absorbed (secs 110) (th_addr (?th\<lparr>th_pc := pc\<rparr>)) (th_seq (?th\<lparr>th_pc := pc\<rparr>)) u
      \<or> (th_addr (?th\<lparr>th_pc := pc\<rparr>), th_seq (?th\<lparr>th_pc := pc\<rparr>)) \<in> {}"
    by (rule no_report_slips_through [OF std_adapter_inv wire_lib_laws run]) simp
  with run show ?thesis by (intro exI [of _ u] exI [of _ "[?th\<lparr>th_pc := pc\<rparr>]"]) simp
qed

text \<open>
  Property C7. The SMF's answer to a relayed report goes to the user plane that raised it, under
  the number that user plane gave it, and the claim ends only once that is done: the handler takes
  the report, then sends, which leaves the answer held for that user plane while the entry still
  stands, and only its last step drops the entry. The entry is alive and not taken yet, the answer can
  be encoded, the socket is open and no earlier answer is held under that number.
\<close>

theorem answer_goes_to_origin:
  assumes "adapter_inv s" "lib_laws lib" "IsA lib MsgTypeSessionReportResponse msg"
    and "MessageType lib msg = MsgTypeSessionReportResponse"
    and "reportRelays s (Sequence lib msg) = Some r" "\<not> answered r" "\<not> outlived now (recorded r)"
    and "upfSeq r \<le> seq_max" "Server (rest_of s) = Some srv" "Conn srv = Some conn"
    and "Marshal lib (SetSequenceNumber lib (upfSeq r) msg) = Some buf"
    and "held (rest_of s) (UDPAddr_String (upfAddr r), upfSeq r) = None"
    and "th_addr th = upfAddr r" "th_seq th = upfSeq r"
  shows "(let k = Sequence lib msg; x = next_ref (rest_of s); s' = HandlePfcpSessionReportResponse lib now msg s in
      \<exists>s1 s2. TakeReportRelay k now s = (Some (upfAddr r, upfSeq r), s1)
      \<and> thread_step lib (th\<lparr>th_pc := Answering k msg\<rparr>) s1 = (Releasing k, s2)
      \<and> held (rest_of s2) = (held (rest_of s))((UDPAddr_String (upfAddr r), upfSeq r) \<mapsto> x)
      \<and> transactions (rest_of s2) x = Some (NewTransaction lib (SetSequenceNumber lib (upfSeq r) msg) buf conn
            (upfAddr r) (Some reportResponseEventData))
      \<and> spawned (rest_of s2) = x # spawned (rest_of s)
      \<and> reportRelays s2 = (reportRelays s)(k \<mapsto> r\<lparr>answered := True\<rparr>)
      \<and> thread_step lib (th\<lparr>th_pc := Releasing k\<rparr>) s2 = (Ended, s')
      \<and> rest_of s' = rest_of s2 \<and> reportRelays s' = (reportRelays s)(k := None))"
proof -
  let ?k = "Sequence lib msg" and ?m = "SetSequenceNumber lib (upfSeq r) msg"
  obtain t where take: "TakeReportRelay ?k now s = (Some (upfAddr r, upfSeq r), t)"
    and relays: "reportRelays t = (reportRelays s)(?k \<mapsto> r\<lparr>answered := True\<rparr>)"
    using assms(5-7) by (simp add: TakeReportRelay_def outlived_def)
  let ?u = "snd (on_rest (SendPfcp lib ?m (upfAddr r) (Some reportResponseEventData)) t)"
  have rest: "rest_of t = rest_of s" using relay_op_rest(3) [of ?k now s] by (simp add: take)
  have key: "tx_key lib c (upfAddr r) ?m = (UDPAddr_String (upfAddr r), upfSeq r)" for c
    by (rule response_key [OF assms(2,8,4)])
  have s': "HandlePfcpSessionReportResponse lib now msg s = ForgetReportRelay ?k ?u"
    using assms(3) by (simp add: HandlePfcpSessionReportResponse_def Let_def take split_beta)
  have steps: "thread_step lib (th\<lparr>th_pc := Answering ?k msg\<rparr>) t = (Releasing ?k, ?u)"
    "thread_step lib (th\<lparr>th_pc := Releasing ?k\<rparr>) ?u = (Ended, HandlePfcpSessionReportResponse lib now msg s)"
    using assms(13,14) by (simp_all add: thread_step_def s')
  have inv: "tx_inv (rest_of s)" using assms(1) by (simp add: adapter_inv_def)
  have u: "rest_of ?u = snd (SendPfcp lib ?m (upfAddr r) (Some reportResponseEventData) (rest_of s))" by (simp add: rest)
  note sent = sent_registered [OF inv assms(9-11) key assms(12), where ev = "Some reportResponseEventData", folded u]
  have ends: "rest_of (HandlePfcpSessionReportResponse lib now msg s) = rest_of ?u"
    "reportRelays (HandlePfcpSessionReportResponse lib now msg s) = (reportRelays s)(?k := None)"
    "reportRelays ?u = (reportRelays s)(?k \<mapsto> r\<lparr>answered := True\<rparr>)"
    using relays by (simp_all add: s' relay_op_rest(1)) (simp add: ForgetReportRelay_def)
  show ?thesis
    unfolding Let_def
    by (rule exI [of _ t], rule exI [of _ ?u], intro conjI take steps sent ends)
qed

theorem answer_goes_to_origin_witness:
  "held (rest_of (HandlePfcpSessionReportResponse wire_lib (secs 103) (std_rsp 0x800000) relaying))
     = [(UDPAddr_String upf_a, 7) \<mapsto> 0]
   \<and> reportRelays (HandlePfcpSessionReportResponse wire_lib (secs 103) (std_rsp 0x800000) relaying) = Map.empty"
proof -
  have std: "held std_rest = Map.empty" "next_ref std_rest = 0"
    by (rule ext, simp) (simp add: std_rest_def tx_state.defs tx_init_def)
  have "let k = 0x800000; x = next_ref std_rest; s' = HandlePfcpSessionReportResponse wire_lib (secs 103) (std_rsp k) relaying in
      \<exists>s2. held (rest_of s2) = (held std_rest)((UDPAddr_String upf_a, 7) \<mapsto> x)
        \<and> rest_of s' = rest_of s2 \<and> reportRelays s' = (reportRelays relaying)(k := None)"
    using answer_goes_to_origin [OF relaying_inv wire_lib_laws, of "std_rsp 0x800000"
        "new_relay upf_a 7 (secs 101)" "secs 103" "\<lparr>Addr = tx_addr, Conn = Some \<lparr>LocalAddr = tx_text\<rparr>\<rparr>"
        "\<lparr>LocalAddr = tx_text\<rparr>" "[7]" "\<lparr>th_addr = upf_a, th_seq = 7, th_seid = 1, th_smf = tx_addr, th_pc = Ended\<rparr>"]
    unfolding Let_def
    by (simp add: std_rsp_def outlived_iff secs_def seq_max_def tx_init_server) blast
  with std show ?thesis by (auto simp: Let_def)
qed

text \<open>
  The handler of a report is its steps: for a report that is claimed afresh, a thread
  that nothing comes between ends after at most eleven steps, in the state the handler leaves.
\<close>

lemma handler_is_its_steps:
  assumes "IsA lib MsgTypeSessionReportRequest msg" "IsKnownUpfAddr (addr_IP addr) (check_clock e) s"
    and "SmfAddr s = Some smf"
    and "RelayReportSequence (claim_orders e) addr (Sequence lib msg) (claim_clock e)
           (RelayGeneration (IP_String (addr_IP addr)) s) s = (Inr (k, True), t)"
  shows "(let th = \<lparr>th_addr = addr, th_seq = Sequence lib msg, th_seid = SEID lib msg, th_smf = smf,
          th_pc = Trying relaySendAttempts k msg\<rparr> in
      run_thread lib 11 th t = (th\<lparr>th_pc := Ended\<rparr>, HandlePfcpSessionReportRequest lib e msg (Some addr) s))"
proof -
  let ?th = "\<lparr>th_addr = addr, th_seq = Sequence lib msg, th_seid = SEID lib msg, th_smf = smf,
    th_pc = Trying relaySendAttempts k msg\<rparr>"
  have steps: "Suc (Suc (Suc (relaySendAttempts + relaySendAttempts))) = 11" by (simp add: relaySendAttempts_def)
  have "run_thread lib 11 ?th t = (?th\<lparr>th_pc := Ended\<rparr>,
      relaySendLoop relaySendAttempts lib msg smf (SEID lib msg) (Sequence lib msg) addr k t)"
    using run_thread_relays [where lib = lib and n = relaySendAttempts and th = ?th and k = k and msg = msg and s = t] unfolding steps by simp
  with assms show ?thesis by (simp add: HandlePfcpSessionReportRequest_def Let_def)
qed

end
