(* ===== verification/Forward.thy ===== *)
theory Forward
  imports Handler
begin

text \<open>
  The way of a message of the SMF (\<^verbatim>\<open>pfcp/util.go\<close>, \<^verbatim>\<open>pfcp/message/send.go\<close>
  and the HTTP handler of \<^verbatim>\<open>upfadapter.go\<close>): it is recorded who sent it and for whom,
  rewritten where the adapter stands in for the SMF, registered, sent to the user plane, and
  answered with what comes back. The wait of the HTTP handler on its channel ends the part of the
  code that runs at once, so forwarding ends with an answer, an error, or the channel it waits on.
\<close>

unbundle bit_operations_syntax

section \<open>Sending to a user plane\<close>

definition PfcpSendEventData :: PfcpEventData where
  "PfcpSendEventData = \<lparr>ErrHandler = HandlePfcpSendErrorHandler, LSEID = 0\<rparr>"

definition sendToNode ::
  "'m pfcp_lib \<Rightarrow> (string \<Rightarrow> dns_answer) \<Rightarrow> PfcpEventData option \<Rightarrow> NodeID \<Rightarrow> 'm \<Rightarrow> 'm adapter
   \<Rightarrow> udp_error option \<times> 'm adapter" where
  "sendToNode lib LookupHost ev upNodeID msg s =
     (let (ip, s) = resolveForRecord LookupHost upNodeID s in
      on_rest (SendPfcp lib msg \<lparr>addr_IP = ip, addr_Port = PFCP_PORT, addr_Zone = []\<rparr> ev) s)"

definition SendPfcpAssociationSetupRequest ::
  "'m pfcp_lib \<Rightarrow> (string \<Rightarrow> dns_answer) \<Rightarrow> NodeID \<Rightarrow> 'm \<Rightarrow> 'm adapter \<Rightarrow> udp_error option \<times> 'm adapter" where
  "SendPfcpAssociationSetupRequest lib LookupHost upNodeID msg s =
     sendToNode lib LookupHost (Some PfcpSendEventData) upNodeID msg s"

definition SendHeartbeatRequest ::
  "'m pfcp_lib \<Rightarrow> (string \<Rightarrow> dns_answer) \<Rightarrow> NodeID \<Rightarrow> 'm \<Rightarrow> 'm adapter \<Rightarrow> udp_error option \<times> 'm adapter" where
  "SendHeartbeatRequest lib LookupHost upNodeID msg s = sendToNode lib LookupHost None upNodeID msg s"

definition SendPfcpSessionEstablishmentRequest ::
  "'m pfcp_lib \<Rightarrow> (string \<Rightarrow> dns_answer) \<Rightarrow> NodeID \<Rightarrow> 'm \<Rightarrow> 'm adapter \<Rightarrow> udp_error option \<times> 'm adapter" where
  "SendPfcpSessionEstablishmentRequest lib LookupHost upNodeID msg s =
     sendToNode lib LookupHost (Some PfcpSendEventData) upNodeID msg s"

definition SendPfcpSessionModificationRequest ::
  "'m pfcp_lib \<Rightarrow> (string \<Rightarrow> dns_answer) \<Rightarrow> NodeID \<Rightarrow> 'm \<Rightarrow> 'm adapter \<Rightarrow> udp_error option \<times> 'm adapter" where
  "SendPfcpSessionModificationRequest lib LookupHost upNodeID msg s =
     sendToNode lib LookupHost (Some PfcpSendEventData) upNodeID msg s"

definition SendPfcpSessionDeletionRequest ::
  "'m pfcp_lib \<Rightarrow> (string \<Rightarrow> dns_answer) \<Rightarrow> NodeID \<Rightarrow> 'm \<Rightarrow> 'm adapter \<Rightarrow> udp_error option \<times> 'm adapter" where
  "SendPfcpSessionDeletionRequest lib LookupHost upNodeID msg s =
     sendToNode lib LookupHost (Some PfcpSendEventData) upNodeID msg s"

section \<open>Answering for a user plane that is associated already\<close>

definition psrei :: u8 where "psrei = 0x01"

definition answerRetention :: "'m pfcp_lib \<Rightarrow> 'm \<Rightarrow> 'm \<Rightarrow> 'm" where
  "answerRetention lib rsp req =
     (let flags = (case PFCPASRspFlags lib rsp of
                     Some (Some stored) \<Rightarrow> stored
                   | _ \<Rightarrow> 0);
          flags = flags AND NOT psrei;
          flags = (if IsA lib MsgTypeAssociationSetupRequest req \<and> HasRetentionInformation lib req
                   then flags OR psrei else flags)
      in SetPFCPASRspFlags lib (if flags \<noteq> 0 then Some flags else None) rsp)"

section \<open>Forwarding\<close>

text \<open>
  \<^verbatim>\<open>config.UpfServerStartTime\<close> is declared and read, and nothing assigns it: it is the
  zero time.
\<close>

definition UpfServerStartTime :: time where "UpfServerStartTime = 0"

datatype forward_error =
    SendFailed udp_error
  | BuildFailed handler_error
  | InvalidMessage
  | NoFSEID
  | InvalidMsgType msg_type

datatype forward_result =
    Answered "u8 list"
  | Failed forward_error
  | WaitingOn PfcpTxnChan

record forward_env =
  lookup_host :: "string \<Rightarrow> dns_answer"
  upfs_order :: "string order"
  own_chan :: PfcpTxnChan
  adapter_ip :: IP

definition on_waiters ::
  "(udp_error txn_state \<Rightarrow> udp_error txn_state) \<Rightarrow> 'm adapter \<Rightarrow> 'm adapter" where
  "on_waiters f s = addr_state.more_update (\<lambda>r. r\<lparr>waiters := f (waiters r)\<rparr>) s"

text \<open>
  What the five kinds of request have in common: the registration is made before the send and
  withdrawn when the send fails.
\<close>

definition registerAndSend ::
  "'m pfcp_lib \<Rightarrow> PfcpTxnChan \<Rightarrow> ('m adapter \<Rightarrow> udp_error option \<times> 'm adapter) \<Rightarrow> 'm \<Rightarrow> 'm adapter
   \<Rightarrow> forward_result \<times> 'm adapter" where
  "registerAndSend lib c send msg s =
     (let s = on_waiters (InsertUpfPfcpTxn (Sequence lib msg) c) s;
          (err, s) = send s in
      case err of
        Some e \<Rightarrow> (Failed (SendFailed e), on_waiters (ForgetUpfPfcpTxn (Sequence lib msg) c) s)
      | None \<Rightarrow> (WaitingOn c, s))"

definition forwardAssociation ::
  "'m pfcp_lib \<Rightarrow> forward_env \<Rightarrow> 'm \<Rightarrow> NodeID \<Rightarrow> 'm adapter \<Rightarrow> (forward_result \<times> 'm adapter) outcome" where
  "forwardAssociation lib e msg upNodeID s =
     (if IsUpfAssociated upNodeID (upfs (rest_of s)) then
        (case BuildPfcpAssociationResponse lib (upfs_order e) upNodeID (Sequence lib msg) s of
           Panicked \<Rightarrow> Panicked
         | Blocked \<Rightarrow> Blocked
         | Done (Inl err) \<Rightarrow> Done (Failed (BuildFailed err), s)
         | Done (Inr rsp) \<Rightarrow>
             (case Marshal lib (answerRetention lib rsp msg) of
                None \<Rightarrow> Done (Failed (SendFailed ErrMarshal), s)
              | Some buf \<Rightarrow> Done (Answered buf, s)))
      else
        let (cache, nodes) = InsertUpfNode (lookup_host e) upNodeID (dnsHostIpCache s) (upfs (rest_of s));
            s = addr_state.more_update (\<lambda>r. r\<lparr>upfs := nodes\<rparr>) (s\<lparr>dnsHostIpCache := cache\<rparr>) in
        if \<not> IsA lib MsgTypeAssociationSetupRequest msg then Done (Failed InvalidMessage, s)
        else
          let req = SetNodeID lib (IP_String (adapter_ip e)) (SetRecoveryTimeStamp lib UpfServerStartTime msg)
          in Done (registerAndSend lib (own_chan e)
               (SendPfcpAssociationSetupRequest lib (lookup_host e) upNodeID req) req s))"

definition ForwardPfcpMsgToUpf ::
  "'m pfcp_lib \<Rightarrow> forward_env \<Rightarrow> 'm \<Rightarrow> NodeID \<Rightarrow> 'm adapter \<Rightarrow> (forward_result \<times> 'm adapter) outcome" where
  "ForwardPfcpMsgToUpf lib e msg upNodeID s =
     (let c = own_chan e; s = on_waiters (newTxnChan c) s; L = lookup_host e in
      case MessageType lib msg of
        MsgTypeAssociationSetupRequest \<Rightarrow> forwardAssociation lib e msg upNodeID s
      | MsgTypeHeartbeatRequest \<Rightarrow>
          if \<not> IsA lib MsgTypeHeartbeatRequest msg then Done (Failed InvalidMessage, s)
          else
            let req = SetRecoveryTimeStamp lib UpfServerStartTime msg
            in Done (registerAndSend lib c (SendHeartbeatRequest lib L upNodeID req) req s)
      | MsgTypeSessionEstablishmentRequest \<Rightarrow>
          if \<not> IsA lib MsgTypeSessionEstablishmentRequest msg then Done (Failed InvalidMessage, s)
          else
            let req = SetNodeID lib (IP_String (adapter_ip e)) msg in
            (case CPFSEID lib req of
               None \<Rightarrow> Done (Failed NoFSEID, s)
             | Some seid \<Rightarrow>
                 let req = SetCPFSEID lib seid (adapter_ip e) req
                 in Done (registerAndSend lib c (SendPfcpSessionEstablishmentRequest lib L upNodeID req) req s))
      | MsgTypeSessionModificationRequest \<Rightarrow>
          if \<not> IsA lib MsgTypeSessionModificationRequest msg then Done (Failed InvalidMessage, s)
          else Done (registerAndSend lib c (SendPfcpSessionModificationRequest lib L upNodeID msg) msg s)
      | MsgTypeSessionDeletionRequest \<Rightarrow>
          if \<not> IsA lib MsgTypeSessionDeletionRequest msg then Done (Failed InvalidMessage, s)
          else Done (registerAndSend lib c (SendPfcpSessionDeletionRequest lib L upNodeID msg) msg s)
      | other \<Rightarrow> Done (Failed (InvalidMsgType other), s))"

section \<open>The HTTP handler\<close>

text \<open>
  A request is what was read of its body and whether the read failed; how a body decodes is an
  argument. A failed read is reported, and the handler goes on with what it has; a body that does
  not decode is answered with an empty success. Of a decoded message the address is not kept:
  nothing reads it.
\<close>

record http_request =
  req_body :: "u8 list"
  read_failed :: bool

record UdpPodPfcpMsg =
  SmfIp :: string
  Msg_Body :: "u8 list"
  UpNodeID :: NodeID

datatype http_reply =
    EmptyOK
  | InternalServerError
  | OK "u8 list"
  | Pending PfcpTxnChan

fun reply_of :: "forward_result \<Rightarrow> http_reply" where
  "reply_of (Answered buf) = OK buf"
| "reply_of (Failed err) = InternalServerError"
| "reply_of (WaitingOn c) = Pending c"

record http_env = forward_env +
  release :: release_env
  named_at :: time
  consumers_order :: "string order"

definition http_handler ::
  "'m pfcp_lib \<Rightarrow> (u8 list \<Rightarrow> UdpPodPfcpMsg option) \<Rightarrow> http_env \<Rightarrow> http_request \<Rightarrow> 'm adapter
   \<Rightarrow> (http_reply list \<times> 'm adapter) outcome" where
  "http_handler lib decode e req s =
     (let failed = (if read_failed req then [InternalServerError] else []) in
      case decode (req_body req) of
        None \<Rightarrow> Done (failed @ [EmptyOK], s)
      | Some m \<Rightarrow>
          (case Parse lib (Msg_Body m) of
             None \<Rightarrow> Done (failed @ [InternalServerError], s)
           | Some pfcpMessage \<Rightarrow>
               (let s = SetSmfAddr (SmfIp m) s;
                    s = RecordUpfAddr (lookup_host e) (release e) (release_hook (consumers_order e))
                          (named_at e) (UpNodeID m) s in
                case ForwardPfcpMsgToUpf lib (forward_env.truncate e) pfcpMessage (UpNodeID m) s of
                  Panicked \<Rightarrow> Panicked
                | Blocked \<Rightarrow> Blocked
                | Done (r, s) \<Rightarrow> Done (failed @ [reply_of r], s))))"

text \<open>
  Before the handler records a claimed SMF address it reports, in the log, a claim that differs from
  the peer the request came from, and tries to do so once per change of the claim. The report is the
  only effect, so it is a predicate beside the handler: \<open>remoteAddr\<close> is
  \<^verbatim>\<open>req.RemoteAddr\<close>.
\<close>

definition claim_reported :: "string \<Rightarrow> string \<Rightarrow> 'w addr_state_scheme \<Rightarrow> bool" where
  "claim_reported remoteAddr smfIp s =
     (case SplitHost remoteAddr of
        None \<Rightarrow> False
      | Some host \<Rightarrow> smfIp \<noteq> [] \<and> smfIp \<noteq> host \<and>
          (case SmfAddr s of
             None \<Rightarrow> True
           | Some current \<Rightarrow> IP_String (addr_IP current) \<noteq> smfIp))"

text \<open>The end of the wait: what the channel delivers becomes the reply.\<close>

definition finish_reply :: "PfcpTxnChan \<Rightarrow> 'm adapter \<Rightarrow> (http_reply \<times> 'm adapter) option" where
  "finish_reply c s =
     (case recvRsp c (waiters (rest_of s)) of
        None \<Rightarrow> None
      | Some (rsp, w) \<Rightarrow>
          Some (if Err rsp \<noteq> None then InternalServerError else OK (octets (Rsp rsp)),
                on_waiters (\<lambda>_. w) s))"

end
