(* ===== verification/Forward_Properties.thy ===== *)
theory Forward_Properties
  imports Forward Handler_Properties
begin

text \<open>
  The properties of forwarding: that the answer of the user plane reaches the request that asked
  for it, what a failed send leaves behind, the retention flag of an answer given from the stored
  response, and that a message of the SMF keeps every table consistent and releases what a moved
  user plane leaves.
\<close>

section \<open>The steps of forwarding\<close>

lemma on_waiters_frame [simp]:
  "rest_of (on_waiters f s) = (rest_of s)\<lparr>waiters := f (waiters (rest_of s))\<rparr>"
  "addr_inv (on_waiters f s) = addr_inv s"
  "reportRelays (on_waiters f s) = reportRelays s"
  "dnsHostIpCache (on_waiters f s) = dnsHostIpCache s"
  by (simp_all add: on_waiters_def addr_inv_def)

lemma rest_update_frame [simp]:
  fixes r :: "'m rest"
  shows "tx_inv (r\<lparr>waiters := w\<rparr>) = tx_inv r" "held (r\<lparr>waiters := w\<rparr>) = held r"
    "tx_inv (r\<lparr>upfs := u\<rparr>) = tx_inv r" "held (r\<lparr>upfs := u\<rparr>) = held r"
  by (simp_all add: tx_inv_def held_def fun_eq_iff split: option.split)

lemma resolve_rest [simp]:
  "rest_of (snd (resolveForRecord L n s)) = rest_of s"
  "addr_inv (snd (resolveForRecord L n s)) = addr_inv s"
  by (simp_all add: resolveForRecord_def addr_inv_def split: prod.split)

lemma sendToNode_rest:
  "rest_of (snd (sendToNode lib L ev n msg s))
     = snd (SendPfcp lib msg \<lparr>addr_IP = fst (resolveForRecord L n s), addr_Port = PFCP_PORT, addr_Zone = []\<rparr> ev (rest_of s))"
  "fst (sendToNode lib L ev n msg s)
     = fst (SendPfcp lib msg \<lparr>addr_IP = fst (resolveForRecord L n s), addr_Port = PFCP_PORT, addr_Zone = []\<rparr> ev (rest_of s))"
  "addr_inv (snd (sendToNode lib L ev n msg s)) = addr_inv s"
  by (simp_all add: sendToNode_def split_beta)

lemma sendToNode_keeps:
  assumes "tx_inv (rest_of s)"
  shows "waiters (rest_of (snd (sendToNode lib L ev n msg s))) = waiters (rest_of s)"
    "upfs (rest_of (snd (sendToNode lib L ev n msg s))) = upfs (rest_of s)"
    "tx_inv (rest_of (snd (sendToNode lib L ev n msg s)))"
proof -
  let ?a = "\<lparr>addr_IP = fst (resolveForRecord L n s), addr_Port = PFCP_PORT, addr_Zone = []\<rparr>"
  have "tx_state.more (snd (SendPfcp lib msg ?a ev (rest_of s))) = tx_state.more (rest_of s)"
    using assms by (cases rule: SendPfcp_cases [where lib = lib and msg = msg and addr = ?a and ev = ev]) simp_all
  from rest_fields [OF this] show "waiters (rest_of (snd (sendToNode lib L ev n msg s))) = waiters (rest_of s)"
    "upfs (rest_of (snd (sendToNode lib L ev n msg s))) = upfs (rest_of s)"
    by (simp_all add: sendToNode_rest)
  show "tx_inv (rest_of (snd (sendToNode lib L ev n msg s)))"
    using send_keeps_ready [OF assms, of lib msg ?a ev] by (simp add: sendToNode_rest)
qed

lemmas send_to_node_defs = SendPfcpAssociationSetupRequest_def SendHeartbeatRequest_def
  SendPfcpSessionEstablishmentRequest_def SendPfcpSessionModificationRequest_def
  SendPfcpSessionDeletionRequest_def

text \<open>Registering and sending, in one case split.\<close>

lemma registerAndSend_result:
  assumes "tx_inv (rest_of s)" "registerAndSend lib c (sendToNode lib L ev n m) msg s = (r, s')"
  shows "r = WaitingOn c \<and> UpfTxns (waiters (rest_of s')) = (UpfTxns (waiters (rest_of s)))(Sequence lib msg \<mapsto> c)
      \<and> fst (sendToNode lib L ev n m (on_waiters (InsertUpfPfcpTxn (Sequence lib msg) c) s)) = None
    \<or> (\<exists>err. r = Failed (SendFailed err)
        \<and> fst (sendToNode lib L ev n m (on_waiters (InsertUpfPfcpTxn (Sequence lib msg) c) s)) = Some err
        \<and> UpfTxns (waiters (rest_of s')) = (UpfTxns (waiters (rest_of s)))(Sequence lib msg := None))"
    and "chans (waiters (rest_of s')) = chans (waiters (rest_of s))"
proof -
  let ?s = "on_waiters (InsertUpfPfcpTxn (Sequence lib msg) c) s"
  let ?r = "sendToNode lib L ev n m ?s"
  have w: "waiters (rest_of (snd ?r)) = InsertUpfPfcpTxn (Sequence lib msg) c (waiters (rest_of s))"
    using sendToNode_keeps(1) [of ?s lib L ev n m] assms(1) by simp
  show "r = WaitingOn c \<and> UpfTxns (waiters (rest_of s')) = (UpfTxns (waiters (rest_of s)))(Sequence lib msg \<mapsto> c)
      \<and> fst ?r = None
    \<or> (\<exists>err. r = Failed (SendFailed err) \<and> fst ?r = Some err
        \<and> UpfTxns (waiters (rest_of s')) = (UpfTxns (waiters (rest_of s)))(Sequence lib msg := None))"
    and "chans (waiters (rest_of s')) = chans (waiters (rest_of s))"
    using assms(2) w
    by (auto simp: registerAndSend_def split_beta Let_def InsertUpfPfcpTxn_def fun_eq_iff txns.remove_entry split: option.splits)
qed

lemma registerAndSend_inv:
  assumes "adapter_inv s" "chans (waiters (rest_of s)) c = Some None" "\<forall>q. UpfTxns (waiters (rest_of s)) q \<noteq> Some c"
  shows "adapter_inv (snd (registerAndSend lib c (sendToNode lib L ev n m) msg s))"
proof -
  let ?s = "on_waiters (InsertUpfPfcpTxn (Sequence lib msg) c) s"
  have "txn_inv (InsertUpfPfcpTxn (Sequence lib msg) c (waiters (rest_of s)))"
    using assms by (auto simp: adapter_inv_def txn_inv_def InsertUpfPfcpTxn_def)
  then have "adapter_inv ?s" using assms(1) by (simp add: adapter_inv_def)
  then have inv: "adapter_inv (snd (sendToNode lib L ev n m ?s))"
    using sendToNode_keeps [of ?s lib L ev n m] by (simp add: adapter_inv_def sendToNode_rest(3))
  then have "adapter_inv (on_waiters (ForgetUpfPfcpTxn q c) (snd (sendToNode lib L ev n m ?s)))" for q
    by (simp add: adapter_inv_def withdraw_inv)
  with inv show ?thesis by (simp add: registerAndSend_def split_beta Let_def split: option.split)
qed

definition forward_shape :: "'m pfcp_lib \<Rightarrow> 'm \<Rightarrow> PfcpTxnChan \<Rightarrow> 'm adapter \<Rightarrow> forward_result \<Rightarrow> 'm adapter \<Rightarrow> bool" where
  "forward_shape lib msg c s r s' \<longleftrightarrow>
     (let T = UpfTxns (waiters (rest_of s)); T' = UpfTxns (waiters (rest_of s')); q = Sequence lib msg in
      chans (waiters (rest_of s')) = chans (waiters (rest_of s))
      \<and> (r = WaitingOn c \<and> T' = T(q \<mapsto> c) \<or> (\<forall>c. r \<noteq> WaitingOn c) \<and> (T' = T \<or> T' = T(q := None))))"

lemma register_shape:
  assumes "tx_inv (rest_of s)" "registerAndSend lib c (sendToNode lib L ev n m) m s = (r, s')"
    "Sequence lib m = Sequence lib msg"
  shows "forward_shape lib msg c s r s'"
  using registerAndSend_result [OF assms(1,2)] assms(3) by (auto simp: forward_shape_def Let_def)

lemma shape_stay: "(\<And>c. r \<noteq> WaitingOn c) \<Longrightarrow> rest_of s' = rest_of s \<Longrightarrow> forward_shape lib msg c s r s'"
  by (simp add: forward_shape_def Let_def)

lemma association_shape:
  assumes "tx_inv (rest_of s)" "lib_laws lib" "forwardAssociation lib e msg n s = Done (r, s')"
  shows "forward_shape lib msg (own_chan e) s r s'"
proof (cases "IsUpfAssociated n (upfs (rest_of s))")
  case True
  with assms(3) show ?thesis
    by (auto simp: forwardAssociation_def intro!: shape_stay split: outcome.splits sum.splits option.splits)
next
  case False
  obtain cache nodes where i: "InsertUpfNode (lookup_host e) n (dnsHostIpCache s) (upfs (rest_of s)) = (cache, nodes)"
    by (cases "InsertUpfNode (lookup_host e) n (dnsHostIpCache s) (upfs (rest_of s))")
  let ?s = "addr_state.more_update (\<lambda>r. r\<lparr>upfs := nodes\<rparr>) (s\<lparr>dnsHostIpCache := cache\<rparr>)"
  let ?m = "SetNodeID lib (IP_String (adapter_ip e)) (SetRecoveryTimeStamp lib UpfServerStartTime msg)"
  have same: "forward_shape lib msg (own_chan e) ?s r s' = forward_shape lib msg (own_chan e) s r s'"
    by (simp add: forward_shape_def)
  have seq: "Sequence lib ?m = Sequence lib msg" using assms(2) by (simp add: lib_lawsD)
  show ?thesis
  proof (cases "IsA lib MsgTypeAssociationSetupRequest msg")
    case False
    with \<open>\<not> IsUpfAssociated n (upfs (rest_of s))\<close> assms(3) i show ?thesis
      by (auto simp: forwardAssociation_def forward_shape_def Let_def)
  next
    case True
    with False assms(3) i have
      "registerAndSend lib (own_chan e) (sendToNode lib (lookup_host e) (Some PfcpSendEventData) n ?m) ?m ?s = (r, s')"
      by (simp add: forwardAssociation_def Let_def SendPfcpAssociationSetupRequest_def [abs_def])
    from register_shape [OF _ this seq] assms(1) same show ?thesis by simp
  qed
qed

lemma forward_result:
  assumes "tx_inv (rest_of s)" "lib_laws lib" "ForwardPfcpMsgToUpf lib e msg n s = Done (r, s')"
  shows "forward_shape lib msg (own_chan e) (on_waiters (newTxnChan (own_chan e)) s) r s'"
proof -
  let ?s = "on_waiters (newTxnChan (own_chan e)) s"
  have inv: "tx_inv (rest_of ?s)" using assms(1) by simp
  have reg: "forward_shape lib msg (own_chan e) ?s r s'"
    if "registerAndSend lib (own_chan e) (sendToNode lib (lookup_host e) ev n m) m ?s = (r, s')"
      "Sequence lib m = Sequence lib msg" for m ev
    using register_shape [OF inv that] .
  show ?thesis
    using assms(3) association_shape [OF inv assms(2), of e msg n r s'] reg shape_stay [of r s' ?s]
    by (auto simp: ForwardPfcpMsgToUpf_def Let_def send_to_node_defs [abs_def] lib_lawsD [OF assms(2)]
        split: msg_type.splits if_splits option.splits)
qed

section \<open>Every table stays consistent\<close>

lemma association_inv:
  assumes "adapter_inv s" "chans (waiters (rest_of s)) (own_chan e) = Some None"
    "\<forall>q. UpfTxns (waiters (rest_of s)) q \<noteq> Some (own_chan e)" "forwardAssociation lib e msg n s = Done (r, s')"
  shows "adapter_inv s'"
proof (cases "IsUpfAssociated n (upfs (rest_of s))")
  case True
  with assms(1,4) show ?thesis
    by (auto simp: forwardAssociation_def split: outcome.splits sum.splits option.splits)
next
  case False
  obtain cache nodes where i: "InsertUpfNode (lookup_host e) n (dnsHostIpCache s) (upfs (rest_of s)) = (cache, nodes)"
    by (cases "InsertUpfNode (lookup_host e) n (dnsHostIpCache s) (upfs (rest_of s))")
  let ?s = "addr_state.more_update (\<lambda>r. r\<lparr>upfs := nodes\<rparr>) (s\<lparr>dnsHostIpCache := cache\<rparr>)"
  have "nodes_inv nodes"
    using insert_node_inv [of "upfs (rest_of s)" "lookup_host e" n "dnsHostIpCache s"] assms(1) i
    by (simp add: adapter_inv_def)
  then have inv: "adapter_inv ?s" using assms(1) by (simp add: adapter_inv_def addr_inv_def)
  have "adapter_inv (snd (registerAndSend lib (own_chan e) (sendToNode lib L ev n m) m ?s))" for L ev m
    by (rule registerAndSend_inv [OF inv]) (use assms(2,3) in simp_all)
  with False inv assms(4) i show ?thesis
    by (auto simp: forwardAssociation_def Let_def SendPfcpAssociationSetupRequest_def [abs_def] split: if_splits)
      (metis snd_conv)
qed

lemma forward_inv:
  assumes "adapter_inv s" "chans (waiters (rest_of s)) (own_chan e) = None"
    "ForwardPfcpMsgToUpf lib e msg n s = Done (r, s')"
  shows "adapter_inv s'"
proof -
  let ?s = "on_waiters (newTxnChan (own_chan e)) s"
  have unused: "UpfTxns (waiters (rest_of s)) q \<noteq> Some (own_chan e)" for q
    using assms(1,2) by (auto simp: adapter_inv_def txn_inv_def)
  have inv: "adapter_inv ?s"
    using assms(1) unused by (auto simp: adapter_inv_def newTxnChan_def txn_inv_def)
  have made: "chans (waiters (rest_of ?s)) (own_chan e) = Some None"
    "\<forall>q. UpfTxns (waiters (rest_of ?s)) q \<noteq> Some (own_chan e)"
    using unused by (simp_all add: newTxnChan_def)
  have reg: "adapter_inv s'"
    if "registerAndSend lib (own_chan e) (sendToNode lib (lookup_host e) ev n m) m ?s = (r, s')" for m ev
    using registerAndSend_inv [OF inv made, of lib "lookup_host e" ev n m m] that by simp
  show ?thesis
    using assms(3) association_inv [OF inv made, of lib msg n r s'] reg inv
    by (auto simp: ForwardPfcpMsgToUpf_def Let_def send_to_node_defs [abs_def]
        split: msg_type.splits if_splits option.splits)
qed

text \<open>The release hook keeps the transaction tables consistent and touches nothing else.\<close>

lemma released_rest:
  assumes "tx_inv w" "enumerates ord" "Server w \<noteq> None"
  shows "held (fold (hook_fun (release_hook ord)) gone w)
      = map_keep (\<lambda>k _. SplitHost (fst k) \<notin> Some ` set gone) (held w)
    \<and> tx_inv (fold (hook_fun (release_hook ord)) gone w)
    \<and> tx_state.more (fold (hook_fun (release_hook ord)) gone w) = tx_state.more w"
  using assms
proof (induction gone arbitrary: w)
  case Nil
  then show ?case by (simp add: map_keep_all)
next
  case (Cons a gone)
  let ?w = "ForgetConsumer ord a w"
  have step: "hook_fun (release_hook ord) a w = ?w" by (simp add: hook_fun_def release_hook_def)
  have "held (fold (hook_fun (release_hook ord)) gone ?w)
      = map_keep (\<lambda>k _. SplitHost (fst k) \<notin> Some ` set gone) (held ?w)
    \<and> tx_inv (fold (hook_fun (release_hook ord)) gone ?w)
    \<and> tx_state.more (fold (hook_fun (release_hook ord)) gone ?w) = tx_state.more ?w"
    by (rule Cons.IH) (use Cons.prems ForgetConsumer_held in \<open>simp_all add: ForgetConsumer_Server\<close>)
  then show ?case
    by (auto simp: step ForgetConsumer_more ForgetConsumer_held [OF Cons.prems] map_keep_def fun_eq_iff
        split: option.split)
qed

lemma nil_server_rest:
  "Server w = None \<Longrightarrow> fold (hook_fun (release_hook ord)) gone w = w"
  by (induction gone) (simp_all add: hook_fun_def release_hook_def ForgetConsumer_def)

lemma commit_adapter_inv:
  assumes "adapter_inv s" "legal_env e" "enumerates ord"
  shows "adapter_inv (commitUpfAddr e (release_hook ord) now ip node s)"
    and "waiters (rest_of (commitUpfAddr e (release_hook ord) now ip node s)) = waiters (rest_of s)"
proof -
  let ?c = "commitUpfAddr e (release_hook ord) now ip node s"
  have a: "addr_inv s" and t: "tx_inv (rest_of s)" using assms(1) by (simp_all add: adapter_inv_def)
  obtain gone where "released_exactly e (release_hook ord) gone s ?c"
    using commit_releases [OF a assms(2)] by blast
  then have rest: "rest_of ?c = fold (hook_fun (release_hook ord)) gone (rest_of s)"
    by (simp add: released_exactly_def)
  have kept: "tx_inv (rest_of ?c) \<and> tx_state.more (rest_of ?c) = tx_state.more (rest_of s)"
    using released_rest [OF t assms(3), of gone] nil_server_rest [of "rest_of s" ord gone] t
    by (cases "Server (rest_of s)") (simp_all add: rest)
  note f = rest_fields [OF conjunct2 [OF kept]]
  show "waiters (rest_of ?c) = waiters (rest_of s)" by (rule f(2))
  show "adapter_inv ?c"
    using commit_inv [OF a assms(2)] kept f assms(1) by (simp add: adapter_inv_def)
qed

lemma smf_adapter_inv:
  "adapter_inv s \<Longrightarrow> adapter_inv (SetSmfAddr ip s)" "rest_of (SetSmfAddr ip s) = rest_of s"
  by (simp_all add: SetSmfAddr_def Let_def adapter_inv_def addr_inv_def)

lemma record_adapter_inv:
  assumes "adapter_inv s" "legal_env e" "enumerates ord"
  shows "adapter_inv (RecordUpfAddr L e (release_hook ord) now n s)"
    and "waiters (rest_of (RecordUpfAddr L e (release_hook ord) now n s)) = waiters (rest_of s)"
proof -
  have "adapter_inv (snd (resolveForRecord L n s))"
    using assms(1) by (simp add: adapter_inv_def)
  from commit_adapter_inv [OF this assms(2,3)]
  show "adapter_inv (RecordUpfAddr L e (release_hook ord) now n s)"
    "waiters (rest_of (RecordUpfAddr L e (release_hook ord) now n s)) = waiters (rest_of s)"
    by (simp_all add: RecordUpfAddr_def split_beta)
qed

lemma forward_not_blocked: "ForwardPfcpMsgToUpf lib e msg n s \<noteq> Blocked"
  by (simp add: ForwardPfcpMsgToUpf_def forwardAssociation_def BuildPfcpAssociationResponse_def Let_def split_beta
      split: msg_type.split option.split)

lemma http_fine:
  assumes "adapter_inv s" "legal_env (release e)" "enumerates (consumers_order e)"
    and "chans (waiters (rest_of s)) (own_chan e) = None"
  shows "http_handler lib decode e req s \<noteq> Blocked
    \<and> (\<forall>rs s'. http_handler lib decode e req s = Done (rs, s') \<longrightarrow> adapter_inv s')"
proof -
  let ?s = "\<lambda>m :: UdpPodPfcpMsg. RecordUpfAddr (lookup_host e) (release e) (release_hook (consumers_order e)) (named_at e)
    (UpNodeID m) (SetSmfAddr (SmfIp m) s)"
  note smf = smf_adapter_inv(1) [OF assms(1)]
  have s: "adapter_inv (?s m)" "waiters (rest_of (?s m)) = waiters (rest_of s)" for m
    using record_adapter_inv [OF smf assms(2,3)] by (simp_all add: smf_adapter_inv(2))
  have chan: "chans (waiters (rest_of (?s m))) (own_chan (forward_env.truncate e)) = None" for m
    using assms(4) s(2) by (simp add: forward_env.defs)
  have fwd: "adapter_inv s'" if "ForwardPfcpMsgToUpf lib (forward_env.truncate e) pm (UpNodeID m) (?s m) = Done (r, s')"
    for pm m r s' using forward_inv [OF s(1) chan that] .
  show ?thesis
    using assms(1) fwd forward_not_blocked [of lib "forward_env.truncate e"]
    by (auto simp: http_handler_def Let_def split: option.splits outcome.splits)
qed


text \<open>The flags of the stored answer: none where it has no flags or they cannot be read.\<close>

definition stored_flags :: "'m pfcp_lib \<Rightarrow> 'm \<Rightarrow> u8" where
  "stored_flags lib rsp = (case PFCPASRspFlags lib rsp of Some (Some f) \<Rightarrow> f | _ \<Rightarrow> 0)"

section \<open>A concrete adapter\<close>

text \<open>The adapter of the handlers' witnesses, with a message of the SMF to forward.\<close>

definition node_a :: NodeID where
  "node_a = \<lparr>NodeIdValue = Some (go_bytes ''upf-a''), NodeIdType = NodeIdTypeFqdn\<rparr>"

definition std_msg :: "msg_type \<Rightarrow> u32 \<Rightarrow> plain_msg" where
  "std_msg t q = \<lparr>pm_type = t, pm_seq = q, pm_seid = 1, pm_node = [], pm_flags = None\<rparr>"

definition std_fwd :: forward_env where
  "std_fwd = \<lparr>lookup_host = std_dns, upfs_order = sorted_list_of_set, own_chan = 3,
     adapter_ip = Some [10, 42, 0, 1]\<rparr>"

definition std_http :: http_env where
  "std_http = forward_env.extend std_fwd
     \<lparr>release = std_env, named_at = secs 102, consumers_order = sorted_list_of_set\<rparr>"

definition with_upf :: "plain_msg option \<Rightarrow> UPFStatus \<Rightarrow> plain_msg adapter" where
  "with_upf rsp st = addr_state.more_update (\<lambda>r. r\<lparr>upfs := [''upf-a'' \<mapsto>
     \<lparr>UpfName = ''upf-a'', LastAssoRsp = rsp, LastHBRsp = None, ANIP = addr_IP upf_a, NodeID_of = node_a, State = st\<rparr>]\<rparr>)
     std_adapter"

definition busy_rest :: "plain_msg rest" where
  "busy_rest = tx_state.extend one_tx \<lparr>upfs = Map.empty, waiters = \<lparr>UpfTxns = [7 \<mapsto> 1], chans = [1 \<mapsto> None]\<rparr>\<rparr>"

definition busy_adapter :: "plain_msg adapter" where
  "busy_adapter = addr_state.more_update (\<lambda>_. busy_rest) std_adapter"

lemma busy_fields:
  "rest_of busy_adapter = busy_rest" "held busy_rest = held one_tx" "Server busy_rest = Server tx_init"
  "waiters busy_rest = \<lparr>UpfTxns = [7 \<mapsto> 1], chans = [1 \<mapsto> None]\<rparr>" "upfs busy_rest = Map.empty" "tx_inv busy_rest"
  using one_tx_inv
  by (simp_all add: busy_adapter_def busy_rest_def tx_state.defs held_def fun_eq_iff tx_inv_def split: option.split)

lemma busy_inv: "adapter_inv busy_adapter"
  using std_adapter_inv
  by (simp add: adapter_inv_def busy_fields nodes_inv_empty txn_inv_def)
    (simp add: busy_adapter_def addr_inv_def)

lemma wire_timestamp [simp]: "SetRecoveryTimeStamp wire_lib t m = m"
  by (simp add: wire_lib_def plain_lib_def)

lemma std_waiting:
  assumes "t = MsgTypeSessionModificationRequest \<or> t = MsgTypeHeartbeatRequest"
  shows "\<exists>s1. ForwardPfcpMsgToUpf wire_lib std_fwd (std_msg t 5) node_a std_adapter = Done (WaitingOn 3, s1)"
proof -
  let ?m = "std_msg t 5" and ?s = "on_waiters (newTxnChan 3) std_adapter"
  let ?t = "on_waiters (InsertUpfPfcpTxn 5 3) ?s"
  have sent: "fst (sendToNode wire_lib std_dns ev node_a ?m ?t) = None" for ev
    unfolding sendToNode_rest
    by (rule SendPfcp_ready [where srv = "the (Server tx_init)" and conn = "\<lparr>LocalAddr = tx_text\<rparr>" and buf = "[5]"])
      (simp_all add: tx_init_server std_msg_def)
  have "\<exists>s1. registerAndSend wire_lib 3 (sendToNode wire_lib std_dns ev node_a ?m) ?m ?s = (WaitingOn 3, s1)" for ev
    using sent [of ev] by (simp add: registerAndSend_def split_beta Let_def std_msg_def)
  with assms show ?thesis
    by (auto simp: ForwardPfcpMsgToUpf_def std_fwd_def std_msg_def send_to_node_defs [abs_def] Let_def)
qed

section \<open>Properties\<close>

text \<open>
  The tests a response has to pass in its handler before it is delivered: it decodes as its type; a
  heartbeat and an association response carry a recovery time stamp; an association response has
  a cause, and an accepted one names a user plane that is in the table.
\<close>

definition deliverable :: "'m pfcp_lib \<Rightarrow> string order \<Rightarrow> 'm \<Rightarrow> 'm adapter \<Rightarrow> bool" where
  "deliverable lib ord rsp s \<longleftrightarrow> IsA lib (MessageType lib rsp) rsp
     \<and> (MessageType lib rsp \<in> {MsgTypeHeartbeatResponse, MsgTypeAssociationSetupResponse}
          \<longrightarrow> RecoveryTimeStamp lib rsp \<noteq> None)
     \<and> (MessageType lib rsp = MsgTypeAssociationSetupResponse \<longrightarrow>
          (\<exists>cause. Cause lib rsp = Some cause \<and> (cause = CauseRequestAccepted lib \<longrightarrow>
             (\<exists>text. NodeIDText lib rsp = Some text
                \<and> fst (ActivateUpfNode ord (NewNodeID text) (upfs (rest_of s))) \<noteq> None))))"

definition delivered_types :: "msg_type set" where
  "delivered_types = {MsgTypeHeartbeatResponse, MsgTypeAssociationSetupResponse,
     MsgTypeSessionEstablishmentResponse, MsgTypeSessionModificationResponse, MsgTypeSessionDeletionResponse}"

lemma encode_delivers:
  assumes "txn_inv (waiters (rest_of s))" "UpfTxns (waiters (rest_of s)) (Sequence lib rsp) = Some c" "Marshal lib rsp = Some buf"
  shows "\<exists>s'. encodeAndSendRsp lib rsp s = (None, Done s')
    \<and> UpfTxns (waiters (rest_of s')) = (UpfTxns (waiters (rest_of s)))(Sequence lib rsp := None)
    \<and> (\<exists>s''. finish_reply c s' = Some (OK buf, s''))"
proof -
  have "chans (waiters (rest_of s)) c = Some None" using assms(1,2) by (auto simp: txn_inv_def)
  with assms(2,3) show ?thesis
    by (simp add: encodeAndSendRsp_def send_to_waiter_def deliverRsp_def GetUpfPfcpTxn_def sendRsp_def
        finish_reply_def recvRsp_def)
qed

lemma dispatch_delivers:
  assumes "MessageType lib rsp \<in> delivered_types" "deliverable lib ord rsp s"
  shows "\<exists>nodes. Dispatch lib e ord now rsp peer s
    = snd (encodeAndSendRsp lib rsp (addr_state.more_update (\<lambda>r. r\<lparr>upfs := nodes\<rparr>) s))"
proof -
  have same: "addr_state.more_update (\<lambda>r. r\<lparr>upfs := upfs (rest_of s)\<rparr>) s = s"
    by (cases s) (simp add: addr_state.defs)
  show ?thesis
  proof (cases "MessageType lib rsp = MsgTypeAssociationSetupResponse \<and> Cause lib rsp = Some (CauseRequestAccepted lib)")
    case True
    then obtain nm k nodes where "NodeIDText lib rsp = Some nm" "RecoveryTimeStamp lib rsp \<noteq> None"
      "IsA lib MsgTypeAssociationSetupResponse rsp"
      "ActivateUpfNode ord (NewNodeID nm) (upfs (rest_of s)) = (Some k, nodes)"
      using assms(2) by (auto simp: deliverable_def) (metis prod.collapse)
    with True show ?thesis
      by (intro exI [of _ "PreservePfcpAssociationRsp k rsp nodes"])
        (auto simp: Dispatch_def HandlePfcpAssociationSetupResponse_def Let_def)
  next
    case False
    then show ?thesis
      using assms
      by (intro exI [of _ "upfs (rest_of s)"])
        (auto simp: same delivered_types_def deliverable_def Dispatch_def HandlePfcpAssociationSetupResponse_def
          HandlePfcpHeartbeatResponse_def HandlePfcpSessionEstablishmentResponse_def
          HandlePfcpSessionModificationResponse_def HandlePfcpSessionDeletionResponse_def)
  qed
qed

text \<open>
  Property C13. The answer of the user plane reaches the request that waits for it. A message of
  the SMF that has been forwarded and waits is registered under its number, and in any state that
  comes later, for as long as that registration stands (a message of the SMF under the same number
  replaces it), a response under its number that can be encoded and passes the tests of its handler
  takes the registration and becomes the HTTP reply, byte for byte. A response that fails them
  changes nothing, or ends in a panic.
\<close>

theorem forward_round_trip:
  assumes "adapter_inv s" "lib_laws lib"
    and "ForwardPfcpMsgToUpf lib e msg n s = Done (WaitingOn c, s1)"
    and "adapter_inv s2" "UpfTxns (waiters (rest_of s2)) (Sequence lib msg) = Some c"
    and "Sequence lib rsp = Sequence lib msg" "MessageType lib rsp \<in> delivered_types" "Marshal lib rsp = Some buf"
  shows "UpfTxns (waiters (rest_of s1)) (Sequence lib msg) = Some c
    \<and> (deliverable lib ord rsp s2 \<longrightarrow>
        (\<exists>s3 s4. Dispatch lib e' ord now rsp peer s2 = Done s3
          \<and> UpfTxns (waiters (rest_of s3)) = (UpfTxns (waiters (rest_of s2)))(Sequence lib msg := None)
          \<and> finish_reply c s3 = Some (OK buf, s4)))
    \<and> (\<not> deliverable lib ord rsp s2 \<longrightarrow> Dispatch lib e' ord now rsp peer s2 \<in> {Done s2, Panicked})"
proof (intro conjI impI)
  have "forward_shape lib msg (own_chan e) (on_waiters (newTxnChan (own_chan e)) s) (WaitingOn c) s1"
    by (rule forward_result [OF _ assms(2,3)]) (use assms(1) in \<open>simp add: adapter_inv_def\<close>)
  then show "UpfTxns (waiters (rest_of s1)) (Sequence lib msg) = Some c" by (auto simp: forward_shape_def Let_def)
next
  assume "deliverable lib ord rsp s2"
  from dispatch_delivers [OF assms(7) this] obtain nodes where d: "Dispatch lib e' ord now rsp peer s2
    = snd (encodeAndSendRsp lib rsp (addr_state.more_update (\<lambda>r. r\<lparr>upfs := nodes\<rparr>) s2))" by blast
  have "txn_inv (waiters (rest_of s2))" using assms(4) by (simp add: adapter_inv_def)
  with encode_delivers [of "addr_state.more_update (\<lambda>r. r\<lparr>upfs := nodes\<rparr>) s2" lib rsp c buf] assms(5,6,8) d
  show "\<exists>s3 s4. Dispatch lib e' ord now rsp peer s2 = Done s3
      \<and> UpfTxns (waiters (rest_of s3)) = (UpfTxns (waiters (rest_of s2)))(Sequence lib msg := None)
      \<and> finish_reply c s3 = Some (OK buf, s4)" by auto
next
  assume "\<not> deliverable lib ord rsp s2"
  then show "Dispatch lib e' ord now rsp peer s2 \<in> {Done s2, Panicked}"
    using assms(7)
    by (auto simp: delivered_types_def deliverable_def Dispatch_def HandlePfcpAssociationSetupResponse_def
        HandlePfcpHeartbeatResponse_def HandlePfcpSessionEstablishmentResponse_def
        HandlePfcpSessionModificationResponse_def HandlePfcpSessionDeletionResponse_def
        split: option.split prod.split)
qed

theorem forward_round_trip_witness:
  "\<exists>s1 s2 s3. ForwardPfcpMsgToUpf wire_lib std_fwd (std_msg MsgTypeSessionModificationRequest 5) node_a std_adapter
        = Done (WaitingOn 3, s1)
    \<and> Dispatch wire_lib std_report_env sorted_list_of_set (secs 103) (std_msg MsgTypeSessionModificationResponse 5) None s1
        = Done s2
    \<and> finish_reply 3 s2 = Some (OK [5], s3)"
proof -
  obtain s1 where f: "ForwardPfcpMsgToUpf wire_lib std_fwd (std_msg MsgTypeSessionModificationRequest 5) node_a std_adapter
      = Done (WaitingOn 3, s1)" using std_waiting by blast
  have inv: "adapter_inv s1"
    by (rule forward_inv [OF std_adapter_inv _ f]) (simp add: std_rest_def std_fwd_def tx_state.defs)
  have "forward_shape wire_lib (std_msg MsgTypeSessionModificationRequest 5) (own_chan std_fwd)
      (on_waiters (newTxnChan (own_chan std_fwd)) std_adapter) (WaitingOn 3) s1"
    by (rule forward_result [OF _ wire_lib_laws f]) simp
  then have "UpfTxns (waiters (rest_of s1)) (Sequence wire_lib (std_msg MsgTypeSessionModificationRequest 5)) = Some 3"
    by (auto simp: forward_shape_def Let_def)
  from forward_round_trip [OF std_adapter_inv wire_lib_laws f inv this, of "std_msg MsgTypeSessionModificationResponse 5" "[5]"
      sorted_list_of_set std_report_env "secs 103" None] f
  show ?thesis by (auto simp: std_msg_def delivered_types_def deliverable_def)
qed

text \<open>
  Property C31. A message that could not be sent leaves no registration of its own behind, and
  touches no registration under another number.
\<close>

theorem failed_forward_leaves_nothing:
  assumes "adapter_inv s" "lib_laws lib" "chans (waiters (rest_of s)) (own_chan e) = None"
    and "ForwardPfcpMsgToUpf lib e msg n s = Done (Failed err, s1)"
  shows "UpfTxns (waiters (rest_of s1)) q \<noteq> Some (own_chan e)
    \<and> (q \<noteq> Sequence lib msg \<longrightarrow> UpfTxns (waiters (rest_of s1)) q = UpfTxns (waiters (rest_of s)) q)"
proof -
  have "forward_shape lib msg (own_chan e) (on_waiters (newTxnChan (own_chan e)) s) (Failed err) s1"
    by (rule forward_result [OF _ assms(2,4)]) (use assms(1) in \<open>simp add: adapter_inv_def\<close>)
  moreover have "UpfTxns (waiters (rest_of s)) q \<noteq> Some (own_chan e)"
    using assms(1,3) by (auto simp: adapter_inv_def txn_inv_def)
  ultimately show ?thesis by (auto simp: forward_shape_def Let_def newTxnChan_def split: if_splits)
qed

theorem failed_forward_leaves_nothing_witness:
  "\<exists>s1. ForwardPfcpMsgToUpf wire_lib std_fwd (std_msg MsgTypeNodeReportRequest 5) node_a busy_adapter
      = Done (Failed (InvalidMsgType MsgTypeNodeReportRequest), s1)
    \<and> UpfTxns (waiters (rest_of s1)) 7 = Some 1"
proof -
  have f: "ForwardPfcpMsgToUpf wire_lib std_fwd (std_msg MsgTypeNodeReportRequest 5) node_a busy_adapter
      = Done (Failed (InvalidMsgType MsgTypeNodeReportRequest), on_waiters (newTxnChan 3) busy_adapter)"
    by (simp add: ForwardPfcpMsgToUpf_def std_msg_def std_fwd_def)
  from failed_forward_leaves_nothing [OF busy_inv wire_lib_laws _ f, of 7] f show ?thesis
    by (simp add: busy_fields std_fwd_def std_msg_def)
qed



text \<open>
  The answer from the stored association response carries PSREI exactly when the
  request asked for the sessions to be retained, keeps every other flag of the user plane, and has
  no flags element when no flag is left.
\<close>

lemma retention_flag_exact:
  "\<exists>flags. answerRetention lib rsp req = SetPFCPASRspFlags lib flags rsp \<and> flags \<noteq> Some 0
    \<and> (\<forall>i. bit (case flags of None \<Rightarrow> 0 | Some f \<Rightarrow> f) i =
         (if i = 0 then IsA lib MsgTypeAssociationSetupRequest req \<and> HasRetentionInformation lib req
          else bit (stored_flags lib rsp) i))"
proof -
  let ?asked = "IsA lib MsgTypeAssociationSetupRequest req \<and> HasRetentionInformation lib req"
  let ?f = "if ?asked then (stored_flags lib rsp AND NOT psrei) OR psrei else stored_flags lib rsp AND NOT psrei"
  have a: "answerRetention lib rsp req = SetPFCPASRspFlags lib (if ?f \<noteq> 0 then Some ?f else None) rsp"
    by (simp add: answerRetention_def Let_def stored_flags_def)
  have b: "bit ?f i = (if i = 0 then ?asked else bit (stored_flags lib rsp) i)" for i
    by (auto simp: psrei_def bit_and_iff bit_or_iff bit_not_iff bit_1_iff dest: bit_imp_le_length)
  have c: "(case if ?f \<noteq> 0 then Some ?f else None of None \<Rightarrow> 0 | Some f \<Rightarrow> f) = ?f" by simp
  show ?thesis
    by (rule exI [of _ "if ?f \<noteq> 0 then Some ?f else None"]) (use a b c in \<open>simp only: c, simp\<close>)
qed

text \<open>
  Property C37. A heartbeat that times out is reported to nobody. Its transaction carries no error
  handler: when it ends, in any state in which it is still held and the registration of the request
  stands, its own entry goes and nothing else happens; no handler is called, the registration stays,
  and the request of the SMF goes on waiting on a channel that is empty.
\<close>

theorem heartbeat_timeout_unanswered:
  assumes "adapter_inv s" "lib_laws lib" "MessageType lib msg = MsgTypeHeartbeatRequest"
    and "ForwardPfcpMsgToUpf lib e msg n s = Done (WaitingOn c, s1)"
  shows "\<exists>tx. transactions (rest_of s1) (next_ref (rest_of s)) = Some tx
    \<and> held (rest_of s1) (ConsumerAddr tx, SequenceNumber tx) = Some (next_ref (rest_of s))
    \<and> UpfTxns (waiters (rest_of s1)) (Sequence lib msg) = Some c \<and> Server (rest_of s1) \<noteq> None
    \<and> (\<forall>s2. adapter_inv s2 \<longrightarrow> held (rest_of s2) (ConsumerAddr tx, SequenceNumber tx) = Some (next_ref (rest_of s))
        \<longrightarrow> UpfTxns (waiters (rest_of s2)) (Sequence lib msg) = Some c \<longrightarrow> Server (rest_of s2) \<noteq> None
        \<longrightarrow> (let (call, s3) = on_rest (startTxLifeCycle lib (next_ref (rest_of s)) tx (Some err)) s2 in
              call = None \<and> runErrHandler lib now call s3 = Done s3
              \<and> held (rest_of s3) = (held (rest_of s2))((ConsumerAddr tx, SequenceNumber tx) := None)
              \<and> UpfTxns (waiters (rest_of s3)) (Sequence lib msg) = Some c \<and> finish_reply c s3 = None))"
proof -
  let ?m = "SetRecoveryTimeStamp lib UpfServerStartTime msg" and ?x = "next_ref (rest_of s)"
  let ?s = "on_waiters (newTxnChan (own_chan e)) s"
  let ?t = "on_waiters (InsertUpfPfcpTxn (Sequence lib ?m) (own_chan e)) ?s"
  let ?send = "sendToNode lib (lookup_host e) None n ?m"
  have reg: "registerAndSend lib (own_chan e) ?send ?m ?s = (WaitingOn c, s1)"
    using assms(3,4) by (simp add: ForwardPfcpMsgToUpf_def Let_def SendHeartbeatRequest_def [abs_def] split: if_splits)
  have inv: "tx_inv (rest_of s)" using assms(1) by (simp add: adapter_inv_def)
  then have "fst (?send ?t) = None" using registerAndSend_result(1) [OF _ reg] by simp
  then have s1: "s1 = snd (?send ?t)" and sent: "fst (?send ?t) = None"
    using reg by (auto simp: registerAndSend_def split_beta Let_def)
  let ?a = "\<lparr>addr_IP = fst (resolveForRecord (lookup_host e) n ?t), addr_Port = PFCP_PORT, addr_Zone = []\<rparr>"
  have tinv: "tx_inv (rest_of ?t)" using inv by simp
  obtain tx where tx: "transactions (rest_of s1) ?x = Some tx" "EventData tx = None"
    "held (rest_of s1) (ConsumerAddr tx, SequenceNumber tx) = Some ?x" "Server (rest_of s1) \<noteq> None"
    using tinv
    by (cases rule: SendPfcp_cases [where lib = lib and msg = ?m and addr = ?a and ev = None])
      (use sent in \<open>auto simp: s1 sendToNode_rest tx_key_def\<close>)
  have "forward_shape lib msg (own_chan e) ?s (WaitingOn c) s1" by (rule forward_result [OF inv assms(2,4)])
  then have waits: "UpfTxns (waiters (rest_of s1)) (Sequence lib msg) = Some c" by (auto simp: forward_shape_def Let_def)
  have ends: "call = None \<and> runErrHandler lib now call s3 = Done s3
      \<and> held (rest_of s3) = (held (rest_of s2))((ConsumerAddr tx, SequenceNumber tx) := None)
      \<and> UpfTxns (waiters (rest_of s3)) (Sequence lib msg) = Some c \<and> finish_reply c s3 = None"
    if s2: "adapter_inv s2" "held (rest_of s2) (ConsumerAddr tx, SequenceNumber tx) = Some ?x"
      "UpfTxns (waiters (rest_of s2)) (Sequence lib msg) = Some c" "Server (rest_of s2) \<noteq> None"
      and s3: "on_rest (startTxLifeCycle lib ?x tx (Some err)) s2 = (call, s3)" for s2 s3 :: "'a adapter" and call
  proof -
    have call: "call = None" "rest_of s3 = snd (removeTransaction ?x tx (rest_of s2))"
      using s3 tx(2) by (auto simp: on_rest_def startTxLifeCycle_def split_beta)
    have tx2: "tx_inv (rest_of s2)" "txn_inv (waiters (rest_of s2))" using s2(1) by (simp_all add: adapter_inv_def)
    have "held (rest_of s3) = (held (rest_of s2))((ConsumerAddr tx, SequenceNumber tx) := None)"
      using remove_refines(1) [OF tx2(1) s2(4)] s2(2) by (simp add: call(2))
    moreover have same: "waiters (rest_of s3) = waiters (rest_of s2)"
      using rest_fields(2) [OF removeTransaction_frame(2)] by (simp add: call(2))
    moreover have "chans (waiters (rest_of s2)) c = Some None" using tx2(2) s2(3) by (auto simp: txn_inv_def)
    ultimately show ?thesis
      using s2(3) call(1) by (simp add: runErrHandler_def finish_reply_def recvRsp_def)
  qed
  show ?thesis
  proof (rule exI [of _ tx], intro conjI allI impI)
    fix s2 :: "'a adapter"
    assume s2: "adapter_inv s2" "held (rest_of s2) (ConsumerAddr tx, SequenceNumber tx) = Some ?x"
      "UpfTxns (waiters (rest_of s2)) (Sequence lib msg) = Some c" "Server (rest_of s2) \<noteq> None"
    show "let (call, s3) = on_rest (startTxLifeCycle lib ?x tx (Some err)) s2 in
        call = None \<and> runErrHandler lib now call s3 = Done s3
        \<and> held (rest_of s3) = (held (rest_of s2))((ConsumerAddr tx, SequenceNumber tx) := None)
        \<and> UpfTxns (waiters (rest_of s3)) (Sequence lib msg) = Some c \<and> finish_reply c s3 = None"
      using ends [OF s2 prod.collapse [symmetric]] unfolding Let_def split_beta .
  qed (use tx waits in simp_all)
qed

theorem heartbeat_timeout_unanswered_witness:
  "\<exists>s1 s3 tx. ForwardPfcpMsgToUpf wire_lib std_fwd (std_msg MsgTypeHeartbeatRequest 5) node_a std_adapter
        = Done (WaitingOn 3, s1)
    \<and> on_rest (startTxLifeCycle wire_lib (next_ref std_rest) tx (Some (ErrRequestTimeout 5))) s1 = (None, s3)
    \<and> UpfTxns (waiters (rest_of s3)) 5 = Some 3 \<and> finish_reply 3 s3 = None"
proof -
  let ?m = "std_msg MsgTypeHeartbeatRequest 5"
  obtain s1 where f: "ForwardPfcpMsgToUpf wire_lib std_fwd ?m node_a std_adapter = Done (WaitingOn 3, s1)"
    using std_waiting by blast
  have t: "MessageType wire_lib ?m = MsgTypeHeartbeatRequest" by (simp add: std_msg_def)
  have inv: "adapter_inv s1"
    by (rule forward_inv [OF std_adapter_inv _ f]) (simp add: std_rest_def std_fwd_def tx_state.defs)
  obtain tx where tx: "held (rest_of s1) (ConsumerAddr tx, SequenceNumber tx) = Some (next_ref std_rest)"
      "UpfTxns (waiters (rest_of s1)) (Sequence wire_lib ?m) = Some 3" "Server (rest_of s1) \<noteq> None"
    and "\<forall>s2. adapter_inv s2 \<longrightarrow> held (rest_of s2) (ConsumerAddr tx, SequenceNumber tx) = Some (next_ref std_rest)
        \<longrightarrow> UpfTxns (waiters (rest_of s2)) (Sequence wire_lib ?m) = Some 3 \<longrightarrow> Server (rest_of s2) \<noteq> None
        \<longrightarrow> (let (call, s3) = on_rest (startTxLifeCycle wire_lib (next_ref std_rest) tx (Some (ErrRequestTimeout 5))) s2 in
              call = None \<and> runErrHandler wire_lib (secs 111) call s3 = Done s3
              \<and> held (rest_of s3) = (held (rest_of s2))((ConsumerAddr tx, SequenceNumber tx) := None)
              \<and> UpfTxns (waiters (rest_of s3)) (Sequence wire_lib ?m) = Some 3 \<and> finish_reply 3 s3 = None)"
    using heartbeat_timeout_unanswered [OF std_adapter_inv wire_lib_laws t f, of "ErrRequestTimeout 5" "secs 111"]
    unfolding std_adapter_fields by blast
  with inv have "case on_rest (startTxLifeCycle wire_lib (next_ref std_rest) tx (Some (ErrRequestTimeout 5))) s1 of (call, s3) \<Rightarrow>
      call = None \<and> UpfTxns (waiters (rest_of s3)) 5 = Some 3 \<and> finish_reply 3 s3 = None"
    by (auto simp: std_msg_def split_beta Let_def)
  with f show ?thesis by (auto split: prod.splits)
qed

text \<open>
  Property C28. When a user plane leaves an address, or ages out, and nobody else is there, all that
  was held for the address goes with the message that shows it: no report of it is being relayed,
  a claim authorised before is stale, and no transaction is held for the address on any port.
\<close>

theorem moved_user_plane_released:
  assumes "adapter_inv s" "legal_env e" "enumerates ord" "Server (rest_of s) \<noteq> None"
    and "a \<in> deserted now ip node s" "s' = commitUpfAddr e (release_hook ord) now ip node s"
  shows "(\<forall>k r. reportRelays s' k = Some r \<longrightarrow> host_of r \<noteq> a)
    \<and> RelayGeneration a s' = RelayGeneration a s + 1
    \<and> (\<forall>key q. SplitHost key = Some a \<longrightarrow> held (rest_of s') (key, q) = None)"
proof -
  have inv: "addr_inv s" "tx_inv (rest_of s)" using assms(1) by (simp_all add: adapter_inv_def)
  obtain gone where gone: "set gone = deserted now ip node s" "released_exactly e (release_hook ord) gone s s'"
    using commit_releases [OF inv(1) assms(2)] assms(6) by blast
  then have "held (rest_of s') = map_keep (\<lambda>k _. SplitHost (fst k) \<notin> Some ` set gone) (held (rest_of s))"
    using released_rest [OF inv(2) assms(3,4)] by (simp add: released_exactly_def)
  then show ?thesis using gone assms(5) by (auto simp: released_exactly_def map_keep_None)
qed

theorem moved_user_plane_released_witness:
  "RelayGeneration ''10.42.0.184'' (commitUpfAddr std_env (release_hook sorted_list_of_set) (secs 200)
      (addr_IP upf_b) ''2/upf-a'' std_adapter)
   = RelayGeneration ''10.42.0.184'' std_adapter + 1"
proof -
  have "''10.42.0.184'' \<in> deserted (secs 200) (addr_IP upf_b) ''2/upf-a'' std_adapter"
    using upf_resolved
    by (simp add: deserted_def leaves_def at_a_addrs bucket_def named_def at_a_nodes upf_texts)
      (auto simp: secs_def)
  from moved_user_plane_released [OF std_adapter_inv std_env_legal enumerates_sorted _ this refl] show ?thesis
    by (simp add: tx_init_server)
qed

text \<open>
  A repeated association setup for a user plane that is associated is answered from
  the stored response, under the number of the new request, without anything being sent.
\<close>

lemma repeated_association_answered:
  assumes "nodes_inv (upfs (rest_of s))" "enumerates (upfs_order e)"
    and "MessageType lib msg = MsgTypeAssociationSetupRequest" "NodeIdType n = NodeIdTypeFqdn"
    and "upfs (rest_of s) (nodeValue n) = Some upf" "State upf = AssociatedSetUpSuccess"
    and "NodeIdType (NodeID_of upf) = NodeIdTypeFqdn" "LastAssoRsp upf = Some stored"
    and "Marshal lib (answerRetention lib (SetSequenceNumber lib (Sequence lib msg) stored) msg) = Some buf"
  shows "ForwardPfcpMsgToUpf lib e msg n s = Done (Answered buf, on_waiters (newTxnChan (own_chan e)) s)"
proof -
  have "GetUpfFromNodeId (upfs_order e) n (upfs (rest_of s)) = Some (nodeValue n)"
    using assms(5,7) by (simp add: get_upf_fqdn [OF assms(1,2,4)])
  with assms show ?thesis
    by (simp add: ForwardPfcpMsgToUpf_def forwardAssociation_def IsUpfAssociated_def
        BuildPfcpAssociationResponse_def Let_def)
qed

text \<open>
  Between the moment a user plane is marked as associated and the moment its response
  is stored, a repeated association setup for it panics: the header it copies is still nil.
\<close>

lemma activation_window_panics:
  assumes "nodes_inv (upfs (rest_of s))" "enumerates (upfs_order e)" "enumerates ord"
    and "MessageType lib msg = MsgTypeAssociationSetupRequest" "NodeIdType n = NodeIdTypeFqdn"
    and "upfs (rest_of s) (nodeValue n) = Some upf" "NodeIdType (NodeID_of upf) = NodeIdTypeFqdn"
    and "LastAssoRsp upf = None"
  shows "ForwardPfcpMsgToUpf lib e msg n
      (addr_state.more_update (\<lambda>r. r\<lparr>upfs := snd (ActivateUpfNode ord n (upfs r))\<rparr>) s) = Panicked"
proof -
  let ?u = "upfs (rest_of s)" and ?k = "nodeValue n"
  let ?v = "snd (ActivateUpfNode ord n ?u)"
  have "GetUpfFromNodeId ord n ?u = Some ?k" using assms(6,7) by (simp add: get_upf_fqdn [OF assms(1,3,5)])
  then have v: "?v ?k = Some (upf\<lparr>State := AssociatedSetUpSuccess\<rparr>)"
    using assms(6) by (simp add: ActivateUpfNode_def update_node_apply)
  have "GetUpfFromNodeId (upfs_order e) n ?v = Some ?k"
    using assms(7) v by (simp add: get_upf_fqdn [OF activate_node_inv [OF assms(1)] assms(2,5)])
  with v assms(4,8) show ?thesis
    by (simp add: ForwardPfcpMsgToUpf_def forwardAssociation_def IsUpfAssociated_def
        BuildPfcpAssociationResponse_def Let_def)
qed

text \<open>
  Property C22. One user plane named in two ways panics without any race. A user plane is
  associated under its address; the SMF then asks for an association with the same user plane
  under its host name, which adds a second node with the same address. A repeated association
  under the address finds either of the two, as the map happens to be ordered, and copies a
  response that the second node does not have.
\<close>

theorem shared_address_panics:
  assumes "nodes_inv (upfs (rest_of s))" "MessageType lib msg = MsgTypeAssociationSetupRequest"
    and "NodeIdType n = NodeIdTypeIpv4Address" "IsUpfAssociated n (upfs (rest_of s))"
    and "upfs (rest_of s) (nodeValue host) = None"
    and "octets (To4 (fst (ResolveNodeIdToIp L host (dnsHostIpCache s)))) = octets (NodeIdValue n)"
  shows "\<exists>ord. enumerates ord \<and> ForwardPfcpMsgToUpf lib (e\<lparr>upfs_order := ord\<rparr>) msg n
      (addr_state.more_update (\<lambda>r. r\<lparr>upfs := snd (InsertUpfNode L host (dnsHostIpCache s) (upfs r))\<rparr>) s) = Panicked"
proof -
  let ?k = "nodeValue host" and ?nodes = "snd (InsertUpfNode L host (dnsHostIpCache s) (upfs (rest_of s)))"
  define ord where "ord S = (if ?k \<in> S then ?k # sorted_list_of_set (S - {?k}) else sorted_list_of_set S)" for S
  have ord: "enumerates ord" by (auto simp: enumerates_def ord_def)
  obtain upf where upf: "?nodes = (upfs (rest_of s))(?k \<mapsto> upf)" "upf_matches n upf" "LastAssoRsp upf = None"
    using assms(3,5,6) by (simp add: InsertUpfNode_def Let_def split_beta upf_matches_def)
  have "nodeValue n \<noteq> ?k" using assms(4,5) by (auto simp: IsUpfAssociated_def)
  then have assoc: "IsUpfAssociated n ?nodes" using assms(4) upf(1) by (simp add: IsUpfAssociated_def)
  have "ord (dom ?nodes) = ?k # sorted_list_of_set (dom ?nodes - {?k})" using upf(1) by (simp add: ord_def)
  then have "GetUpfFromNodeId ord n ?nodes = Some ?k" using upf(1,2) by (simp add: GetUpfFromNodeId_def)
  then have "ForwardPfcpMsgToUpf lib (e\<lparr>upfs_order := ord\<rparr>) msg n
      (addr_state.more_update (\<lambda>r. r\<lparr>upfs := snd (InsertUpfNode L host (dnsHostIpCache s) (upfs r))\<rparr>) s) = Panicked"
    using assms(2) assoc upf(1,3)
    by (simp add: ForwardPfcpMsgToUpf_def forwardAssociation_def BuildPfcpAssociationResponse_def Let_def)
  with ord show ?thesis by blast
qed

theorem shared_address_panics_witness:
  "\<exists>s ord. enumerates ord \<and> ForwardPfcpMsgToUpf wire_lib (std_fwd\<lparr>upfs_order := ord\<rparr>)
      (std_msg MsgTypeAssociationSetupRequest 9) \<lparr>NodeIdValue = Some [10, 42, 0, 185], NodeIdType = NodeIdTypeIpv4Address\<rparr> s = Panicked"
proof -
  let ?n = "\<lparr>NodeIdValue = Some [10, 42, 0, 185], NodeIdType = NodeIdTypeIpv4Address\<rparr>"
  let ?s = "addr_state.more_update (\<lambda>r. r\<lparr>upfs := [nodeValue ?n \<mapsto> \<lparr>UpfName = nodeValue ?n,
      LastAssoRsp = Some (std_msg MsgTypeAssociationSetupResponse 2), LastHBRsp = None,
      ANIP = Some [10, 42, 0, 185], NodeID_of = ?n, State = AssociatedSetUpSuccess\<rparr>]\<rparr>) (std_adapter\<lparr>dnsHostIpCache := Map.empty\<rparr>)"
  have ip: "ParseIP ''10.42.0.185'' = Some [0, 0, 0, 0, 0, 0, 0, 0, 0, 0, 255, 255, 10, 42, 0, 185]" by code_simp
  have ne: "nodeValue node_a \<noteq> nodeValue ?n"
    by (simp add: nodeValue_def node_a_def) code_simp
  have dns: "std_dns ''upf-a'' = LookupAddrs ''10.42.0.185'' []" by (simp add: std_dns_def)
  have "octets (To4 (fst (ResolveNodeIdToIp std_dns node_a Map.empty))) = [10, 42, 0, 185]"
    by (simp add: ResolveNodeIdToIp_def node_a_def node_id_types getDnsHostIp_def dns ip) code_simp
  then have at: "octets (To4 (fst (ResolveNodeIdToIp std_dns node_a (dnsHostIpCache ?s)))) = octets (NodeIdValue ?n)" by simp
  have inv: "nodes_inv (upfs (rest_of ?s))" by (auto simp: nodes_inv_def split: if_splits)
  have assoc: "IsUpfAssociated ?n (upfs (rest_of ?s))" "upfs (rest_of ?s) (nodeValue node_a) = None"
    using ne by (simp_all add: IsUpfAssociated_def)
  have type: "MessageType wire_lib (std_msg MsgTypeAssociationSetupRequest 9) = MsgTypeAssociationSetupRequest"
    by (simp add: wire_lib_def plain_lib_def std_msg_def)
  show ?thesis using shared_address_panics [OF inv type _ assoc at, of std_fwd] by (simp only: NodeID.simps) blast
qed

section \<open>The report of a claimed address\<close>

text \<open>A claim in the text form of an IPv4 address is reported once: it is recorded as it is written.\<close>

lemma claim_reported_once:
  assumes "length b = 4" "b \<noteq> [0, 0, 0, 0]"
  shows "\<not> claim_reported remoteAddr (IP_String (Some b)) (SetSmfAddr (IP_String (Some b)) s)"
proof -
  have "IP_String (Some (v4InV6Prefix @ b)) = IP_String (Some b)"
    using assms(1) by (auto simp: IP_String_def To4_def)
  then show ?thesis using assms(2)
    by (simp add: claim_reported_def smf_claim_is_recorded [OF assms(1)] split: option.split)
qed

text \<open>
  A claim that is an address but not in its canonical form, such as one with leading zeros or an
  IPv4 address in IPv6 clothing, is recorded and yet reported again with every message that makes
  it; and a claim that is no address changes nothing, so it is reported again as well.
\<close>

lemma uncanonical_claim_reported_always:
  assumes "SplitHost remoteAddr = Some host" "claim \<notin> {[], host}"
    and "ParseIP claim \<noteq> None" "\<not> IsUnspecified (ParseIP claim)" "IP_String (ParseIP claim) \<noteq> claim"
  shows "claim_reported remoteAddr claim (SetSmfAddr claim s)"
  using assms by (auto simp: claim_reported_def SetSmfAddr_def SmfAddr_def Let_def)

lemma malformed_claim_reported_again:
  "ParseIP claim = None \<Longrightarrow> claim_reported remoteAddr claim (SetSmfAddr claim s) = claim_reported remoteAddr claim s"
  by (simp add: SetSmfAddr_def)

end
