(* ===== verification/Association_Threads.thy ===== *)
theory Association_Threads
  imports Forward_Properties
begin

text \<open>
  Associations as goroutines. The HTTP handler that forwards an association setup request
  (\<^verbatim>\<open>pfcp/util.go\<close>, \<^verbatim>\<open>BuildPfcpAssociationResponse\<close>) and the handler of an
  association setup response (\<^verbatim>\<open>pfcp/handler/handler.go\<close>) meet in the table of user
  planes (\<^verbatim>\<open>config/config.go\<close>): they look a user plane up, mark it and store its
  response in separate calls, the last two under different locks. A thread takes one call at a
  time here, and taking \<^verbatim>\<open>UpfLock\<close> is a step that may have to wait. A panic of the
  HTTP handler ends its request alone, since \<^verbatim>\<open>net/http\<close> recovers it, and the lock
  it holds stays held; a panic of a dispatched handler ends the process.
\<close>

section \<open>The lock of a user plane\<close>

text \<open>
  \<^verbatim>\<open>sync.RWMutex\<close>: its readers, whether a writer holds it, and how many writers wait. A
  waiting writer keeps readers out. Where several writers wait, Go lets the readers that were queued
  in between two of them; here they wait for the last.
\<close>

record rwlock =
  readers :: nat
  writing :: bool
  wanting :: nat

definition unlocked :: rwlock where
  "unlocked = \<lparr>readers = 0, writing = False, wanting = 0\<rparr>"

definition can_RLock :: "rwlock \<Rightarrow> bool" where
  "can_RLock l \<longleftrightarrow> \<not> writing l \<and> wanting l = 0"

definition can_Lock :: "rwlock \<Rightarrow> bool" where
  "can_Lock l \<longleftrightarrow> \<not> writing l \<and> readers l = 0"

section \<open>Threads\<close>

datatype 'm assoc_pc =
    Checking
  | Finding
  | RLocking string
  | Copying string
  | Encoding 'm
  | Inserting
  | Registering
  | SendingRequest_to 'm
  | Withdrawing 'm udp_error
  | Replied forward_result
  | Recovered string
  | Activating NodeID
  | Marking string
  | LockCalling string
  | LockWaiting string
  | Storing string
  | Delivering
  | Handled
  | Crashed

record 'm assoc_thread =
  as_msg :: 'm
  as_node :: NodeID
  as_env :: forward_env
  as_pc :: "'m assoc_pc"

text \<open>
  Where the handler of a response starts: its guards look at the message alone.
\<close>

definition response_start :: "'m pfcp_lib \<Rightarrow> 'm \<Rightarrow> 'm assoc_pc" where
  "response_start lib msg =
     (if \<not> IsA lib MsgTypeAssociationSetupResponse msg then Handled
      else if RecoveryTimeStamp lib msg = None then Handled
      else
        case Cause lib msg of
          None \<Rightarrow> Handled
        | Some cause \<Rightarrow>
            if cause = CauseRequestAccepted lib then
              (case NodeIDText lib msg of
                 None \<Rightarrow> Handled
               | Some nodeIDstr \<Rightarrow> Activating (NewNodeID nodeIDstr))
            else Delivering)"

definition put_upfs :: "'m UPFs \<Rightarrow> 'm adapter \<Rightarrow> 'm adapter" where
  "put_upfs nodes s = addr_state.more_update (\<lambda>r. r\<lparr>upfs := nodes\<rparr>) s"

text \<open>One call of a thread; no result means that it waits for a lock, or has ended.\<close>

definition assoc_step ::
  "'m pfcp_lib \<Rightarrow> 'm assoc_thread \<Rightarrow> 'm adapter \<Rightarrow> (string \<Rightarrow> rwlock)
   \<Rightarrow> ('m assoc_pc \<times> 'm adapter \<times> (string \<Rightarrow> rwlock)) option" where
  "assoc_step lib th s L =
     (let msg = as_msg th; n = as_node th; e = as_env th; nodes = upfs (rest_of s) in
      case as_pc th of
        Checking \<Rightarrow>
          Some (if IsUpfAssociated n nodes then Finding else Inserting, on_waiters (newTxnChan (own_chan e)) s, L)
      | Finding \<Rightarrow>
          Some (case GetUpfFromNodeId (upfs_order e) n nodes of
                  None \<Rightarrow> Replied (Failed (BuildFailed (UpfNotFound (nodeValue n))))
                | Some k \<Rightarrow> RLocking k, s, L)
      | RLocking k \<Rightarrow>
          if can_RLock (L k) then Some (Copying k, s, L(k := (L k)\<lparr>readers := Suc (readers (L k))\<rparr>)) else None
      | Copying k \<Rightarrow>
          Some (case Option.bind (nodes k) LastAssoRsp of
                  None \<Rightarrow> (Recovered k, s, L)
                | Some rsp \<Rightarrow> (Encoding (SetSequenceNumber lib (Sequence lib msg) rsp), s,
                    L(k := (L k)\<lparr>readers := readers (L k) - 1\<rparr>)))
      | Encoding rsp \<Rightarrow>
          Some (case Marshal lib (answerRetention lib rsp msg) of
                  None \<Rightarrow> Replied (Failed (SendFailed ErrMarshal))
                | Some buf \<Rightarrow> Replied (Answered buf), s, L)
      | Inserting \<Rightarrow>
          (let (cache, nodes) = InsertUpfNode (lookup_host e) n (dnsHostIpCache s) nodes;
               s = put_upfs nodes (s\<lparr>dnsHostIpCache := cache\<rparr>)
           in Some (if IsA lib MsgTypeAssociationSetupRequest msg then Registering
                    else Replied (Failed InvalidMessage), s, L))
      | Registering \<Rightarrow>
          (let req = SetNodeID lib (IP_String (adapter_ip e)) (SetRecoveryTimeStamp lib UpfServerStartTime msg)
           in Some (SendingRequest_to req, on_waiters (InsertUpfPfcpTxn (Sequence lib req) (own_chan e)) s, L))
      | SendingRequest_to req \<Rightarrow>
          (let (err, s) = SendPfcpAssociationSetupRequest lib (lookup_host e) n req s
           in Some (case err of None \<Rightarrow> Replied (WaitingOn (own_chan e)) | Some e \<Rightarrow> Withdrawing req e, s, L))
      | Withdrawing req err \<Rightarrow>
          Some (Replied (Failed (SendFailed err)), on_waiters (ForgetUpfPfcpTxn (Sequence lib req) (own_chan e)) s, L)
      | Activating nodeId \<Rightarrow>
          Some (case GetUpfFromNodeId (upfs_order e) nodeId nodes of
                  None \<Rightarrow> Crashed | Some k \<Rightarrow> Marking k, s, L)
      | Marking k \<Rightarrow>
          Some (LockCalling k, put_upfs (update_node k (\<lambda>upf. upf\<lparr>State := AssociatedSetUpSuccess\<rparr>) nodes) s, L)
      | LockCalling k \<Rightarrow> Some (LockWaiting k, s, L(k := (L k)\<lparr>wanting := Suc (wanting (L k))\<rparr>))
      | LockWaiting k \<Rightarrow>
          if can_Lock (L k)
          then Some (Storing k, s, L(k := (L k)\<lparr>writing := True, wanting := wanting (L k) - 1\<rparr>)) else None
      | Storing k \<Rightarrow>
          Some (Delivering, put_upfs (PreservePfcpAssociationRsp k msg nodes) s, L(k := (L k)\<lparr>writing := False\<rparr>))
      | Delivering \<Rightarrow>
          (case snd (encodeAndSendRsp lib msg s) of Done s \<Rightarrow> Some (Handled, s, L) | _ \<Rightarrow> None)
      | _ \<Rightarrow> None)"

text \<open>A thread that nothing comes between, for as long as it can go on.\<close>

primrec run_alone ::
  "'m pfcp_lib \<Rightarrow> nat \<Rightarrow> 'm assoc_thread \<Rightarrow> 'm adapter \<Rightarrow> (string \<Rightarrow> rwlock)
   \<Rightarrow> 'm assoc_pc \<times> 'm adapter \<times> (string \<Rightarrow> rwlock)" where
  "run_alone lib 0 th s L = (as_pc th, s, L)"
| "run_alone lib (Suc m) th s L =
     (case assoc_step lib th s L of
        None \<Rightarrow> (as_pc th, s, L)
      | Some (pc, s, L) \<Rightarrow> run_alone lib m (th\<lparr>as_pc := pc\<rparr>) s L)"

section \<open>The system of threads\<close>

type_synonym 'm assoc_sys = "'m adapter \<times> (string \<Rightarrow> rwlock) \<times> 'm assoc_thread list"

definition alive :: "'m assoc_thread list \<Rightarrow> bool" where
  "alive ths \<longleftrightarrow> (\<forall>th \<in> set ths. as_pc th \<noteq> Crashed)"

text \<open>
  A step: the SMF asks for an association, a response is dispatched, a thread takes a step, or the
  adapter does anything else, none of which touches the user planes.
\<close>

inductive assoc_sys_step :: "'m pfcp_lib \<Rightarrow> 'm assoc_sys \<Rightarrow> 'm assoc_sys \<Rightarrow> bool" for lib where
  asks: "alive ths \<Longrightarrow> MessageType lib msg = MsgTypeAssociationSetupRequest \<Longrightarrow> enumerates (upfs_order e)
    \<Longrightarrow> assoc_sys_step lib (s, L, ths) (s, L, ths @ [\<lparr>as_msg = msg, as_node = n, as_env = e, as_pc = Checking\<rparr>])"
| responds: "alive ths \<Longrightarrow> enumerates (upfs_order e)
    \<Longrightarrow> assoc_sys_step lib (s, L, ths)
          (s, L, ths @ [\<lparr>as_msg = msg, as_node = n, as_env = e, as_pc = response_start lib msg\<rparr>])"
| runs: "alive ths \<Longrightarrow> i < length ths \<Longrightarrow> assoc_step lib (ths ! i) s L = Some (pc, s', L')
    \<Longrightarrow> assoc_sys_step lib (s, L, ths) (s', L', ths[i := (ths ! i)\<lparr>as_pc := pc\<rparr>])"
| elsewhere: "alive ths \<Longrightarrow> upfs (rest_of s') = upfs (rest_of s) \<Longrightarrow> assoc_sys_step lib (s, L, ths) (s', L, ths)"

inductive_cases assoc_sys_stepE: "assoc_sys_step lib c c'"


section \<open>The discipline of the lock\<close>

definition at_pc :: "'m assoc_pc \<Rightarrow> 'm assoc_thread list \<Rightarrow> nat" where
  "at_pc pc ths = length (filter (\<lambda>th. as_pc th = pc) ths)"

lemma at_pc_snoc [simp]: "at_pc pc (ths @ [th]) = at_pc pc ths + of_bool (as_pc th = pc)"
  by (simp add: at_pc_def)

lemma at_pc_pos: "0 < at_pc pc ths \<longleftrightarrow> (\<exists>th \<in> set ths. as_pc th = pc)"
  by (auto simp: at_pc_def filter_empty_conv)

lemma at_pc_update:
  "i < length ths \<Longrightarrow>
   at_pc pc (ths[i := th]) + of_bool (as_pc (ths ! i) = pc) = at_pc pc ths + of_bool (as_pc th = pc)"
proof (induction ths arbitrary: i)
  case (Cons t ths)
  then show ?case by (cases i) (simp_all add: at_pc_def)
qed simp

text \<open>
  Every reader is a thread that copies, or one that panicked while it did; every writer is the one
  thread that stores, and no reader is there with it.
\<close>

definition lock_ok :: "rwlock \<Rightarrow> 'm assoc_thread list \<Rightarrow> string \<Rightarrow> bool" where
  "lock_ok l ths k \<longleftrightarrow> readers l = at_pc (Copying k) ths + at_pc (Recovered k) ths
     \<and> wanting l = at_pc (LockWaiting k) ths
     \<and> at_pc (Storing k) ths = (if writing l then 1 else 0)
     \<and> (writing l \<longrightarrow> readers l = 0)"

definition lock_inv :: "(string \<Rightarrow> rwlock) \<Rightarrow> 'm assoc_thread list \<Rightarrow> bool" where
  "lock_inv L ths \<longleftrightarrow> (\<forall>k. lock_ok (L k) ths k)"

lemma lock_okD:
  assumes "lock_ok l ths k"
  shows "readers l = at_pc (Copying k) ths + at_pc (Recovered k) ths"
    and "wanting l = at_pc (LockWaiting k) ths" "at_pc (Storing k) ths = (if writing l then 1 else 0)"
    and "writing l \<Longrightarrow> readers l = 0"
  using assms unfolding lock_ok_def by blast+

lemma lock_ok_cong:
  "at_pc (Copying k) ths' = at_pc (Copying k) ths \<Longrightarrow> at_pc (Recovered k) ths' = at_pc (Recovered k) ths
   \<Longrightarrow> at_pc (LockWaiting k) ths' = at_pc (LockWaiting k) ths \<Longrightarrow> at_pc (Storing k) ths' = at_pc (Storing k) ths
   \<Longrightarrow> lock_ok l ths' k = lock_ok l ths k"
  by (simp only: lock_ok_def)

lemma response_start_cases:
  "response_start lib msg = Handled \<or> response_start lib msg = Delivering \<or> (\<exists>n. response_start lib msg = Activating n)"
  by (simp add: response_start_def split: option.split)

fun on_lock :: "'m assoc_pc \<Rightarrow> bool" where
  "on_lock (Copying k) = True"
| "on_lock (Recovered k) = True"
| "on_lock (LockWaiting k) = True"
| "on_lock (Storing k) = True"
| "on_lock _ = False"

text \<open>What a step does to the lock: nothing, or one of the five calls that take and release it.\<close>

lemma assoc_step_lock:
  assumes "assoc_step lib th s L = Some (pc, s', L')"
  obtains (Aside) "L' = L" "\<not> on_lock pc" "\<not> on_lock (as_pc th)"
  | (Reads) k where "as_pc th = RLocking k" "pc = Copying k" "can_RLock (L k)" "s' = s"
      "L' = L(k := (L k)\<lparr>readers := Suc (readers (L k))\<rparr>)"
  | (Copies) k rsp where "as_pc th = Copying k" "pc = Encoding rsp" "s' = s"
      "L' = L(k := (L k)\<lparr>readers := readers (L k) - 1\<rparr>)" "Option.bind (upfs (rest_of s) k) LastAssoRsp \<noteq> None"
  | (Panics) k where "as_pc th = Copying k" "pc = Recovered k" "L' = L" "s' = s"
      "Option.bind (upfs (rest_of s) k) LastAssoRsp = None"
  | (Waits) k where "as_pc th = LockCalling k" "pc = LockWaiting k" "s' = s"
      "L' = L(k := (L k)\<lparr>wanting := Suc (wanting (L k))\<rparr>)"
  | (Locks) k where "as_pc th = LockWaiting k" "pc = Storing k" "can_Lock (L k)" "s' = s"
      "L' = L(k := (L k)\<lparr>writing := True, wanting := wanting (L k) - 1\<rparr>)"
  | (Stores) k where "as_pc th = Storing k" "pc = Delivering" "L' = L(k := (L k)\<lparr>writing := False\<rparr>)"
      "upfs (rest_of s') = PreservePfcpAssociationRsp k (as_msg th) (upfs (rest_of s))"
proof (cases "as_pc th")
  case (RLocking k)
  with assms show thesis by (intro Reads) (auto simp: assoc_step_def Let_def split: if_splits)
next
  case (Copying k)
  show thesis
  proof (cases "Option.bind (upfs (rest_of s) k) LastAssoRsp")
    case None
    with Copying assms show thesis by (intro Panics) (auto simp: assoc_step_def Let_def)
  next
    case (Some rsp)
    with Copying assms show thesis by (intro Copies) (auto simp: assoc_step_def Let_def)
  qed
next
  case (LockCalling k)
  with assms show thesis by (intro Waits) (auto simp: assoc_step_def Let_def)
next
  case (LockWaiting k)
  with assms show thesis by (intro Locks) (auto simp: assoc_step_def Let_def split: if_splits)
next
  case (Storing k)
  with assms show thesis by (intro Stores) (auto simp: assoc_step_def Let_def put_upfs_def)
qed (rule Aside; use assms in \<open>force simp: assoc_step_def Let_def split_beta split: option.splits outcome.splits if_splits\<close>)+

lemma lock_inv_run:
  assumes "lock_inv L ths" "i < length ths" "assoc_step lib (ths ! i) s L = Some (pc, s', L')"
  shows "lock_inv L' (ths[i := (ths ! i)\<lparr>as_pc := pc\<rparr>])"
proof -
  have "lock_ok (L' k) (ths[i := (ths ! i)\<lparr>as_pc := pc\<rparr>]) k" for k
  proof -
    note upd = at_pc_update [OF assms(2), where th = "(ths ! i)\<lparr>as_pc := pc\<rparr>"]
    have inv: "lock_ok (L k) ths k" using assms(1) by (simp add: lock_inv_def)
    note upd4 = upd [of "Copying k"] upd [of "Recovered k"] upd [of "LockWaiting k"] upd [of "Storing k"]
    from assms(3) show ?thesis
    proof (cases rule: assoc_step_lock)
      case Aside
      have "pc \<noteq> q \<and> as_pc (ths ! i) \<noteq> q" if "on_lock q" for q using Aside(2,3) that by blast
      from this [of "Copying k"] this [of "Recovered k"] this [of "LockWaiting k"] this [of "Storing k"]
      have "pc \<noteq> Copying k" "pc \<noteq> Recovered k" "pc \<noteq> LockWaiting k" "pc \<noteq> Storing k"
        "as_pc (ths ! i) \<noteq> Copying k" "as_pc (ths ! i) \<noteq> Recovered k"
        "as_pc (ths ! i) \<noteq> LockWaiting k" "as_pc (ths ! i) \<noteq> Storing k" by simp_all
      with Aside(1) upd4 inv lock_ok_cong [of k "ths[i := (ths ! i)\<lparr>as_pc := pc\<rparr>]" ths] show ?thesis by simp
    next
      case (Reads k')
      with upd4 inv show ?thesis by (cases "k' = k") (auto simp: lock_ok_def can_RLock_def)
    next
      case (Copies k' rsp)
      with upd4 inv show ?thesis by (cases "k' = k") (auto simp: lock_ok_def)
    next
      case (Panics k')
      with upd4 inv show ?thesis by (cases "k' = k") (auto simp: lock_ok_def)
    next
      case (Waits k')
      with upd4 inv show ?thesis by (cases "k' = k") (auto simp: lock_ok_def)
    next
      case (Locks k')
      with upd4 inv show ?thesis by (cases "k' = k") (auto simp: lock_ok_def can_Lock_def)
    next
      case (Stores k')
      with upd4 inv show ?thesis by (cases "k' = k") (auto simp: lock_ok_def split: if_splits)
    qed
  qed
  then show ?thesis by (simp add: lock_inv_def)
qed

lemma lock_inv_more:
  "lock_inv L ths \<Longrightarrow> (\<forall>k. as_pc th \<notin> {Copying k, Recovered k, LockWaiting k, Storing k}) \<Longrightarrow> lock_inv L (ths @ [th])"
  by (simp add: lock_inv_def lock_ok_cong [of _ "ths @ [th]" ths])

lemma lock_inv_step:
  "assoc_sys_step lib c c' \<Longrightarrow> lock_inv (fst (snd c)) (snd (snd c)) \<Longrightarrow> lock_inv (fst (snd c')) (snd (snd c'))"
proof (induction rule: assoc_sys_step.induct)
  case (responds ths e s L msg n)
  then show ?case using response_start_cases [of lib msg] by (auto intro: lock_inv_more)
next
  case (runs ths i s L pc s' L')
  then show ?case using lock_inv_run by simp
qed (simp_all add: lock_inv_more)


section \<open>The window of an activation\<close>

text \<open>
  A user plane that is marked as associated has its response stored, or a thread is on its way to
  store it. A thread that works for a host name looks at the node of that name alone, and only
  once it is marked.
\<close>

definition storing_soon :: "string \<Rightarrow> 'm assoc_thread list \<Rightarrow> bool" where
  "storing_soon k ths \<longleftrightarrow> (\<exists>th \<in> set ths. as_pc th \<in> {LockCalling k, LockWaiting k, Storing k})"

definition associated :: "'m UPFs \<Rightarrow> string \<Rightarrow> bool" where
  "associated nodes k \<longleftrightarrow> (\<exists>upf. nodes k = Some upf \<and> State upf = AssociatedSetUpSuccess)"

definition stored_for :: "'m UPFs \<Rightarrow> string \<Rightarrow> 'm option" where
  "stored_for nodes k = Option.bind (nodes k) LastAssoRsp"

definition named_right :: "'m UPFs \<Rightarrow> 'm assoc_thread \<Rightarrow> bool" where
  "named_right nodes th \<longleftrightarrow> (NodeIdType (as_node th) = NodeIdTypeFqdn \<longrightarrow>
     (as_pc th = Finding \<longrightarrow> associated nodes (nodeValue (as_node th)))
     \<and> (\<forall>k. as_pc th = RLocking k \<or> as_pc th = Copying k \<longrightarrow>
          k = nodeValue (as_node th) \<and> associated nodes (nodeValue (as_node th))))"

definition assoc_inv :: "'m assoc_sys \<Rightarrow> bool" where
  "assoc_inv c \<longleftrightarrow>
     (case c of (s, L, ths) \<Rightarrow>
        lock_inv L ths \<and> nodes_inv (upfs (rest_of s))
        \<and> (\<forall>th \<in> set ths. enumerates (upfs_order (as_env th)) \<and> named_right (upfs (rest_of s)) th)
        \<and> (\<forall>k. associated (upfs (rest_of s)) k \<longrightarrow> stored_for (upfs (rest_of s)) k \<noteq> None \<or> storing_soon k ths))"

lemma assoc_invD:
  assumes "assoc_inv (s, L, ths)"
  shows "lock_inv L ths" "nodes_inv (upfs (rest_of s))"
    and "th \<in> set ths \<Longrightarrow> enumerates (upfs_order (as_env th))"
    and "th \<in> set ths \<Longrightarrow> named_right (upfs (rest_of s)) th"
    and "associated (upfs (rest_of s)) k \<Longrightarrow> stored_for (upfs (rest_of s)) k = None \<Longrightarrow> storing_soon k ths"
  using assms by (auto simp: assoc_inv_def)

text \<open>
  What a step does to the user planes: nothing, or it adds one that is not associated, marks one,
  or stores the response of one.
\<close>

lemma send_upfs [simp]: "upfs (rest_of (snd (sendToNode lib L ev n msg s))) = upfs (rest_of s)"
  using rest_fields(1) [OF SendPfcp_more] by (simp add: sendToNode_rest)

lemma assoc_step_nodes:
  assumes "assoc_step lib th s L = Some (pc, s', L')"
  obtains (Kept) "upfs (rest_of s') = upfs (rest_of s)" "\<And>k. as_pc th \<noteq> Marking k" "\<And>k. as_pc th \<noteq> Storing k"
      "\<And>k. pc \<noteq> LockCalling k"
  | (Inserted) "as_pc th = Inserting" "pc = Registering \<or> pc = Replied (Failed InvalidMessage)"
      "upfs (rest_of s') = snd (InsertUpfNode (lookup_host (as_env th)) (as_node th) (dnsHostIpCache s) (upfs (rest_of s)))"
  | (Marked) k where "as_pc th = Marking k" "pc = LockCalling k"
      "upfs (rest_of s') = update_node k (\<lambda>upf. upf\<lparr>State := AssociatedSetUpSuccess\<rparr>) (upfs (rest_of s))"
  | (Stored) k where "as_pc th = Storing k" "pc = Delivering"
      "upfs (rest_of s') = PreservePfcpAssociationRsp k (as_msg th) (upfs (rest_of s))"
proof (cases "as_pc th")
  case Inserting
  with assms show thesis by (intro Inserted) (auto simp: assoc_step_def Let_def split_beta put_upfs_def split: if_splits)
next
  case (Marking k)
  with assms show thesis by (intro Marked) (auto simp: assoc_step_def Let_def put_upfs_def)
next
  case (Storing k)
  with assms show thesis by (intro Stored) (auto simp: assoc_step_def Let_def put_upfs_def)
next
  case (SendingRequest_to req)
  let ?r = "SendPfcpAssociationSetupRequest lib (lookup_host (as_env th)) (as_node th) req s"
  have "upfs (rest_of (snd ?r)) = upfs (rest_of s)" by (simp add: SendPfcpAssociationSetupRequest_def)
  with SendingRequest_to assms show thesis
    by (intro Kept) (auto simp: assoc_step_def Let_def split_beta split: option.splits)
next
  case Delivering
  have "upfs (rest_of t) = upfs (rest_of s)" if "snd (encodeAndSendRsp lib (as_msg th) s) = Done t" for t
    using that by (auto simp: encodeAndSendRsp_def send_to_waiter_def split: option.splits prod.splits bool.splits)
  with Delivering assms show thesis by (intro Kept) (auto simp: assoc_step_def Let_def split: outcome.splits)
qed (rule Kept; use assms in \<open>force simp: assoc_step_def Let_def split_beta split: option.splits outcome.splits if_splits\<close>)+

lemma insert_nodes:
  "associated (snd (InsertUpfNode L n cache nodes)) k = associated nodes k"
  "stored_for (snd (InsertUpfNode L n cache nodes)) k = stored_for nodes k"
  by (auto simp: associated_def stored_for_def InsertUpfNode_def Let_def split: prod.splits if_splits)

lemma mark_nodes:
  "associated (update_node k (\<lambda>upf. upf\<lparr>State := AssociatedSetUpSuccess\<rparr>) nodes) j
    \<longleftrightarrow> associated nodes j \<or> (j = k \<and> nodes k \<noteq> None)"
  "stored_for (update_node k (\<lambda>upf. upf\<lparr>State := AssociatedSetUpSuccess\<rparr>) nodes) j = stored_for nodes j"
  by (auto simp: associated_def stored_for_def update_node_apply bind_eq_Some_conv split: option.splits)
    (cases "nodes k"; simp)

lemma store_nodes:
  "associated (PreservePfcpAssociationRsp k rsp nodes) j = associated nodes j"
  "stored_for (PreservePfcpAssociationRsp k rsp nodes) j
    = (if j = k \<and> nodes k \<noteq> None then Some rsp else stored_for nodes j)"
  by (auto simp: associated_def stored_for_def PreservePfcpAssociationRsp_def update_node_apply)

lemma associated_kept:
  assumes "assoc_step lib th s L = Some (pc, s', L')" "associated (upfs (rest_of s)) k"
  shows "associated (upfs (rest_of s')) k"
  using assms(1) by (cases rule: assoc_step_nodes) (use assms(2) in \<open>simp_all add: insert_nodes mark_nodes store_nodes\<close>)

lemma nodes_inv_kept:
  assumes "assoc_step lib th s L = Some (pc, s', L')" "nodes_inv (upfs (rest_of s))"
  shows "nodes_inv (upfs (rest_of s'))"
  using assms(1) by (cases rule: assoc_step_nodes)
    (use assms(2) in \<open>auto simp: PreservePfcpAssociationRsp_def intro: insert_node_inv update_node_inv\<close>)


text \<open>What the invariant asks of the thread that takes a step.\<close>

lemma named_right_mono:
  "named_right nodes th \<Longrightarrow> (\<And>k. associated nodes k \<Longrightarrow> associated nodes' k) \<Longrightarrow> named_right nodes' th"
  unfolding named_right_def by blast

lemma named_right_step:
  assumes "assoc_step lib th s L = Some (pc, s', L')" "nodes_inv (upfs (rest_of s))"
    and "enumerates (upfs_order (as_env th))" "named_right (upfs (rest_of s)) th"
  shows "named_right (upfs (rest_of s')) (th\<lparr>as_pc := pc\<rparr>)"
proof -
  let ?nodes = "upfs (rest_of s)" and ?k = "nodeValue (as_node th)"
  have find: "k = ?k" if "NodeIdType (as_node th) = NodeIdTypeFqdn"
    "GetUpfFromNodeId (upfs_order (as_env th)) (as_node th) ?nodes = Some k" for k
    using that get_upf_fqdn [OF assms(2,3) that(1)] by (auto split: option.splits if_splits)
  have "named_right ?nodes (th\<lparr>as_pc := pc\<rparr>)"
  proof (cases "as_pc th")
    case Checking
    with assms(1) show ?thesis
      by (auto simp: assoc_step_def Let_def named_right_def IsUpfAssociated_def associated_def
          split: option.splits if_splits)
  next
    case Finding
    with assms(1,4) find show ?thesis
      by (auto simp: assoc_step_def Let_def named_right_def split: option.splits)
  next
    case (RLocking k)
    with assms(1,4) show ?thesis by (auto simp: assoc_step_def Let_def named_right_def split: if_splits)
  qed (use assms(1) in \<open>force simp: assoc_step_def Let_def split_beta named_right_def
      split: option.splits outcome.splits if_splits\<close>)+
  then show ?thesis by (rule named_right_mono) (rule associated_kept [OF assms(1)])
qed

lemma storing_soon_update:
  assumes "storing_soon k ths" "i < length ths"
    and "as_pc (ths ! i) \<in> {LockCalling k, LockWaiting k, Storing k} \<Longrightarrow> pc \<in> {LockCalling k, LockWaiting k, Storing k}"
  shows "storing_soon k (ths[i := (ths ! i)\<lparr>as_pc := pc\<rparr>])"
proof -
  obtain j where j: "j < length ths" "as_pc (ths ! j) \<in> {LockCalling k, LockWaiting k, Storing k}"
    using assms(1) unfolding storing_soon_def by (metis in_set_conv_nth)
  let ?ths = "ths[i := (ths ! i)\<lparr>as_pc := pc\<rparr>]"
  have "as_pc (?ths ! j) \<in> {LockCalling k, LockWaiting k, Storing k}"
    using j assms(2,3) by (cases "j = i") simp_all
  moreover have "?ths ! j \<in> set ?ths" using j(1) by (intro nth_mem) simp
  ultimately show ?thesis unfolding storing_soon_def by blast
qed

lemma storing_goes_on:
  assumes "assoc_step lib th s L = Some (pc, s', L')" "as_pc th \<in> {LockCalling k, LockWaiting k}"
  shows "pc \<in> {LockCalling k, LockWaiting k, Storing k}"
  using assms by (auto simp: assoc_step_def Let_def split: if_splits)

lemma window_kept:
  assumes "i < length ths" "assoc_step lib (ths ! i) s L = Some (pc, s', L')"
    and "\<And>k. associated (upfs (rest_of s)) k \<Longrightarrow> stored_for (upfs (rest_of s)) k \<noteq> None \<or> storing_soon k ths"
    and "associated (upfs (rest_of s')) k"
  shows "stored_for (upfs (rest_of s')) k \<noteq> None \<or> storing_soon k (ths[i := (ths ! i)\<lparr>as_pc := pc\<rparr>])"
proof -
  have same: "storing_soon k (ths[i := (ths ! i)\<lparr>as_pc := pc\<rparr>])"
    if "storing_soon k ths" "as_pc (ths ! i) \<noteq> Storing k"
    by (rule storing_soon_update [OF that(1) assms(1)])
      (use that(2) storing_goes_on [OF assms(2), of k] in blast)
  from assms(2) show ?thesis
  proof (cases rule: assoc_step_nodes)
    case Kept
    with assms(3,4) same show ?thesis by (metis (no_types))
  next
    case Inserted
    then show ?thesis using assms(3) [of k] assms(4) same by (auto simp: insert_nodes)
  next
    case (Marked j)
    show ?thesis
    proof (cases "j = k")
      case True
      have "(ths ! i)\<lparr>as_pc := pc\<rparr> \<in> set (ths[i := (ths ! i)\<lparr>as_pc := pc\<rparr>])"
        using assms(1) by (rule set_update_memI)
      with Marked(2) True show ?thesis unfolding storing_soon_def by fastforce
    next
      case False
      with Marked assms(3) [of k] assms(4) same show ?thesis by (auto simp: mark_nodes)
    qed
  next
    case (Stored j)
    show ?thesis
    proof (cases "j = k")
      case True
      have "associated (upfs (rest_of s)) k" using Stored(3) assms(4) by (simp add: store_nodes)
      then have "upfs (rest_of s) k \<noteq> None" by (auto simp: associated_def)
      with Stored(3) True show ?thesis by (simp add: store_nodes)
    next
      case False
      with Stored assms(3) [of k] assms(4) same show ?thesis by (auto simp: store_nodes)
    qed
  qed
qed

lemma assoc_inv_step: "assoc_sys_step lib c c' \<Longrightarrow> assoc_inv c \<Longrightarrow> assoc_inv c'"
proof (induction rule: assoc_sys_step.induct)
  case (asks ths msg e s L n)
  then show ?case
    by (auto simp: assoc_inv_def named_right_def storing_soon_def intro!: lock_inv_more)
next
  case (responds ths e s L msg n)
  have "lock_inv L (ths @ [\<lparr>as_msg = msg, as_node = n, as_env = e, as_pc = response_start lib msg\<rparr>])"
    using responds response_start_cases [of lib msg] by (auto simp: assoc_inv_def intro: lock_inv_more)
  with responds show ?case
    using response_start_cases [of lib msg] by (auto simp: assoc_inv_def named_right_def storing_soon_def)
next
  case (runs ths i s L pc s' L')
  note inv = assoc_invD [OF runs.prems]
  have mem: "ths ! i \<in> set ths" using runs.hyps(2) by simp
  have "enumerates (upfs_order (as_env th)) \<and> named_right (upfs (rest_of s')) th"
    if "th \<in> set (ths[i := (ths ! i)\<lparr>as_pc := pc\<rparr>])" for th
  proof (cases "th = (ths ! i)\<lparr>as_pc := pc\<rparr>")
    case True
    with named_right_step [OF runs.hyps(3) inv(2) inv(3) [OF mem] inv(4) [OF mem]] inv(3) [OF mem] show ?thesis by simp
  next
    case False
    then have "th \<in> set ths" using that set_update_subset_insert by fastforce
    then show ?thesis using inv(3,4) named_right_mono associated_kept [OF runs.hyps(3)] by blast
  qed
  moreover have "stored_for (upfs (rest_of s')) k \<noteq> None \<or> storing_soon k (ths[i := (ths ! i)\<lparr>as_pc := pc\<rparr>])"
    if "associated (upfs (rest_of s')) k" for k
    by (rule window_kept [OF runs.hyps(2,3) _ that]) (use inv(5) in blast)
  ultimately show ?case
    using lock_inv_run [OF inv(1) runs.hyps(2,3)] nodes_inv_kept [OF runs.hyps(3) inv(2)]
    unfolding assoc_inv_def by blast
next
  case (elsewhere ths s' s L)
  then show ?case by (simp add: assoc_inv_def)
qed

interpretation assoc_threads: guarded_steps "assoc_sys_step lib" assoc_inv for lib
  by unfold_locales (rule assoc_inv_step)


lemma assoc_init_inv:
  assumes "nodes_inv (upfs (rest_of s))"
    and "\<forall>k upf. upfs (rest_of s) k = Some upf \<longrightarrow> State upf = AssociatedSetUpSuccess \<longrightarrow> LastAssoRsp upf \<noteq> None"
  shows "assoc_inv (s, \<lambda>_. unlocked, [])"
  using assms by (auto simp: assoc_inv_def lock_inv_def lock_ok_def unlocked_def at_pc_def associated_def stored_for_def)

section \<open>After a panic\<close>

text \<open>
  A thread that panicked while it held the lock of a user plane, and one that waits to store the
  response of that user plane: nothing changes this any more.
\<close>

definition stuck :: "string \<Rightarrow> 'm assoc_sys \<Rightarrow> bool" where
  "stuck k c \<longleftrightarrow>
     (case c of (s, L, ths) \<Rightarrow> lock_inv L ths \<and> 0 < at_pc (Recovered k) ths \<and> 0 < at_pc (LockWaiting k) ths)"

lemma stuck_locks:
  assumes "stuck k (s, L, ths)"
  shows "\<not> can_RLock (L k)" "\<not> can_Lock (L k)" "th \<in> set ths \<Longrightarrow> as_pc th \<noteq> Storing k"
proof -
  have l: "lock_ok (L k) ths k" "0 < at_pc (Recovered k) ths" "0 < at_pc (LockWaiting k) ths"
    using assms by (simp_all add: stuck_def lock_inv_def)
  then show "\<not> can_RLock (L k)" "\<not> can_Lock (L k)"
    by (simp_all add: lock_ok_def can_RLock_def can_Lock_def)
  have "at_pc (Storing k) ths = 0" using l by (auto simp: lock_ok_def split: if_splits)
  then show "th \<in> set ths \<Longrightarrow> as_pc th \<noteq> Storing k" using at_pc_pos [of "Storing k" ths] by auto
qed

definition held_up :: "string \<Rightarrow> 'm assoc_pc \<Rightarrow> bool" where
  "held_up k pc \<longleftrightarrow> pc \<in> {RLocking k, LockWaiting k, Recovered k}"

lemma stuck_thread:
  assumes "stuck k (s, L, ths)" "held_up k (as_pc th)"
  shows "assoc_step lib th s L = None"
  using assms(2) stuck_locks(1,2) [OF assms(1)] by (auto simp: held_up_def assoc_step_def Let_def)

lemma at_pc_kept:
  assumes "length ths \<le> length ths'" "\<And>j. j < length ths \<Longrightarrow> as_pc (ths ! j) = q \<Longrightarrow> as_pc (ths' ! j) = q"
    and "0 < at_pc q ths"
  shows "0 < at_pc q ths'"
proof -
  obtain j where j: "j < length ths" "as_pc (ths ! j) = q" using assms(3) unfolding at_pc_pos by (metis in_set_conv_nth)
  then have "ths' ! j \<in> set ths'" "as_pc (ths' ! j) = q" using assms(1,2) by simp_all
  then show ?thesis unfolding at_pc_pos by blast
qed

lemma stuck_threads:
  assumes "assoc_sys_step lib (s, L, ths) (s', L', ths')" "stuck k (s, L, ths)"
  shows "length ths \<le> length ths'"
    and "j < length ths \<Longrightarrow> held_up k (as_pc (ths ! j)) \<Longrightarrow> as_pc (ths' ! j) = as_pc (ths ! j)"
    and "stored_for (upfs (rest_of s')) k = stored_for (upfs (rest_of s)) k"
proof -
  from assms(1) have "length ths \<le> length ths'
    \<and> (j < length ths \<longrightarrow> held_up k (as_pc (ths ! j)) \<longrightarrow> as_pc (ths' ! j) = as_pc (ths ! j))
    \<and> stored_for (upfs (rest_of s')) k = stored_for (upfs (rest_of s)) k"
  proof (cases rule: assoc_sys_step.cases)
    case (runs i pc)
    have mem: "ths ! i \<in> set ths" using runs by simp
    have step: "assoc_step lib (ths ! i) s L = Some (pc, s', L')" using runs by simp
    then have ne: "\<not> held_up k (as_pc (ths ! i))" using stuck_thread [OF assms(2)] by force
    have "as_pc (ths ! i) \<noteq> Storing k" by (rule stuck_locks(3) [OF assms(2) mem])
    with step have "stored_for (upfs (rest_of s')) k = stored_for (upfs (rest_of s)) k"
      by (cases rule: assoc_step_nodes) (auto simp: insert_nodes mark_nodes store_nodes)
    with runs ne show ?thesis by (auto simp: nth_list_update)
  qed (simp_all add: nth_append)
  then show "length ths \<le> length ths'"
    "j < length ths \<Longrightarrow> held_up k (as_pc (ths ! j)) \<Longrightarrow> as_pc (ths' ! j) = as_pc (ths ! j)"
    "stored_for (upfs (rest_of s')) k = stored_for (upfs (rest_of s)) k" by blast+
qed

lemma stuck_step:
  assumes "assoc_sys_step lib c c'" "stuck k c"
  shows "stuck k c'"
proof -
  obtain s L ths where c: "c = (s, L, ths)" by (cases c)
  obtain s' L' ths' where c': "c' = (s', L', ths')" by (cases c')
  note t = stuck_threads [OF assms [unfolded c c']]
  have "0 < at_pc q ths'" if "held_up k q" "0 < at_pc q ths" for q
    by (rule at_pc_kept [OF t(1) _ that(2)]) (use t(2) that(1) in metis)
  then have "0 < at_pc (Recovered k) ths'" "0 < at_pc (LockWaiting k) ths'"
    using assms(2) c by (simp_all add: stuck_def held_up_def)
  moreover have "lock_inv L' ths'" using lock_inv_step [OF assms(1)] assms(2) c c' by (simp add: stuck_def)
  ultimately show ?thesis by (simp add: c' stuck_def)
qed

lemma stuck_run:
  assumes "(assoc_sys_step lib)\<^sup>*\<^sup>* c (s', L', ths')" "c = (s, L, ths)" "stuck k c"
  shows "stuck k (s', L', ths') \<and> length ths \<le> length ths'
    \<and> (\<forall>j < length ths. held_up k (as_pc (ths ! j)) \<longrightarrow> as_pc (ths' ! j) = as_pc (ths ! j))
    \<and> stored_for (upfs (rest_of s')) k = stored_for (upfs (rest_of s)) k"
  using assms(1)
proof (induction "(s', L', ths')" arbitrary: s' L' ths' rule: rtranclp_induct)
  case base
  with assms(2,3) show ?case by auto
next
  case (step b)
  obtain s1 L1 ths1 where b: "b = (s1, L1, ths1)" by (cases b)
  note IH = step.hyps(3) [OF b] and t = stuck_threads [OF step.hyps(2) [unfolded b]]
  have st: "stuck k (s1, L1, ths1)" using IH by blast
  have "as_pc (ths' ! j) = as_pc (ths ! j)" if "j < length ths" "held_up k (as_pc (ths ! j))" for j
    using t(2) [OF st, of j] IH that by (metis order_less_le_trans)
  then show ?case using IH t(1,3) [OF st] stuck_step [OF step.hyps(2)] b by auto
qed

section \<open>A handler is its steps\<close>

text \<open>What a thread does alone, one part of its handler at a time.\<close>

lemma free_lock [simp]:
  "can_RLock unlocked" "can_Lock unlocked" "can_Lock (unlocked\<lparr>wanting := Suc 0\<rparr>)" "unlocked\<lparr>writing := False\<rparr> = unlocked" "readers unlocked = 0"
  "wanting unlocked = 0" "unlocked\<lparr>readers := 0\<rparr> = unlocked" "unlocked\<lparr>wanting := 0, writing := False\<rparr> = unlocked"
  "unlocked\<lparr>writing := False, wanting := 0\<rparr> = unlocked" "unlocked\<lparr>wanting := 0\<rparr> = unlocked"
  by (simp_all add: unlocked_def can_RLock_def can_Lock_def)

lemma run_alone_ended:
  "run_alone lib m \<lparr>as_msg = msg, as_node = n, as_env = e, as_pc = Replied r\<rparr> s L = (Replied r, s, L)"
  "run_alone lib m \<lparr>as_msg = msg, as_node = n, as_env = e, as_pc = Recovered k\<rparr> s L = (Recovered k, s, L)"
  "run_alone lib m \<lparr>as_msg = msg, as_node = n, as_env = e, as_pc = Handled\<rparr> s L = (Handled, s, L)"
  "run_alone lib m \<lparr>as_msg = msg, as_node = n, as_env = e, as_pc = Crashed\<rparr> s L = (Crashed, s, L)"
  by (cases m; simp add: assoc_step_def Let_def)+

lemma run_alone_copies:
  "run_alone lib (Suc (Suc (Suc m))) \<lparr>as_msg = msg, as_node = n, as_env = e, as_pc = RLocking k\<rparr> s (\<lambda>_. unlocked) =
    (case Option.bind (upfs (rest_of s) k) LastAssoRsp of
       None \<Rightarrow> (Recovered k, s, (\<lambda>_. unlocked)(k := unlocked\<lparr>readers := 1\<rparr>))
     | Some rsp \<Rightarrow>
         (case Marshal lib (answerRetention lib (SetSequenceNumber lib (Sequence lib msg) rsp) msg) of
            None \<Rightarrow> (Replied (Failed (SendFailed ErrMarshal)), s, \<lambda>_. unlocked)
          | Some buf \<Rightarrow> (Replied (Answered buf), s, \<lambda>_. unlocked)))"
  by (simp add: assoc_step_def Let_def run_alone_ended fun_upd_idem split: option.split)

lemma run_alone_registers:
  "run_alone lib (Suc (Suc (Suc m))) \<lparr>as_msg = msg, as_node = n, as_env = e, as_pc = Registering\<rparr> s L =
    (let req = SetNodeID lib (IP_String (adapter_ip e)) (SetRecoveryTimeStamp lib UpfServerStartTime msg);
         (r, t) = registerAndSend lib (own_chan e) (SendPfcpAssociationSetupRequest lib (lookup_host e) n req) req s
     in (Replied r, t, L))"
  by (simp add: assoc_step_def Let_def run_alone_ended registerAndSend_def split_beta split: option.split)

lemma run_alone_asks:
  "run_alone lib (Suc m) \<lparr>as_msg = msg, as_node = n, as_env = e, as_pc = Checking\<rparr> s L =
    run_alone lib m \<lparr>as_msg = msg, as_node = n, as_env = e,
        as_pc = (if IsUpfAssociated n (upfs (rest_of s)) then Finding else Inserting)\<rparr>
      (on_waiters (newTxnChan (own_chan e)) s) L"
  "run_alone lib (Suc m) \<lparr>as_msg = msg, as_node = n, as_env = e, as_pc = Finding\<rparr> s L =
    run_alone lib m \<lparr>as_msg = msg, as_node = n, as_env = e,
        as_pc = (case GetUpfFromNodeId (upfs_order e) n (upfs (rest_of s)) of
            None \<Rightarrow> Replied (Failed (BuildFailed (UpfNotFound (nodeValue n)))) | Some k \<Rightarrow> RLocking k)\<rparr> s L"
  "run_alone lib (Suc m) \<lparr>as_msg = msg, as_node = n, as_env = e, as_pc = Inserting\<rparr> s L =
    (let (cache, nodes) = InsertUpfNode (lookup_host e) n (dnsHostIpCache s) (upfs (rest_of s)) in
     run_alone lib m \<lparr>as_msg = msg, as_node = n, as_env = e,
        as_pc = (if IsA lib MsgTypeAssociationSetupRequest msg then Registering else Replied (Failed InvalidMessage))\<rparr>
      (put_upfs nodes (s\<lparr>dnsHostIpCache := cache\<rparr>)) L)"
  by (simp_all add: assoc_step_def Let_def split_beta)

lemma run_alone_forwards:
  "run_alone lib (Suc (Suc (Suc (Suc (Suc m))))) \<lparr>as_msg = msg, as_node = n, as_env = e, as_pc = Checking\<rparr> s (\<lambda>_. unlocked) =
    (case forwardAssociation lib e msg n (on_waiters (newTxnChan (own_chan e)) s) of
       Done (r, t) \<Rightarrow> (Replied r, t, \<lambda>_. unlocked)
     | _ \<Rightarrow> (let k = the (GetUpfFromNodeId (upfs_order e) n (upfs (rest_of s))) in
              (Recovered k, on_waiters (newTxnChan (own_chan e)) s, (\<lambda>_. unlocked)(k := unlocked\<lparr>readers := 1\<rparr>))))"
  by (simp add: Let_def run_alone_asks run_alone_ended run_alone_copies run_alone_registers forwardAssociation_def
      BuildPfcpAssociationResponse_def put_upfs_def split_beta del: run_alone.simps split: option.split)

lemma run_alone_stores:
  "run_alone lib (Suc (Suc (Suc (Suc m)))) \<lparr>as_msg = msg, as_node = n, as_env = e, as_pc = Marking k\<rparr> s (\<lambda>_. unlocked) =
    run_alone lib m \<lparr>as_msg = msg, as_node = n, as_env = e, as_pc = Delivering\<rparr>
      (put_upfs (PreservePfcpAssociationRsp k msg
         (update_node k (\<lambda>upf. upf\<lparr>State := AssociatedSetUpSuccess\<rparr>) (upfs (rest_of s)))) s) (\<lambda>_. unlocked)"
  by (simp add: assoc_step_def Let_def put_upfs_def fun_upd_idem comp_def)

lemma run_alone_delivers:
  "run_alone lib (Suc m) \<lparr>as_msg = msg, as_node = n, as_env = e, as_pc = Delivering\<rparr> s L =
    (case snd (encodeAndSendRsp lib msg s) of Done t \<Rightarrow> (Handled, t, L) | _ \<Rightarrow> (Delivering, s, L))"
  by (simp add: assoc_step_def Let_def run_alone_ended split: outcome.split)

lemma run_alone_activates:
  "run_alone lib (Suc m) \<lparr>as_msg = msg, as_node = n, as_env = e, as_pc = Activating nodeId\<rparr> s L =
    run_alone lib m \<lparr>as_msg = msg, as_node = n, as_env = e,
        as_pc = (case GetUpfFromNodeId (upfs_order e) nodeId (upfs (rest_of s)) of None \<Rightarrow> Crashed | Some k \<Rightarrow> Marking k)\<rparr> s L"
  by (simp add: assoc_step_def Let_def)

lemma run_alone_responds:
  "run_alone lib (Suc (Suc (Suc (Suc (Suc (Suc m)))))) \<lparr>as_msg = msg, as_node = n, as_env = e, as_pc = response_start lib msg\<rparr>
      s (\<lambda>_. unlocked) = (Handled, t, \<lambda>_. unlocked)
   \<longleftrightarrow> HandlePfcpAssociationSetupResponse lib (upfs_order e) msg s = Done t"
  by (simp add: response_start_def HandlePfcpAssociationSetupResponse_def run_alone_activates run_alone_stores
      run_alone_delivers run_alone_ended ActivateUpfNode_def put_upfs_def Let_def del: run_alone.simps
      split: option.split outcome.split)


section \<open>A run\<close>

text \<open>
  A run, for the witnesses: a response and a request for one host name arrive; the handler of the
  response marks the user plane, that of the request copies before the response is stored and
  panics, and the first then waits for the lock.
\<close>

definition accepted :: plain_msg where
  "accepted = (std_msg MsgTypeAssociationSetupResponse 5)\<lparr>pm_node := ''upf-a''\<rparr>"

definition storing_thread :: "plain_msg assoc_pc \<Rightarrow> plain_msg assoc_thread" where
  "storing_thread pc = \<lparr>as_msg = accepted, as_node = node_a, as_env = std_fwd, as_pc = pc\<rparr>"

definition asking_thread :: "plain_msg assoc_pc \<Rightarrow> plain_msg assoc_thread" where
  "asking_thread pc =
     \<lparr>as_msg = std_msg MsgTypeAssociationSetupRequest 9, as_node = node_a, as_env = std_fwd, as_pc = pc\<rparr>"

definition marked_adapter :: "plain_msg adapter" where
  "marked_adapter = on_waiters (newTxnChan 3) (with_upf None AssociatedSetUpSuccess)"

definition held_lock :: "nat \<Rightarrow> string \<Rightarrow> rwlock" where
  "held_lock w = (\<lambda>_. unlocked)(''upf-a'' := \<lparr>readers = 1, writing = False, wanting = w\<rparr>)"


primrec play :: "'m pfcp_lib \<Rightarrow> nat list \<Rightarrow> 'm assoc_sys \<Rightarrow> 'm assoc_sys option" where
  "play lib [] c = Some c"
| "play lib (i # is) c =
     (case c of (s, L, ths) \<Rightarrow>
        if list_all (\<lambda>th. as_pc th \<noteq> Crashed) ths \<and> i < length ths then
          (case assoc_step lib (ths ! i) s L of
             None \<Rightarrow> None
           | Some (pc, s', L') \<Rightarrow> play lib is (s', L', ths[i := (ths ! i)\<lparr>as_pc := pc\<rparr>]))
        else None)"

lemma play_runs: "play lib is c = Some c' \<Longrightarrow> (assoc_sys_step lib)\<^sup>*\<^sup>* c c'"
proof (induction "is" arbitrary: c)
  case (Cons i "is")
  obtain s L ths where c: "c = (s, L, ths)" by (cases c)
  with Cons.prems obtain pc s' L' where step: "alive ths" "i < length ths"
    "assoc_step lib (ths ! i) s L = Some (pc, s', L')"
    "play lib is (s', L', ths[i := (ths ! i)\<lparr>as_pc := pc\<rparr>]) = Some c'"
    by (auto simp: alive_def list_all_iff split: if_splits option.splits)
  have "assoc_sys_step lib c (s', L', ths[i := (ths ! i)\<lparr>as_pc := pc\<rparr>])"
    unfolding c by (rule assoc_sys_step.runs [OF step(1-3)])
  with Cons.IH [OF step(4)] show ?case by (rule converse_rtranclp_into_rtranclp [rotated])
qed simp

lemma with_upf_nodes:
  "upfs (rest_of (with_upf rsp st)) = [''upf-a'' \<mapsto> \<lparr>UpfName = ''upf-a'', LastAssoRsp = rsp, LastHBRsp = None,
     ANIP = addr_IP upf_a, NodeID_of = node_a, State = st\<rparr>]"
  "nodes_inv (upfs (rest_of (with_upf rsp st)))"
  by (simp add: with_upf_def) (simp add: with_upf_def nodes_inv_def node_a_def nodeValue_def)

lemma threads_start:
  "(assoc_sys_step wire_lib)\<^sup>*\<^sup>* (with_upf None NotAssociated, \<lambda>_. unlocked, [])
     (with_upf None NotAssociated, \<lambda>_. unlocked, [storing_thread (Activating node_a), asking_thread Checking])"
proof -
  have no_ip: "ParseIP ''upf-a'' = None" by code_simp
  have "response_start wire_lib accepted = Activating node_a"
    by (simp add: response_start_def accepted_def std_msg_def wire_lib_def plain_lib_def NewNodeID_def no_ip node_a_def Let_def)
  then have "assoc_sys_step wire_lib (with_upf None NotAssociated, \<lambda>_. unlocked, [])
      (with_upf None NotAssociated, \<lambda>_. unlocked, [] @ [storing_thread (Activating node_a)])"
    using assoc_sys_step.responds [of "[]" std_fwd wire_lib _ _ accepted node_a]
    by (simp add: alive_def std_fwd_def storing_thread_def)
  moreover have "assoc_sys_step wire_lib (with_upf None NotAssociated, \<lambda>_. unlocked, [storing_thread (Activating node_a)])
      (with_upf None NotAssociated, \<lambda>_. unlocked, [storing_thread (Activating node_a)] @ [asking_thread Checking])"
    using assoc_sys_step.asks [of "[storing_thread (Activating node_a)]" wire_lib "std_msg MsgTypeAssociationSetupRequest 9" std_fwd]
    by (simp add: alive_def std_fwd_def storing_thread_def asking_thread_def std_msg_def wire_lib_def plain_lib_def)
  ultimately show ?thesis by simp
qed

lemma upf_found: "GetUpfFromNodeId sorted_list_of_set node_a (upfs (rest_of (with_upf rsp st))) = Some ''upf-a''"
proof -
  have fqdn: "NodeIdType node_a = NodeIdTypeFqdn" "nodeValue node_a = ''upf-a''"
    by (simp_all add: node_a_def nodeValue_def)
  show ?thesis
    using get_upf_fqdn [OF with_upf_nodes(2) enumerates_sorted fqdn(1), of rsp st]
    by (simp add: fqdn with_upf_nodes(1))
qed

lemma window_run:
  "play wire_lib [0, 0, 1, 1, 1]
     (with_upf None NotAssociated, \<lambda>_. unlocked, [storing_thread (Activating node_a), asking_thread Checking])
   = Some (marked_adapter, held_lock 0, [storing_thread (LockCalling ''upf-a''), asking_thread (Copying ''upf-a'')])"
proof -
  have mark: "put_upfs (update_node ''upf-a'' (\<lambda>upf. upf\<lparr>State := AssociatedSetUpSuccess\<rparr>)
      (upfs (rest_of (with_upf None NotAssociated)))) (with_upf None NotAssociated) = with_upf None AssociatedSetUpSuccess"
    by (simp add: put_upfs_def with_upf_def update_node_def comp_def)
  have chan: "upfs (rest_of marked_adapter) = upfs (rest_of (with_upf None AssociatedSetUpSuccess))"
    by (simp add: marked_adapter_def)
  have assoc: "IsUpfAssociated node_a (upfs (rest_of (with_upf None AssociatedSetUpSuccess)))"
    by (simp add: IsUpfAssociated_def with_upf_nodes node_a_def nodeValue_def)
  show ?thesis
    using mark assoc
    by (simp add: storing_thread_def asking_thread_def assoc_step_def Let_def upf_found chan std_fwd_def
        marked_adapter_def [symmetric] held_lock_def)
      (simp add: unlocked_def)
qed


section \<open>Properties\<close>

text \<open>
  Property C9. A user plane that is marked as associated has its response stored, or a thread is
  on its way to store it: whatever associations are asked for and answered at the same time, the
  mark and the response part only for as long as one handler is between the two.
\<close>

theorem associated_means_stored:
  assumes "nodes_inv (upfs (rest_of s0))"
    and "\<forall>k upf. upfs (rest_of s0) k = Some upf \<longrightarrow> State upf = AssociatedSetUpSuccess \<longrightarrow> LastAssoRsp upf \<noteq> None"
    and "(assoc_sys_step lib)\<^sup>*\<^sup>* (s0, \<lambda>_. unlocked, []) (s, L, ths)"
    and "upfs (rest_of s) k = Some upf" "State upf = AssociatedSetUpSuccess"
  shows "LastAssoRsp upf \<noteq> None \<or> (\<exists>th \<in> set ths. as_pc th \<in> {LockCalling k, LockWaiting k, Storing k})"
proof -
  have "assoc_inv (s, L, ths)" by (rule assoc_threads.run_inv [OF assms(3) assoc_init_inv [OF assms(1,2)]])
  from assoc_invD(5) [OF this, of k] assms(4,5) show ?thesis
    by (auto simp: associated_def stored_for_def storing_soon_def)
qed

theorem associated_means_stored_witness:
  "\<exists>upf. upfs (rest_of marked_adapter) ''upf-a'' = Some upf \<and> State upf = AssociatedSetUpSuccess
    \<and> (LastAssoRsp upf \<noteq> None \<or> (\<exists>th \<in> set [storing_thread (LockCalling ''upf-a''), asking_thread (Copying ''upf-a'')].
          as_pc th \<in> {LockCalling ''upf-a'', LockWaiting ''upf-a'', Storing ''upf-a''}))"
proof -
  obtain upf where upf: "upfs (rest_of marked_adapter) ''upf-a'' = Some upf" "State upf = AssociatedSetUpSuccess"
    by (simp add: marked_adapter_def with_upf_nodes)
  from associated_means_stored [OF with_upf_nodes(2) _ rtranclp_trans [OF threads_start play_runs [OF window_run]] upf]
  show ?thesis using upf by (auto simp: with_upf_nodes)
qed

text \<open>
  Property C23. A request for a host name panics only between a mark and the store that follows
  it: when the handler that copies a response finds none, another handler has marked the user
  plane and is about to store it.
\<close>

theorem host_name_panics_in_window:
  assumes "nodes_inv (upfs (rest_of s0))"
    and "\<forall>k upf. upfs (rest_of s0) k = Some upf \<longrightarrow> State upf = AssociatedSetUpSuccess \<longrightarrow> LastAssoRsp upf \<noteq> None"
    and "(assoc_sys_step lib)\<^sup>*\<^sup>* (s0, \<lambda>_. unlocked, []) (s, L, ths)"
    and "th \<in> set ths" "NodeIdType (as_node th) = NodeIdTypeFqdn" "assoc_step lib th s L = Some (Recovered k, s', L')"
  shows "as_pc th = Copying k \<and> k = nodeValue (as_node th)
    \<and> (\<exists>other \<in> set ths. as_pc other \<in> {LockCalling k, LockWaiting k, Storing k})"
proof -
  have inv: "assoc_inv (s, L, ths)" by (rule assoc_threads.run_inv [OF assms(3) assoc_init_inv [OF assms(1,2)]])
  have copy: "as_pc th = Copying k" "stored_for (upfs (rest_of s)) k = None"
    using assms(6) by (cases rule: assoc_step_lock; auto simp: stored_for_def)+
  have "k = nodeValue (as_node th)" "associated (upfs (rest_of s)) k"
    using assoc_invD(4) [OF inv assms(4)] assms(5) copy(1) by (auto simp: named_right_def)
  with copy assoc_invD(5) [OF inv, of k] show ?thesis by (simp add: storing_soon_def)
qed

theorem host_name_panics_in_window_witness:
  "\<exists>s' L'. assoc_step wire_lib (asking_thread (Copying ''upf-a'')) marked_adapter (held_lock 0)
      = Some (Recovered ''upf-a'', s', L')
    \<and> (\<exists>other \<in> set [storing_thread (LockCalling ''upf-a''), asking_thread (Copying ''upf-a'')].
          as_pc other \<in> {LockCalling ''upf-a'', LockWaiting ''upf-a'', Storing ''upf-a''})"
proof -
  have step: "assoc_step wire_lib (asking_thread (Copying ''upf-a'')) marked_adapter (held_lock 0)
      = Some (Recovered ''upf-a'', marked_adapter, held_lock 0)"
    by (simp add: assoc_step_def Let_def asking_thread_def marked_adapter_def with_upf_nodes)
  from host_name_panics_in_window [OF with_upf_nodes(2) _ rtranclp_trans [OF threads_start play_runs [OF window_run]] _ _ step]
  show ?thesis using step by (auto simp: with_upf_nodes asking_thread_def node_a_def)
qed

text \<open>
  A response is never copied while it is being stored, and only one handler stores
  at a time: two handlers that hold the lock of one user plane both copy.
\<close>

lemma response_never_torn:
  assumes "nodes_inv (upfs (rest_of s0))"
    and "\<forall>k upf. upfs (rest_of s0) k = Some upf \<longrightarrow> State upf = AssociatedSetUpSuccess \<longrightarrow> LastAssoRsp upf \<noteq> None"
    and "(assoc_sys_step lib)\<^sup>*\<^sup>* (s0, \<lambda>_. unlocked, []) (s, L, ths)"
    and "i < length ths" "j < length ths" "i \<noteq> j" "as_pc (ths ! i) = Storing k"
  shows "as_pc (ths ! j) \<notin> {Storing k, Copying k}"
proof -
  have "assoc_inv (s, L, ths)" by (rule assoc_threads.run_inv [OF assms(3) assoc_init_inv [OF assms(1,2)]])
  then have ok: "lock_ok (L k) ths k" using assoc_invD(1) by (auto simp: lock_inv_def)
  have st: "0 < at_pc (Storing k) ths" unfolding at_pc_pos using assms(4,7) nth_mem by blast
  have one: "at_pc (Storing k) ths = 1" "readers (L k) = 0"
    using ok st by (auto simp: lock_ok_def split: if_splits)
  have "at_pc (Copying k) ths = 0" using ok one(2) by (simp add: lock_ok_def)
  then have "as_pc (ths ! j) \<noteq> Copying k" using at_pc_pos [of "Copying k" ths] assms(5) by auto
  moreover have "as_pc (ths ! j) \<noteq> Storing k"
  proof -
    let ?ths = "ths[i := (ths ! i)\<lparr>as_pc := Handled\<rparr>]"
    have "at_pc (Storing k) ?ths = 0"
      using at_pc_update [OF assms(4), of "Storing k" "(ths ! i)\<lparr>as_pc := Handled\<rparr>"] assms(7) one(1) by simp
    moreover have "?ths ! j \<in> set ?ths" using assms(5) by (intro nth_mem) simp
    ultimately show ?thesis using assms(6) at_pc_pos [of "Storing k" ?ths] by auto
  qed
  ultimately show ?thesis by simp
qed

text \<open>
  Property C3. A panic in that window is for good. The handler that panicks keeps the lock of the
  user plane for reading; once the handler that stores the response waits for it, no step of
  anything, however long, lets it in: the response is never stored and never delivered, and every
  handler that then asks for the lock waits for ever as well.
\<close>

theorem user_plane_wedged:
  assumes "nodes_inv (upfs (rest_of s0))"
    and "\<forall>k upf. upfs (rest_of s0) k = Some upf \<longrightarrow> State upf = AssociatedSetUpSuccess \<longrightarrow> LastAssoRsp upf \<noteq> None"
    and "(assoc_sys_step lib)\<^sup>*\<^sup>* (s0, \<lambda>_. unlocked, []) (s, L, ths)"
    and "panicked \<in> set ths" "as_pc panicked = Recovered k" "i < length ths" "as_pc (ths ! i) = LockWaiting k"
    and "(assoc_sys_step lib)\<^sup>*\<^sup>* (s, L, ths) (s', L', ths')"
  shows "as_pc (ths' ! i) = LockWaiting k
    \<and> (\<forall>j. j < length ths \<and> as_pc (ths ! j) = RLocking k \<longrightarrow> as_pc (ths' ! j) = RLocking k)
    \<and> Option.bind (upfs (rest_of s') k) LastAssoRsp = Option.bind (upfs (rest_of s) k) LastAssoRsp"
proof -
  have "assoc_inv (s, L, ths)" by (rule assoc_threads.run_inv [OF assms(3) assoc_init_inv [OF assms(1,2)]])
  moreover have "0 < at_pc (Recovered k) ths" "0 < at_pc (LockWaiting k) ths"
    unfolding at_pc_pos using assms(4-7) nth_mem by blast+
  ultimately have "stuck k (s, L, ths)" using assoc_invD(1) by (auto simp: stuck_def)
  from stuck_run [OF assms(8) refl this] show ?thesis
    using assms(6,7) by (auto simp: held_up_def stored_for_def)
qed

theorem user_plane_wedged_witness:
  "\<exists>ths'. (assoc_sys_step wire_lib)\<^sup>*\<^sup>* (with_upf None NotAssociated, \<lambda>_. unlocked, []) (marked_adapter, held_lock 1, ths')
    \<and> length ths' = 3 \<and> as_pc (ths' ! 0) = LockWaiting ''upf-a''
    \<and> Option.bind (upfs (rest_of marked_adapter) ''upf-a'') LastAssoRsp = None"
proof -
  let ?ths = "[storing_thread (LockWaiting ''upf-a''), asking_thread (Recovered ''upf-a'')]"
  have "play wire_lib [1, 0] (marked_adapter, held_lock 0, [storing_thread (LockCalling ''upf-a''), asking_thread (Copying ''upf-a'')])
      = Some (marked_adapter, held_lock 1, ?ths)"
    by (simp add: storing_thread_def asking_thread_def assoc_step_def Let_def marked_adapter_def with_upf_nodes held_lock_def)
  then have run: "(assoc_sys_step wire_lib)\<^sup>*\<^sup>* (with_upf None NotAssociated, \<lambda>_. unlocked, []) (marked_adapter, held_lock 1, ?ths)"
    using rtranclp_trans [OF rtranclp_trans [OF threads_start play_runs [OF window_run]] play_runs] by blast
  have "assoc_sys_step wire_lib (marked_adapter, held_lock 1, ?ths) (marked_adapter, held_lock 1, ?ths @ [asking_thread Checking])"
    unfolding asking_thread_def
    by (rule assoc_sys_step.asks)
      (simp_all add: alive_def std_fwd_def storing_thread_def std_msg_def wire_lib_def plain_lib_def)
  then have more: "(assoc_sys_step wire_lib)\<^sup>*\<^sup>* (marked_adapter, held_lock 1, ?ths)
      (marked_adapter, held_lock 1, ?ths @ [asking_thread Checking])" by (rule r_into_rtranclp)
  from user_plane_wedged [OF with_upf_nodes(2) _ run, of "asking_thread (Recovered ''upf-a'')" "''upf-a''" 0, OF _ _ _ _ _ more]
  have "as_pc ((?ths @ [asking_thread Checking]) ! 0) = LockWaiting ''upf-a''"
    by (simp add: with_upf_nodes storing_thread_def asking_thread_def)
  then show ?thesis using rtranclp_trans [OF run more]
    by (intro exI [of _ "?ths @ [asking_thread Checking]"]) (simp add: marked_adapter_def with_upf_nodes)
qed

text \<open>
  The two handlers are their steps: alone and with the locks free, a thread ends
  with a reply in a state exactly when its handler, run in one piece, ends with that reply in that
  state, and the locks are free again.
\<close>

lemma association_is_its_steps:
  assumes "MessageType lib msg = MsgTypeAssociationSetupRequest"
  shows "(ForwardPfcpMsgToUpf lib e msg n s = Done (r, s')
      \<longleftrightarrow> run_alone lib 5 \<lparr>as_msg = msg, as_node = n, as_env = e, as_pc = Checking\<rparr> s (\<lambda>_. unlocked)
          = (Replied r, s', \<lambda>_. unlocked))
    \<and> (HandlePfcpAssociationSetupResponse lib (upfs_order e) rsp s = Done s'
      \<longleftrightarrow> run_alone lib 6 \<lparr>as_msg = rsp, as_node = n, as_env = e, as_pc = response_start lib rsp\<rparr> s (\<lambda>_. unlocked)
          = (Handled, s', \<lambda>_. unlocked))"
proof
  have fwd: "ForwardPfcpMsgToUpf lib e msg n s = forwardAssociation lib e msg n (on_waiters (newTxnChan (own_chan e)) s)"
    using assms by (simp add: ForwardPfcpMsgToUpf_def Let_def)
  have five: "(5 :: nat) = Suc (Suc (Suc (Suc (Suc 0))))" by simp
  show "ForwardPfcpMsgToUpf lib e msg n s = Done (r, s')
      \<longleftrightarrow> run_alone lib 5 \<lparr>as_msg = msg, as_node = n, as_env = e, as_pc = Checking\<rparr> s (\<lambda>_. unlocked)
          = (Replied r, s', \<lambda>_. unlocked)"
    unfolding fwd five run_alone_forwards by (auto simp: Let_def split: outcome.split)
  have six: "(6 :: nat) = Suc (Suc (Suc (Suc (Suc (Suc 0)))))" by simp
  show "HandlePfcpAssociationSetupResponse lib (upfs_order e) rsp s = Done s'
      \<longleftrightarrow> run_alone lib 6 \<lparr>as_msg = rsp, as_node = n, as_env = e, as_pc = response_start lib rsp\<rparr> s (\<lambda>_. unlocked)
          = (Handled, s', \<lambda>_. unlocked)"
    unfolding six run_alone_responds by (rule refl)
qed

end
