(* ===== verification/Adapter_System.thy ===== *)
theory Adapter_System
  imports Forward_Properties
begin

text \<open>
  The adapter as one machine: its events are what reaches it from the user planes, the SMF and the
  clock, and each runs a handler of \<open>Handler\<close> or \<open>Forward\<close> on the whole state. The machine
  is a \<open>guarded_machine\<close> whose invariant says that every table is consistent with the others.
\<close>

section \<open>Events\<close>

text \<open>
  What happens to the adapter, in the order it happens: the socket is opened, the reader takes
  something off it, a message is dispatched, a message of the SMF arrives, a transaction ends and
  its error handler runs, and a waiting request takes its reply. A goroutine that blocks for good
  ends the run, and so does a panic. The panic of a dispatched handler ends the process;
  \<^verbatim>\<open>net/http\<close> recovers that of an HTTP handler, which leaves the lock of a user plane
  held, and \<open>Association_Threads\<close> follows what comes of that.
\<close>

datatype 'm adapter_event =
    Listens UDPAddr "UDPConn option"
  | Reads read_input
  | FromUpf report_env "string order" time 'm "UDPAddr option"
  | FromSmf "u8 list \<Rightarrow> UdpPodPfcpMsg option" http_env http_request
  | TxEnds tx_ref Transaction "udp_error option" time
  | Replies PfcpTxnChan

fun adapter_step :: "'m pfcp_lib \<Rightarrow> 'm adapter_event \<Rightarrow> 'm adapter \<Rightarrow> 'm adapter outcome" where
  "adapter_step lib (Listens addr conn) s = Done (addr_state.more_update (Run_listen addr conn) s)"
| "adapter_step lib (Reads input) s = Done (snd (on_rest (readPfcpMessage lib input) s))"
| "adapter_step lib (FromUpf e ord now msg peer) s = Dispatch lib e ord now msg peer s"
| "adapter_step lib (FromSmf decode e req) s =
     (case http_handler lib decode e req s of
        Done (_, s) \<Rightarrow> Done s | Blocked \<Rightarrow> Blocked | Panicked \<Rightarrow> Panicked)"
| "adapter_step lib (TxEnds x tx err now) s =
     (let (call, s) = on_rest (startTxLifeCycle lib x tx err) s in runErrHandler lib now call s)"
| "adapter_step lib (Replies c) s = Done (case finish_reply c s of None \<Rightarrow> s | Some (_, s) \<Rightarrow> s)"

fun adapter_exec :: "'m pfcp_lib \<Rightarrow> 'm adapter_event \<Rightarrow> 'm adapter outcome \<Rightarrow> 'm adapter outcome" where
  "adapter_exec lib ev (Done s) = adapter_step lib ev s"
| "adapter_exec lib ev Blocked = Blocked"
| "adapter_exec lib ev Panicked = Panicked"

text \<open>
  The runtime orders its loops legally, and a channel that a handler makes is a new one.
\<close>

fun adapter_legal :: "'m adapter_event \<Rightarrow> 'm adapter outcome \<Rightarrow> bool" where
  "adapter_legal (FromUpf e _ _ _ _) _ = legal_orders (claim_orders e)"
| "adapter_legal (FromSmf _ e _) out =
     (legal_env (release e) \<and> enumerates (consumers_order e)
      \<and> (\<forall>s. out = Done s \<longrightarrow> chans (waiters (rest_of s)) (own_chan e) = None))"
| "adapter_legal _ _ = True"

lemma listen_inv: "adapter_inv s \<Longrightarrow> adapter_inv (addr_state.more_update (Run_listen addr conn) s)"
  by (auto simp: adapter_inv_def addr_inv_def Run_listen_def tx_inv_def split: option.split)

lemma read_inv: "adapter_inv s \<Longrightarrow> adapter_inv (snd (on_rest (readPfcpMessage lib input) s))"
proof -
  have n: "upfs (notify x ev w) = upfs w" "waiters (notify x ev w) = waiters w" "tx_inv (notify x ev w) = tx_inv w"
    for x ev and w :: "'a rest" by (simp_all add: notify_def)
  show "adapter_inv s \<Longrightarrow> ?thesis"
    by (simp add: adapter_inv_def readPfcpMessage_def n split: option.split read_input.split sum.split)
qed

lemma tx_end_inv:
  assumes "adapter_inv s"
  shows "adapter_inv (snd (on_rest (startTxLifeCycle lib x tx err) s))"
proof -
  have w: "snd (startTxLifeCycle lib x tx err w) = snd (removeTransaction x tx w)" for w :: "'a rest"
    by (simp add: startTxLifeCycle_def split_beta split: option.split)
  have m: "tx_state.more (snd (removeTransaction x tx w)) = tx_state.more w" for w :: "'a rest"
    by (rule removeTransaction_frame(2))
  have t: "tx_inv w \<Longrightarrow> tx_inv (snd (removeTransaction x tx w))" for w :: "'a rest"
    by (rule remove_keeps_inv)
  show ?thesis using assms t rest_fields [OF m] by (simp add: adapter_inv_def w)
qed

lemma err_handler_fine: "adapter_inv s \<Longrightarrow> fine (runErrHandler lib now call s)"
  by (simp add: runErrHandler_def send_error_fine give_up_inv split: option.split err_handler.split)

lemma reply_inv: "adapter_inv s \<Longrightarrow> adapter_inv (case finish_reply c s of None \<Rightarrow> s | Some (_, s) \<Rightarrow> s)"
  using receive_inv [of "waiters (rest_of s)" c]
  by (auto simp: finish_reply_def adapter_inv_def split: option.splits)

interpretation adapter: guarded_machine "adapter_exec lib" fine adapter_legal
proof
  fix out :: "'a adapter outcome" and ev
  assume f: "fine out" and legal: "adapter_legal ev out"
  show "fine (adapter_exec lib ev out)"
  proof (cases out)
    case (Done s)
    with f have inv: "adapter_inv s" by simp
    show ?thesis
    proof (cases ev)
      case (FromUpf e ord now msg peer)
      with Done inv legal show ?thesis by (simp add: dispatch_fine)
    next
      case (FromSmf decode e req)
      with Done inv legal show ?thesis
        using http_fine [of s e lib decode req] by (auto split: outcome.split prod.split)
    next
      case (TxEnds x tx err now)
      with Done show ?thesis using err_handler_fine [OF tx_end_inv [OF inv]] by (simp add: split_beta)
    qed (use Done inv in \<open>simp_all add: listen_inv read_inv reply_inv\<close>)
  qed (use f in simp_all)
qed

definition adapter_init :: "'m adapter" where
  "adapter_init = addr_state.extend addr_init (tx_state.extend
     \<lparr>Server = None, consumers = Map.empty, tables = Map.empty, transactions = Map.empty, next_ref = 0, spawned = []\<rparr>
     \<lparr>upfs = Map.empty, waiters = \<lparr>UpfTxns = Map.empty, chans = Map.empty\<rparr>\<rparr>)"

lemma adapter_init_inv: "adapter_inv adapter_init"
  using addr_init_inv
  by (simp add: adapter_inv_def adapter_init_def addr_state.defs tx_state.defs addr_inv_def relay_inv_def
      nodes_inv_empty txn_inv_def tx_inv_def)

end
