(* ===== verification/Process.thy ===== *)
theory Process
  imports Adapter_System
begin

text \<open>
  The process (\<^verbatim>\<open>upfadapter.go\<close>, the end of \<^verbatim>\<open>pfcp/udp/udp.go\<close>,
  \<^verbatim>\<open>SetLogLevel\<close> of \<^verbatim>\<open>logger/logger.go\<close>, and the ticker of
  \<^verbatim>\<open>types/nodeid.go\<close>): how its goroutines start, what they wait for, and how they stop.
  Each long-lived goroutine has a place it has reached; what the adapter does in between are the
  events of \<open>Adapter_System\<close>. A channel that is closed when its goroutine returns is
  the place of that goroutine.
\<close>

section \<open>The log level\<close>

text \<open>
  A level of \<^verbatim>\<open>zapcore\<close> is a signed octet; which names parse to which is an argument.
\<close>

type_synonym Level = "8 word"

definition SetLogLevel :: "Level \<Rightarrow> Level \<Rightarrow> Level" where
  "SetLogLevel level atomicLevel = level"

definition configuredLevel :: "(string \<Rightarrow> Level option) \<Rightarrow> string \<Rightarrow> Level \<Rightarrow> Level" where
  "configuredLevel ParseLevel lvl atomicLevel =
     (if lvl \<noteq> [] then
        (case ParseLevel lvl of
           None \<Rightarrow> atomicLevel
         | Some level \<Rightarrow> SetLogLevel level atomicLevel)
      else atomicLevel)"

section \<open>Goroutines\<close>

text \<open>
  The places of \<^verbatim>\<open>main\<close> (with \<^verbatim>\<open>serve\<close>, which it calls), of
  \<^verbatim>\<open>udp.Run\<close> (with the \<^verbatim>\<open>serve\<close> of its package), of the read loop, and of
  the goroutine of \<^verbatim>\<open>ListenAndServe\<close>. \<^verbatim>\<open>main\<close> exits having waited for
  the PFCP socket, or at once when the HTTP server fails.
\<close>

datatype main_pc =
    Starts
  | Launches
  | Serves
  | Selects
  | ShutsDown time
  | AwaitsPfcp
  | Terminated
  | ServeFailed
  | Killed

datatype run_pc = NotRunning | Opening | AwaitsCancel | AwaitsLoop | RunReturned

datatype loop_pc = NoLoop | LoopReading | LoopDone

datatype listener_pc = NoListener | Binding | Accepting | ListenerReturned

datatype serve_error = ListenError | AcceptError | ServerClosed

record process_env =
  log_var :: string
  ParseLevel :: "string \<Rightarrow> Level option"
  pod_ip :: string

record 'm process =
  main_at :: main_pc
  run_at :: run_pc
  loop_at :: loop_pc
  listener_at :: listener_pc
  serveErr :: "serve_error option"
  cancelled :: bool
  conn_open :: bool
  stopping :: bool
  requests :: "http_request list"
  replying :: "PfcpTxnChan list"
  handling :: "('m \<times> UDPAddr) list"
  atomicLevel :: Level
  clock :: time
  started :: time
  refreshes :: nat
  world :: "'m adapter"

definition shutdownTimeout :: time where "shutdownTimeout = secs 5"

definition refreshPeriod :: time where "refreshPeriod = secs 60"

definition exited :: "'m process \<Rightarrow> bool" where
  "exited p \<longleftrightarrow> main_at p = Terminated \<or> main_at p = ServeFailed \<or> main_at p = Killed"

section \<open>Steps of the long-lived goroutines\<close>

text \<open>
  \<^verbatim>\<open>Shutdown\<close> returns when no request is in flight, or with the error of its context when
  that has expired; \<^verbatim>\<open>ListenAndServe\<close> returns as soon as \<^verbatim>\<open>Shutdown\<close> is
  called. A read on a closed socket fails with \<^verbatim>\<open>net.ErrClosed\<close>.
\<close>

inductive control_step :: "'m pfcp_lib \<Rightarrow> process_env \<Rightarrow> 'm process \<Rightarrow> 'm process \<Rightarrow> bool" for lib env where
  starts: "main_at p = Starts
    \<Longrightarrow> control_step lib env p (p\<lparr>main_at := Launches,
          atomicLevel := configuredLevel (ParseLevel env) (log_var env) (atomicLevel p)\<rparr>)"
| launches: "main_at p = Launches
    \<Longrightarrow> control_step lib env p (p\<lparr>main_at := Serves, run_at := Opening\<rparr>)"
| serves: "main_at p = Serves \<Longrightarrow> control_step lib env p (p\<lparr>main_at := Selects, listener_at := Binding\<rparr>)"
| serve_fails: "main_at p = Selects \<Longrightarrow> serveErr p = Some err
    \<Longrightarrow> control_step lib env p (p\<lparr>main_at := ServeFailed\<rparr>)"
| shuts_down: "main_at p = Selects \<Longrightarrow> cancelled p
    \<Longrightarrow> control_step lib env p (p\<lparr>main_at := ShutsDown (clock p + shutdownTimeout), stopping := True\<rparr>)"
| shut_down: "main_at p = ShutsDown d \<Longrightarrow> requests p = [] \<Longrightarrow> replying p = []
    \<Longrightarrow> control_step lib env p (p\<lparr>main_at := AwaitsPfcp\<rparr>)"
| shutdown_expires: "main_at p = ShutsDown d \<Longrightarrow> d \<le> clock p
    \<Longrightarrow> control_step lib env p (p\<lparr>main_at := AwaitsPfcp\<rparr>)"
| terminates: "main_at p = AwaitsPfcp \<Longrightarrow> run_at p = RunReturned
    \<Longrightarrow> control_step lib env p (p\<lparr>main_at := Terminated\<rparr>)"
| opens: "\<not> exited p \<Longrightarrow> run_at p = Opening
    \<Longrightarrow> control_step lib env p (p\<lparr>run_at := AwaitsCancel, loop_at := LoopReading, conn_open := True,
          world := addr_state.more_update
            (Run_listen (listenAddr L (pod_ip env) (dnsHostIpCache (world p))) (Some conn)) (world p)\<rparr>)"
| open_fails: "\<not> exited p \<Longrightarrow> run_at p = Opening \<Longrightarrow> control_step lib env p (p\<lparr>run_at := RunReturned\<rparr>)"
| closes: "\<not> exited p \<Longrightarrow> run_at p = AwaitsCancel \<Longrightarrow> cancelled p
    \<Longrightarrow> control_step lib env p (p\<lparr>run_at := AwaitsLoop, conn_open := False\<rparr>)"
| loop_stops: "\<not> exited p \<Longrightarrow> loop_at p = LoopReading \<Longrightarrow> \<not> conn_open p
    \<Longrightarrow> on_rest (readPfcpMessage lib (ReadError ErrClosed)) (world p) = ((m, Some ErrClosed), s)
    \<Longrightarrow> control_step lib env p (p\<lparr>loop_at := LoopDone, world := s\<rparr>)"
| run_returns: "\<not> exited p \<Longrightarrow> run_at p = AwaitsLoop \<Longrightarrow> loop_at p = LoopDone
    \<Longrightarrow> control_step lib env p (p\<lparr>run_at := RunReturned\<rparr>)"
| binds: "\<not> exited p \<Longrightarrow> listener_at p = Binding \<Longrightarrow> \<not> stopping p
    \<Longrightarrow> control_step lib env p (p\<lparr>listener_at := Accepting\<rparr>)"
| bind_fails: "\<not> exited p \<Longrightarrow> listener_at p = Binding
    \<Longrightarrow> control_step lib env p (p\<lparr>listener_at := ListenerReturned, serveErr := Some ListenError\<rparr>)"
| accept_fails: "\<not> exited p \<Longrightarrow> listener_at p = Accepting
    \<Longrightarrow> control_step lib env p (p\<lparr>listener_at := ListenerReturned, serveErr := Some AcceptError\<rparr>)"
| server_closed: "\<not> exited p \<Longrightarrow> listener_at p = Binding \<or> listener_at p = Accepting \<Longrightarrow> stopping p
    \<Longrightarrow> control_step lib env p (p\<lparr>listener_at := ListenerReturned, serveErr := Some ServerClosed\<rparr>)"

inductive_cases control_stepE: "control_step lib env p q"

section \<open>What happens besides\<close>

text \<open>The place a list loses its entry at.\<close>

definition drop_at :: "nat \<Rightarrow> 'a list \<Rightarrow> 'a list" where
  "drop_at i xs = take i xs @ drop (Suc i) xs"

definition waits_on :: "http_reply list \<Rightarrow> PfcpTxnChan list" where
  "waits_on rs = List.map_filter (\<lambda>r. case r of Pending c \<Rightarrow> Some c | _ \<Rightarrow> None) rs"

text \<open>What a request whose handler panics has done: its sender and its user plane are recorded.\<close>

definition recorded_by ::
  "(u8 list \<Rightarrow> UdpPodPfcpMsg option) \<Rightarrow> http_env \<Rightarrow> http_request \<Rightarrow> 'm adapter \<Rightarrow> 'm adapter" where
  "recorded_by decode e req s =
     (case decode (req_body req) of
        None \<Rightarrow> s
      | Some m \<Rightarrow> RecordUpfAddr (lookup_host e) (release e) (release_hook (consumers_order e)) (named_at e)
          (UpNodeID m) (SetSmfAddr (SmfIp m) s))"

text \<open>
  The goroutine of the name cache, at a tick of its ticker: the ticker fires once a minute, and
  drops ticks that find the goroutine busy, so the refreshes are at most one for each minute.
\<close>

definition tickRefresh ::
  "(string \<Rightarrow> dns_answer) \<Rightarrow> string order \<Rightarrow> 'm process \<Rightarrow> 'm process option" where
  "tickRefresh LookupHost ord p =
     (if clock p < started p + int (Suc (refreshes p)) * refreshPeriod then None
      else Some (p\<lparr>refreshes := Suc (refreshes p),
        world := (world p)\<lparr>dnsHostIpCache :=
          RefreshDnsHostIpCache LookupHost ord (dnsHostIpCache (world p))\<rparr>\<rparr>))"

text \<open>The address the server listens on, which is where responses are looked up.\<close>

definition socket_addr :: "'m adapter \<Rightarrow> UDPAddr option" where
  "socket_addr s = map_option Addr (Server (rest_of s))"

text \<open>
  A signal kills the process before \<^verbatim>\<open>main\<close> has asked for it, and cancels the context
  after that; time passes; a request is accepted, given up by its client, or handled; the reader
  takes something off the open socket and dispatches it; a dispatched message is handled; a
  transaction ends; a waiting handler takes its reply; the names are resolved again, once a minute
  at most. A response that is being looked up while its transaction ends can find it gone half way,
  and the panic of the read loop ends the process (\<open>Tx_Threads\<close> has the steps).
\<close>

inductive work_step :: "'m pfcp_lib \<Rightarrow> 'm process \<Rightarrow> 'm process \<Rightarrow> bool" for lib where
  killed: "main_at p = Starts \<Longrightarrow> work_step lib p (p\<lparr>main_at := Killed\<rparr>)"
| signal: "\<not> exited p \<Longrightarrow> main_at p \<noteq> Starts \<Longrightarrow> work_step lib p (p\<lparr>cancelled := True\<rparr>)"
| passes: "\<not> exited p \<Longrightarrow> 0 \<le> d \<Longrightarrow> work_step lib p (p\<lparr>clock := clock p + d\<rparr>)"
| accepts: "\<not> exited p \<Longrightarrow> listener_at p = Accepting \<Longrightarrow> \<not> stopping p
    \<Longrightarrow> work_step lib p (p\<lparr>requests := requests p @ [req]\<rparr>)"
| aborts: "\<not> exited p \<Longrightarrow> i < length (requests p) \<Longrightarrow> work_step lib p (p\<lparr>requests := drop_at i (requests p)\<rparr>)"
| forwards: "\<not> exited p \<Longrightarrow> i < length (requests p) \<Longrightarrow> adapter_legal (FromSmf decode e (requests p ! i)) (Done (world p))
    \<Longrightarrow> http_handler lib decode e (requests p ! i) (world p) = Done (rs, s)
    \<Longrightarrow> work_step lib p (p\<lparr>requests := drop_at i (requests p), replying := replying p @ waits_on rs, world := s\<rparr>)"
| forward_panics: "\<not> exited p \<Longrightarrow> i < length (requests p)
    \<Longrightarrow> adapter_legal (FromSmf decode e (requests p ! i)) (Done (world p))
    \<Longrightarrow> http_handler lib decode e (requests p ! i) (world p) = Panicked
    \<Longrightarrow> work_step lib p (p\<lparr>requests := drop_at i (requests p), world := recorded_by decode e (requests p ! i) (world p)\<rparr>)"
| replies: "\<not> exited p \<Longrightarrow> i < length (replying p) \<Longrightarrow> finish_reply (replying p ! i) (world p) = Some (r, s)
    \<Longrightarrow> work_step lib p (p\<lparr>replying := drop_at i (replying p), world := s\<rparr>)"
| reads: "\<not> exited p \<Longrightarrow> loop_at p = LoopReading \<Longrightarrow> conn_open p \<Longrightarrow> input \<noteq> ReadError ErrClosed
    \<Longrightarrow> on_rest (readPfcpMessage lib input) (world p) = ((m, err), s)
    \<Longrightarrow> work_step lib p (p\<lparr>handling := handling p
          @ (case err of None \<Rightarrow> (case m of Some ma \<Rightarrow> [ma] | None \<Rightarrow> []) | Some _ \<Rightarrow> []), world := s\<rparr>)"
| handles: "\<not> exited p \<Longrightarrow> i < length (handling p) \<Longrightarrow> handling p ! i = (msg, addr) \<Longrightarrow> legal_orders (claim_orders e)
    \<Longrightarrow> Dispatch lib e ord now msg (Some addr) (world p) = Done s
    \<Longrightarrow> work_step lib p (p\<lparr>handling := drop_at i (handling p), world := s\<rparr>)"
| crashes: "\<not> exited p \<Longrightarrow> i < length (handling p) \<Longrightarrow> handling p ! i = (msg, addr) \<Longrightarrow> legal_orders (claim_orders e)
    \<Longrightarrow> Dispatch lib e ord now msg (Some addr) (world p) = Panicked \<Longrightarrow> work_step lib p (p\<lparr>main_at := Killed\<rparr>)"
| tx_ends: "\<not> exited p \<Longrightarrow> adapter_step lib (TxEnds x tx err now) (world p) = Done s \<Longrightarrow> work_step lib p (p\<lparr>world := s\<rparr>)"
| overtaken: "\<not> exited p \<Longrightarrow> loop_at p = LoopReading \<Longrightarrow> conn_open p
    \<Longrightarrow> Parse lib (take PFCP_MAX_UDP_LEN bytes) = Some msg \<Longrightarrow> IsResponse lib msg
    \<Longrightarrow> socket_addr (world p) = Some addr
    \<Longrightarrow> held (rest_of (world p)) (UDPAddr_String addr, Sequence lib msg) = Some x
    \<Longrightarrow> adapter_step lib (TxEnds x tx err now) (world p) = Done s
    \<Longrightarrow> held (rest_of s) (UDPAddr_String addr, Sequence lib msg) = None
    \<Longrightarrow> work_step lib p (p\<lparr>main_at := Killed, world := s\<rparr>)"
| refreshes: "\<not> exited p \<Longrightarrow> enumerates ord \<Longrightarrow> tickRefresh L ord p = Some q \<Longrightarrow> work_step lib p q"

inductive_cases work_stepE: "work_step lib p q"

text \<open>A run, with the number of steps its long-lived goroutines take.\<close>

inductive process_run :: "'m pfcp_lib \<Rightarrow> process_env \<Rightarrow> nat \<Rightarrow> 'm process \<Rightarrow> 'm process \<Rightarrow> bool" for lib env where
  here: "process_run lib env 0 p p"
| control: "process_run lib env n p q \<Longrightarrow> control_step lib env q r \<Longrightarrow> process_run lib env (Suc n) p r"
| work: "process_run lib env n p q \<Longrightarrow> work_step lib q r \<Longrightarrow> process_run lib env n p r"

definition process_init :: "Level \<Rightarrow> time \<Rightarrow> 'm process" where
  "process_init InfoLevel t0 =
     \<lparr>main_at = Starts, run_at = NotRunning, loop_at = NoLoop, listener_at = NoListener, serveErr = None,
      cancelled = False, conn_open = False, stopping = False, requests = [], replying = [], handling = [],
      atomicLevel = InfoLevel, clock = t0, started = t0, refreshes = 0, world = adapter_init\<rparr>"

definition reachable :: "'m pfcp_lib \<Rightarrow> process_env \<Rightarrow> 'm process \<Rightarrow> bool" where
  "reachable lib env p \<longleftrightarrow> (\<exists>InfoLevel t0 n. process_run lib env n (process_init InfoLevel t0) p)"

end
