(* ===== verification/Process_Properties.thy ===== *)
theory Process_Properties
  imports Process
begin

text \<open>
  What holds of the process: the socket the adapter sends and reads on stays the one that
  \<^verbatim>\<open>udp.Run\<close> opened, the tables are consistent whenever no handler is at work, a
  clean exit is the last thing that happens, and shutting down takes a bounded number of steps and
  of seconds.
\<close>

section \<open>The socket stays\<close>

abbreviation socket :: "'m adapter \<Rightarrow> PfcpServer option" where
  "socket s \<equiv> Server (rest_of s)"

lemma send_socket [simp]: "socket (snd (on_rest (SendPfcp lib msg addr ev) s)) = socket s"
  by (simp add: SendPfcp_Server)

lemma reject_socket [simp]: "socket (snd (rejectSessionReport lib seid seq addr s)) = socket s"
  by (simp add: rejectSessionReport_def SendPfcp_Server)

lemma refuse_socket [simp]: "socket (refuseAndRelease lib seid seq addr k s) = socket s"
  by (simp add: refuseAndRelease_def relay_op_rest split_beta)

lemma relay_op_socket [simp]:
  "socket (ForgetReportRelay k s) = socket s" "socket (snd (RenumberReportRelay k s)) = socket s"
  "socket (snd (TakeReportRelay k now s)) = socket s" "socket (snd (RelayReportSequence it addr seq now gen s)) = socket s"
  by (simp_all add: relay_op_rest)

lemma relay_loop_socket: "socket s = c \<Longrightarrow> socket (relaySendLoop n lib report smf seid seq addr k s) = c"
proof (induction n arbitrary: report k s)
  case (Suc n)
  let ?s = "snd (on_rest (SendPfcp lib (SetSequenceNumber lib k report) smf
      (Some \<lparr>ErrHandler = RelayGiveUpHandler seid, LSEID = 0\<rparr>)) s)"
  have sent: "socket ?s = c" using Suc.prems by (simp only: send_socket)
  then have "socket (snd (RenumberReportRelay k ?s)) = c" by (simp only: relay_op_socket)
  with sent show ?case
    by (auto simp: split_beta Let_def Suc.IH
        split: option.split udp_error.split sum.split relay_error.split prod.split)
qed simp

lemma report_request_socket: "socket (HandlePfcpSessionReportRequest lib e msg peer s) = socket s"
  by (auto simp: HandlePfcpSessionReportRequest_def Let_def split_beta
      intro: relay_loop_socket split: option.split sum.split relay_error.split)

lemma report_response_socket: "socket (HandlePfcpSessionReportResponse lib now msg s) = socket s"
  by (auto simp: HandlePfcpSessionReportResponse_def Let_def split_beta SendPfcp_Server split: option.split)

lemma give_up_socket: "socket (relayGiveUp lib seid now sent s) = socket s"
  by (auto simp: relayGiveUp_def split_beta split: option.split)

lemma waiter_socket: "snd (send_to_waiter seq rsp s) = Done t \<Longrightarrow> socket t = socket s"
  by (auto simp: send_to_waiter_def split: prod.splits option.splits)

lemma encode_socket: "snd (encodeAndSendRsp lib msg s) = Done t \<Longrightarrow> socket t = socket s"
proof -
  have "snd (encodeAndSendRsp lib msg s) =
    (case Marshal lib msg of None \<Rightarrow> Done s
     | Some buf \<Rightarrow> snd (send_to_waiter (Sequence lib msg) \<lparr>Err = None, Rsp = Some buf\<rparr> s))"
    by (auto simp: encodeAndSendRsp_def split: option.split prod.split bool.split)
  then show "snd (encodeAndSendRsp lib msg s) = Done t \<Longrightarrow> ?thesis"
    by (auto dest: waiter_socket split: option.splits)
qed

lemma send_error_socket: "HandlePfcpSendError lib msg err s = Done t \<Longrightarrow> socket t = socket s"
  by (auto simp: HandlePfcpSendError_def handleSendPfcpAssoSetReqError_def handleSendPfcpHeartbeatReqError_def
      handleSendPfcpSessEstReqError_def handleSendPfcpSessModReqError_def handleSendPfcpSessRelReqError_def sendErrRsp_def
      dest: waiter_socket split: msg_type.splits)

lemma association_socket: "HandlePfcpAssociationSetupResponse lib ord msg s = Done t \<Longrightarrow> socket t = socket s"
  by (auto simp: HandlePfcpAssociationSetupResponse_def Let_def dest!: encode_socket
      split: if_splits option.splits prod.splits)

lemma dispatch_socket: "Dispatch lib e ord now msg peer s = Done t \<Longrightarrow> socket t = socket s"
  by (auto simp: Dispatch_def HandlePfcpHeartbeatResponse_def HandlePfcpSessionEstablishmentResponse_def
      HandlePfcpSessionModificationResponse_def HandlePfcpSessionDeletionResponse_def report_request_socket
      report_response_socket dest: encode_socket association_socket split: msg_type.splits if_splits)

lemma tx_end_socket: "adapter_step lib (TxEnds x tx err now) s = Done t \<Longrightarrow> socket t = socket s"
proof -
  have w: "Server (snd (startTxLifeCycle lib x tx err w)) = Server w" for w :: "'a rest"
    by (simp add: startTxLifeCycle_def split_beta removeTransaction_frame split: option.split)
  show "adapter_step lib (TxEnds x tx err now) s = Done t \<Longrightarrow> ?thesis"
    by (auto simp: split_beta runErrHandler_def give_up_socket w dest!: send_error_socket
        split: option.splits err_handler.splits)
qed

text \<open>The release hook drops tables of the open socket, and the requests of the SMF send on it.\<close>

lemma hook_socket: "Server (fold (hook_fun (release_hook ord)) gone w) = Server w"
  by (induction gone arbitrary: w) (simp_all add: hook_fun_def release_hook_def ForgetConsumer_Server)

lemma commit_socket:
  assumes "addr_inv s" "legal_env e"
  shows "socket (commitUpfAddr e (release_hook ord) now ip node s) = socket s"
  using commit_releases [OF assms, where hook = "release_hook ord" and now = now and ip = ip and node = node]
  by (auto simp: released_exactly_def hook_socket)

lemma record_socket:
  assumes "adapter_inv s" "legal_env e"
  shows "socket (RecordUpfAddr L e (release_hook ord) now n s) = socket s"
proof -
  let ?s = "snd (resolveForRecord L n s)"
  have "addr_inv ?s" using assms(1) by (simp add: adapter_inv_def)
  then have "socket (commitUpfAddr e (release_hook ord) now ip k ?s) = socket ?s" for ip k
    by (rule commit_socket [OF _ assms(2)])
  then show ?thesis by (simp add: RecordUpfAddr_def split_beta)
qed

lemma send_to_node_socket [simp]: "socket (snd (sendToNode lib L ev n msg s)) = socket s"
  by (simp add: sendToNode_rest SendPfcp_Server)

lemma register_socket: "socket (snd (registerAndSend lib c (sendToNode lib L ev n m) msg s)) = socket s"
  by (simp add: registerAndSend_def split_beta Let_def split: option.split)

lemma forward_socket: "ForwardPfcpMsgToUpf lib e msg n s = Done (r, t) \<Longrightarrow> socket t = socket s"
proof -
  have reg: "registerAndSend lib (own_chan e) (sendToNode lib L ev n m) msg u = (r, t) \<Longrightarrow> socket t = socket u"
    for lib :: "'b pfcp_lib" and L ev n m msg u and t :: "'b adapter"
    using register_socket [of lib "own_chan e" L ev n m msg u] by simp
  show "ForwardPfcpMsgToUpf lib e msg n s = Done (r, t) \<Longrightarrow> ?thesis"
    by (auto simp: ForwardPfcpMsgToUpf_def forwardAssociation_def send_to_node_defs [abs_def] Let_def split_beta
        dest!: reg split: msg_type.splits if_splits option.splits outcome.splits sum.splits)
qed

lemma http_socket:
  assumes "adapter_inv s" "legal_env (release e)" "http_handler lib decode e req s = Done (rs, t)"
  shows "socket t = socket s"
proof -
  have smf: "adapter_inv (SetSmfAddr ip s)" "socket (SetSmfAddr ip s) = socket s" for ip
    using smf_adapter_inv(1) [OF assms(1)] by (simp_all add: smf_adapter_inv(2))
  show ?thesis
    using assms(3) record_socket [OF smf(1) assms(2)] smf(2)
    by (auto simp: http_handler_def Let_def dest!: forward_socket split: option.splits outcome.splits)
qed


section \<open>Every step keeps the tables\<close>

lemma tickRefresh_Some [simp]:
  "tickRefresh L ord p = Some q \<longleftrightarrow> started p + int (Suc (refreshes p)) * refreshPeriod \<le> clock p
    \<and> q = p\<lparr>refreshes := Suc (refreshes p),
        world := (world p)\<lparr>dnsHostIpCache := RefreshDnsHostIpCache L ord (dnsHostIpCache (world p))\<rparr>\<rparr>"
  by (auto simp: tickRefresh_def)

lemma dns_inv: "adapter_inv (s\<lparr>dnsHostIpCache := c\<rparr>) = adapter_inv s"
  by (simp add: adapter_inv_def addr_inv_def)

lemma finish_socket: "finish_reply c s = Some (r, t) \<Longrightarrow> socket t = socket s"
  by (auto simp: finish_reply_def split: option.splits)

lemma read_socket: "socket (snd (on_rest (readPfcpMessage lib input) s)) = socket s"
  by (simp add: readLoop_server)

lemma recorded_keeps:
  assumes "adapter_inv s" "legal_env (release e)" "enumerates (consumers_order e)"
  shows "adapter_inv (recorded_by decode e req s)" "socket (recorded_by decode e req s) = socket s"
  using record_adapter_inv(1) [OF smf_adapter_inv(1) [OF assms(1)] assms(2,3)]
    record_socket [OF smf_adapter_inv(1) [OF assms(1)] assms(2)] assms(1)
  by (simp_all add: recorded_by_def smf_adapter_inv(2) split: option.split)

lemma tx_end_keeps:
  assumes "adapter_inv s" "adapter_step lib (TxEnds x tx err now) s = Done t"
  shows "adapter_inv t"
proof -
  have "fine (adapter_step lib (TxEnds x tx err now) s)"
    using err_handler_fine [OF tx_end_inv [OF assms(1)]] by (simp add: split_beta)
  with assms(2) show ?thesis by simp
qed

lemma work_keeps:
  assumes "work_step lib p q" "adapter_inv (world p)"
  shows "adapter_inv (world q) \<and> socket (world q) = socket (world p)"
  using assms(1)
proof cases
  case (forwards i decode e rs s)
  with assms(2) http_fine [OF assms(2), of e lib decode "requests p ! i"] show ?thesis
    by (auto intro: http_socket)
next
  case (forward_panics i decode e)
  with assms(2) recorded_keeps [OF assms(2), of e decode "requests p ! i"] show ?thesis by simp
next
  case (replies i r s)
  with reply_inv [OF assms(2), of "replying p ! i"] show ?thesis by (simp add: finish_socket)
next
  case (reads input m err s)
  with read_inv [OF assms(2), of lib input] read_socket [of lib input "world p"] show ?thesis by simp
next
  case (handles i msg addr e ord now s)
  with dispatch_fine [OF assms(2), of e lib ord now msg "Some addr"] show ?thesis by (simp add: dispatch_socket)
next
  case (tx_ends x tx err now s)
  with tx_end_keeps [OF assms(2)] tx_end_socket show ?thesis by fastforce
next
  case (overtaken bytes msg addr x tx err now s)
  with tx_end_keeps [OF assms(2)] tx_end_socket show ?thesis by fastforce
qed (use assms(2) in \<open>simp_all add: dns_inv\<close>)

lemma control_keeps_inv: "control_step lib env p q \<Longrightarrow> adapter_inv (world p) \<Longrightarrow> adapter_inv (world q)"
proof (induction rule: control_step.induct)
  case (loop_stops p m s)
  then show ?case using read_inv [of "world p" lib "ReadError ErrClosed"] by simp
qed (simp_all add: listen_inv)

section \<open>Where the goroutines are\<close>

definition places_inv :: "'m process \<Rightarrow> bool" where
  "places_inv p \<longleftrightarrow>
     (main_at p = Starts \<or> main_at p = Launches \<longrightarrow> run_at p = NotRunning)
     \<and> (run_at p = NotRunning \<longrightarrow> main_at p = Starts \<or> main_at p = Launches \<or> main_at p = Killed)
     \<and> (main_at p = Starts \<or> main_at p = Launches \<or> main_at p = Serves \<longrightarrow> listener_at p = NoListener)
     \<and> (serveErr p \<noteq> None \<longrightarrow> listener_at p = ListenerReturned)
     \<and> (stopping p \<longrightarrow> cancelled p)
     \<and> (\<forall>d. main_at p = ShutsDown d \<longrightarrow> stopping p \<and> d \<le> clock p + shutdownTimeout)
     \<and> (main_at p = AwaitsPfcp \<longrightarrow> stopping p)
     \<and> (main_at p = Terminated \<longrightarrow> stopping p \<and> run_at p = RunReturned)"

definition socket_inv :: "'m process \<Rightarrow> bool" where
  "socket_inv p \<longleftrightarrow>
     (case run_at p of
        NotRunning \<Rightarrow> loop_at p = NoLoop \<and> \<not> conn_open p \<and> socket (world p) = None
      | Opening \<Rightarrow> loop_at p = NoLoop \<and> \<not> conn_open p \<and> socket (world p) = None
      | AwaitsCancel \<Rightarrow> loop_at p = LoopReading \<and> conn_open p
          \<and> (\<exists>srv. socket (world p) = Some srv \<and> Conn srv \<noteq> None)
      | AwaitsLoop \<Rightarrow> (loop_at p = LoopReading \<or> loop_at p = LoopDone) \<and> \<not> conn_open p \<and> cancelled p
          \<and> (\<exists>srv. socket (world p) = Some srv \<and> Conn srv \<noteq> None)
      | RunReturned \<Rightarrow> \<not> conn_open p
          \<and> (loop_at p = NoLoop \<and> socket (world p) = None \<or> loop_at p = LoopDone \<and> cancelled p))"

lemma places_control: "control_step lib env p q \<Longrightarrow> places_inv p \<Longrightarrow> places_inv q"
  by (induction rule: control_step.induct) (auto simp: places_inv_def exited_def)

lemma socket_control: "control_step lib env p q \<Longrightarrow> places_inv p \<Longrightarrow> socket_inv p \<Longrightarrow> socket_inv q"
proof (induction rule: control_step.induct)
  case (loop_stops p m s)
  have "socket s = socket (world p)" using read_socket [of lib "ReadError ErrClosed" "world p"] loop_stops by simp
  with loop_stops show ?case by (auto simp: socket_inv_def split: run_pc.splits)
qed (auto simp: socket_inv_def places_inv_def Run_listen_def split: run_pc.splits)

lemma places_work: "work_step lib p q \<Longrightarrow> places_inv p \<Longrightarrow> places_inv q"
  by (induction rule: work_step.induct) (auto simp: places_inv_def exited_def)

lemma socket_work: "work_step lib p q \<Longrightarrow> adapter_inv (world p) \<Longrightarrow> socket_inv p \<Longrightarrow> socket_inv q"
proof -
  assume step: "work_step lib p q" and inv: "adapter_inv (world p)" and sock: "socket_inv p"
  from step have "run_at q = run_at p" "loop_at q = loop_at p" "conn_open q = conn_open p" "cancelled p \<longrightarrow> cancelled q"
    by (cases; simp)+
  with work_keeps [OF step inv] sock show "socket_inv q" by (auto simp: socket_inv_def split: run_pc.splits)
qed

definition process_inv :: "'m process \<Rightarrow> bool" where
  "process_inv p \<longleftrightarrow> adapter_inv (world p) \<and> places_inv p \<and> socket_inv p"

lemma process_inv_init: "process_inv (process_init InfoLevel t0)"
  by (simp add: process_inv_def process_init_def adapter_init_inv places_inv_def socket_inv_def)
    (simp add: adapter_init_def addr_state.defs tx_state.defs)

lemma process_inv_run: "process_run lib env n p q \<Longrightarrow> process_inv p \<Longrightarrow> process_inv q"
  by (induction rule: process_run.induct)
    (auto simp: process_inv_def work_keeps control_keeps_inv places_control places_work socket_control socket_work)

lemma reachable_inv: "reachable lib env p \<Longrightarrow> process_inv p"
  unfolding reachable_def using process_inv_run [OF _ process_inv_init] by blast

lemma process_run_append:
  "process_run lib env m q r \<Longrightarrow> process_run lib env n p q \<Longrightarrow> process_run lib env (n + m) p r"
  by (induction rule: process_run.induct) (auto intro: process_run.intros)

lemma runs_on:
  "\<exists>n. process_run lib env n p q \<Longrightarrow> control_step lib env q r \<Longrightarrow> \<exists>n. process_run lib env n p r"
  "\<exists>n. process_run lib env n p q \<Longrightarrow> work_step lib q r \<Longrightarrow> \<exists>n. process_run lib env n p r"
  "\<exists>n. process_run lib env n p p"
  by (blast intro: process_run.intros)+

lemma reachable_more: "reachable lib env p \<Longrightarrow> process_run lib env n p q \<Longrightarrow> reachable lib env q"
  unfolding reachable_def using process_run_append by blast

section \<open>How many steps are left\<close>

fun main_rank :: "main_pc \<Rightarrow> nat" where
  "main_rank Starts = 6"
| "main_rank Launches = 5"
| "main_rank Serves = 4"
| "main_rank Selects = 3"
| "main_rank (ShutsDown d) = 2"
| "main_rank AwaitsPfcp = 1"
| "main_rank _ = 0"

fun run_rank :: "run_pc \<Rightarrow> nat" where
  "run_rank NotRunning = 4"
| "run_rank Opening = 3"
| "run_rank AwaitsCancel = 2"
| "run_rank AwaitsLoop = 1"
| "run_rank RunReturned = 0"

fun loop_rank :: "loop_pc \<Rightarrow> nat" where
  "loop_rank NoLoop = 2"
| "loop_rank LoopReading = 1"
| "loop_rank LoopDone = 0"

fun listener_rank :: "listener_pc \<Rightarrow> nat" where
  "listener_rank NoListener = 3"
| "listener_rank Binding = 2"
| "listener_rank Accepting = 1"
| "listener_rank ListenerReturned = 0"

definition rank :: "'m process \<Rightarrow> nat" where
  "rank p = main_rank (main_at p) + run_rank (run_at p) + loop_rank (loop_at p) + listener_rank (listener_at p)"

lemma control_rank:
  assumes "control_step lib env p q" "process_inv p"
  shows "rank q < rank p"
proof -
  have inv: "places_inv p" "socket_inv p" using assms(2) by (simp_all add: process_inv_def)
  from assms(1) show ?thesis
  proof cases
    case launches
    with inv(1) show ?thesis by (simp add: rank_def places_inv_def)
  next
    case serves
    with inv(1) show ?thesis by (simp add: rank_def places_inv_def)
  next
    case opens
    with inv(2) show ?thesis by (simp add: rank_def socket_inv_def)
  qed (auto simp: rank_def)
qed

lemma work_rank: "work_step lib p q \<Longrightarrow> rank q \<le> rank p"
  by (induction rule: work_step.induct) (simp_all add: rank_def)

lemma run_rank_bound: "process_run lib env n p q \<Longrightarrow> process_inv p \<Longrightarrow> n + rank q \<le> rank p"
proof (induction rule: process_run.induct)
  case (control n p q r)
  with control_rank [OF control.hyps(2) process_inv_run [OF control.hyps(1)]] show ?case by simp
next
  case (work n p q r)
  with work_rank [OF work.hyps(2)] show ?case by simp
qed simp

lemma rank_le: "rank p \<le> 15"
proof -
  have "main_rank (main_at p) \<le> 6" by (cases "main_at p") simp_all
  moreover have "run_rank (run_at p) \<le> 4" by (cases "run_at p") simp_all
  moreover have "loop_rank (loop_at p) \<le> 2" by (cases "loop_at p") simp_all
  moreover have "listener_rank (listener_at p) \<le> 3" by (cases "listener_at p") simp_all
  ultimately show ?thesis by (simp add: rank_def)
qed

section \<open>Shutting down\<close>

text \<open>
  When the process may have gone by, at the latest, if nothing but its long-lived goroutines runs.
\<close>

definition limit :: "'m process \<Rightarrow> time" where
  "limit p = (case main_at p of
       ShutsDown d \<Rightarrow> max (clock p) d
     | AwaitsPfcp \<Rightarrow> clock p
     | Terminated \<Rightarrow> clock p | ServeFailed \<Rightarrow> clock p | Killed \<Rightarrow> clock p
     | _ \<Rightarrow> clock p + shutdownTimeout)"

definition same_work :: "'m process \<Rightarrow> 'm process \<Rightarrow> bool" where
  "same_work p q \<longleftrightarrow> requests q = requests p \<and> replying q = replying p \<and> handling q = handling p"

definition gone_by :: "'m pfcp_lib \<Rightarrow> process_env \<Rightarrow> 'm process \<Rightarrow> bool" where
  "gone_by lib env p \<longleftrightarrow> (\<exists>n q. process_run lib env n p q \<and> exited q \<and> clock q \<le> limit p \<and> same_work p q)"

lemma gone_by_now: "exited p \<Longrightarrow> gone_by lib env p"
  unfolding gone_by_def by (intro exI [of _ 0] exI [of _ p]) (auto simp: exited_def limit_def same_work_def process_run.here)

lemma gone_by_step:
  assumes "control_step lib env p q" "gone_by lib env q" "limit q \<le> limit p" "same_work p q"
  shows "gone_by lib env p"
proof -
  obtain n r where r: "process_run lib env n q r" "exited r" "clock r \<le> limit q" "same_work q r"
    using assms(2) by (auto simp: gone_by_def)
  have "process_run lib env 1 p q"
    using process_run.control [OF process_run.here assms(1)] by simp
  from process_run_append [OF r(1) this] r(2-4) assms(3,4) show ?thesis
    unfolding gone_by_def same_work_def by (intro exI [of _ "1 + n"] exI [of _ r]) auto
qed

lemma gone_by_wait:
  assumes "\<not> exited p" "main_at p = ShutsDown d" "\<And>q. q = p\<lparr>clock := max (clock p) d, main_at := AwaitsPfcp\<rparr> \<Longrightarrow> gone_by lib env q"
  shows "gone_by lib env p"
proof -
  let ?p = "p\<lparr>clock := max (clock p) d\<rparr>" and ?q = "p\<lparr>clock := max (clock p) d, main_at := AwaitsPfcp\<rparr>"
  have "clock p + max 0 (d - clock p) = max (clock p) d" by simp
  then have "work_step lib p ?p" using work_step.passes [of p "max 0 (d - clock p)" lib] assms(1) by simp
  then have tick: "process_run lib env 0 p ?p" using process_run.work [OF process_run.here] by blast
  have "control_step lib env ?p ?q"
    using control_step.shutdown_expires [of ?p d lib env] assms(2) by simp
  from process_run.control [OF tick this] have run: "process_run lib env 1 p ?q" by simp
  obtain n r where r: "process_run lib env n ?q r" "exited r" "clock r \<le> limit ?q" "same_work ?q r"
    using assms(3) by (auto simp: gone_by_def)
  from process_run_append [OF r(1) run] r(2-4) show ?thesis
    unfolding gone_by_def by (intro exI [of _ "1 + n"] exI [of _ r]) (simp add: limit_def same_work_def assms(2))
qed

lemma last_read:
  assumes "socket s = Some srv" "Conn srv \<noteq> None"
  shows "on_rest (readPfcpMessage lib (ReadError ErrClosed)) s = ((None, Some ErrClosed), s)"
  using assms by (simp add: readPfcpMessage_def on_rest_def)

lemma cancelled_goes: "process_inv p \<Longrightarrow> cancelled p \<Longrightarrow> gone_by lib env p"
proof (induction "rank p" arbitrary: p rule: less_induct)
  case less
  have goes: "gone_by lib env p"
    if "control_step lib env p q" "cancelled q" "limit q \<le> limit p" "same_work p q" for q
  proof -
    have "process_inv q" using process_inv_run [OF process_run.control [OF process_run.here that(1)]] less.prems by blast
    then have "gone_by lib env q" using less.hyps [of q] control_rank [OF that(1)] less.prems that(2) by blast
    then show ?thesis by (rule gone_by_step [OF that(1) _ that(3,4)])
  qed
  note inv = less.prems(1) [unfolded process_inv_def]
  show ?case
  proof (cases "main_at p")
    case Starts
    with less.prems(2) show ?thesis
      by (intro goes [OF control_step.starts]) (simp_all add: limit_def same_work_def)
  next
    case Launches
    with less.prems(2) show ?thesis
      by (intro goes [OF control_step.launches]) (simp_all add: limit_def same_work_def exited_def)
  next
    case Serves
    with less.prems(2) show ?thesis
      by (intro goes [OF control_step.serves]) (simp_all add: limit_def same_work_def)
  next
    case Selects
    with less.prems(2) show ?thesis
      by (intro goes [OF control_step.shuts_down]) (simp_all add: limit_def same_work_def shutdownTimeout_def secs_def)
  next
    case (ShutsDown d)
    have "gone_by lib env q" if q: "q = p\<lparr>clock := max (clock p) d, main_at := AwaitsPfcp\<rparr>" for q
    proof -
      have "rank q < rank p" using q ShutsDown by (simp add: rank_def)
      moreover have "process_inv q"
        using q less.prems ShutsDown inv by (auto simp: process_inv_def places_inv_def socket_inv_def split: run_pc.splits)
      ultimately show ?thesis using less.hyps [of q] less.prems(2) q by simp
    qed
    then show ?thesis using gone_by_wait [of p d] ShutsDown by (simp add: exited_def)
  next
    case AwaitsPfcp
    then have live: "\<not> exited p" by (simp add: exited_def)
    show ?thesis
    proof (cases "run_at p")
      case NotRunning
      with AwaitsPfcp inv show ?thesis by (simp add: places_inv_def)
    next
      case Opening
      with AwaitsPfcp less.prems(2) live show ?thesis
        by (intro goes [OF control_step.open_fails]) (simp_all add: limit_def same_work_def)
    next
      case AwaitsCancel
      with AwaitsPfcp less.prems(2) live show ?thesis
        by (intro goes [OF control_step.closes]) (simp_all add: limit_def same_work_def)
    next
      case AwaitsLoop
      show ?thesis
      proof (cases "loop_at p = LoopDone")
        case True
        with AwaitsPfcp AwaitsLoop less.prems(2) live show ?thesis
          by (intro goes [OF control_step.run_returns]) (simp_all add: limit_def same_work_def)
      next
        case False
        then obtain srv where "loop_at p = LoopReading" "\<not> conn_open p" "socket (world p) = Some srv" "Conn srv \<noteq> None"
          using inv AwaitsLoop by (auto simp: socket_inv_def)
        with AwaitsPfcp less.prems(2) live show ?thesis
          by (intro goes [OF control_step.loop_stops [OF live _ _ last_read]]) (simp_all add: limit_def same_work_def)
      qed
    next
      case RunReturned
      with AwaitsPfcp less.prems(2) show ?thesis
        by (intro goes [OF control_step.terminates]) (simp_all add: limit_def same_work_def)
    qed
  qed (rule gone_by_now, simp add: exited_def)+
qed


section \<open>After the end, and without a socket\<close>

lemma exited_stays: "process_run lib env n p q \<Longrightarrow> exited p \<Longrightarrow> q = p"
proof (induction rule: process_run.induct)
  case (control n p q r)
  then have "exited q" by simp
  with control.hyps(2) have False by (cases; simp add: exited_def; fail)
  with control.hyps(2) show ?case by simp
next
  case (work n p q r)
  then have "exited q" by simp
  with work.hyps(2) have False by (cases; simp add: exited_def; fail)
  with work.hyps(2) show ?case by simp
qed simp

lemma no_socket_register:
  assumes "socket s = None"
  shows "fst (registerAndSend lib c (sendToNode lib L ev n m) msg s) \<noteq> WaitingOn d"
proof -
  have "fst (sendToNode lib L ev n m t) = Some ErrNotInitialized" if "socket t = None" for t
    using that by (simp add: sendToNode_rest SendPfcp_def)
  with assms show ?thesis by (simp add: registerAndSend_def split_beta Let_def)
qed

lemma no_socket_forward:
  assumes "socket s = None" "ForwardPfcpMsgToUpf lib e msg n s = Done (r, t)"
  shows "r \<noteq> WaitingOn d"
proof -
  have reg: "registerAndSend lib (own_chan e) (sendToNode lib L ev n m) msg u \<noteq> (WaitingOn d, t)" if "socket u = None"
    for L ev n m msg u using no_socket_register [OF that, of lib "own_chan e" L ev n m msg d] by (metis fst_conv)
  show ?thesis using assms
    by (auto simp: ForwardPfcpMsgToUpf_def forwardAssociation_def send_to_node_defs [abs_def] Let_def split_beta reg
        split: msg_type.splits if_splits option.splits outcome.splits sum.splits)
qed

lemma no_socket_http:
  assumes "adapter_inv s" "legal_env (release e)" "socket s = None" "http_handler lib decode e req s = Done (rs, t)"
  shows "Pending c \<notin> set rs"
proof -
  have smf: "adapter_inv (SetSmfAddr ip s)" "socket (SetSmfAddr ip s) = None" for ip
    using smf_adapter_inv(1) [OF assms(1)] assms(3) by (simp_all add: smf_adapter_inv(2))
  have rep: "Pending c = reply_of r \<longleftrightarrow> r = WaitingOn c" for r by (cases r) auto
  have fwd: "r \<noteq> WaitingOn c"
    if "ForwardPfcpMsgToUpf lib fe pm n (RecordUpfAddr L (release e) (release_hook ord) now n (SetSmfAddr ip s)) = Done (r, t)"
    for fe pm n L ord now ip r
    by (rule no_socket_forward [OF _ that]) (use record_socket [OF smf(1) assms(2)] smf(2) in simp)
  from assms(4) show ?thesis
    by (auto simp: http_handler_def Let_def rep dest: fwd split: option.splits outcome.splits if_splits)
qed

definition closed :: "'m process \<Rightarrow> bool" where
  "closed p \<longleftrightarrow> run_at p = AwaitsLoop \<or> run_at p = RunReturned"

lemma closed_control:
  "control_step lib env p q \<Longrightarrow> places_inv p \<Longrightarrow> closed p \<Longrightarrow> closed q \<and> handling q = handling p"
  by (induction rule: control_step.induct) (simp_all add: closed_def places_inv_def)

lemma closed_work:
  assumes "work_step lib p q" "socket_inv p" "closed p"
  shows "closed q \<and> set (handling q) \<subseteq> set (handling p)"
proof -
  have open_: "\<not> conn_open p" using assms(2,3) by (auto simp: socket_inv_def closed_def)
  have sub: "set (drop_at i xs) \<subseteq> set xs" for i and xs :: "('a \<times> UDPAddr) list"
    using set_take_subset [of i xs] set_drop_subset [of "Suc i" xs] by (auto simp: drop_at_def)
  from assms(1) show ?thesis
    by (cases; (use open_ assms(3) sub in \<open>simp add: closed_def\<close>))
qed

lemma closed_stays:
  "process_run lib env n p q \<Longrightarrow> process_inv p \<Longrightarrow> closed p \<Longrightarrow> closed q \<and> set (handling q) \<subseteq> set (handling p)"
proof (induction rule: process_run.induct)
  case (control n p q r)
  with closed_control [OF control.hyps(2)] process_inv_run [OF control.hyps(1)] show ?case
    by (simp add: process_inv_def)
next
  case (work n p q r)
  with closed_work [OF work.hyps(2)] process_inv_run [OF work.hyps(1)] show ?case
    by (auto simp: process_inv_def)
qed simp


section \<open>A clean shutdown\<close>

text \<open>The seven steps from a signal to the exit when no request is in flight.\<close>

lemma clean_shutdown:
  assumes "process_inv p" "main_at p = Selects" "run_at p = AwaitsCancel" "requests p = []" "replying p = []"
  shows "\<exists>n q. process_run lib env n p q \<and> main_at q = Terminated \<and> handling q = handling p"
proof -
  have sock: "loop_at p = LoopReading" "\<exists>srv. socket (world p) = Some srv \<and> Conn srv \<noteq> None"
    using assms(1,3) by (simp_all add: process_inv_def socket_inv_def)
  let ?a = "p\<lparr>cancelled := True\<rparr>"
  let ?b = "?a\<lparr>main_at := ShutsDown (clock p + shutdownTimeout), stopping := True\<rparr>"
  let ?c = "?b\<lparr>main_at := AwaitsPfcp\<rparr>"
  let ?d = "?c\<lparr>run_at := AwaitsLoop, conn_open := False\<rparr>"
  let ?e = "?d\<lparr>loop_at := LoopDone\<rparr>"
  let ?f = "?e\<lparr>run_at := RunReturned\<rparr>"
  have "work_step lib p ?a" by (rule work_step.signal) (simp_all add: exited_def assms(2))
  note run = runs_on(2) [OF runs_on(3) this]
  have "control_step lib env ?a ?b" using control_step.shuts_down [of ?a lib env] assms(2) by simp
  note run = runs_on(1) [OF run this]
  have "control_step lib env ?b ?c"
    using control_step.shut_down [of ?b "clock p + shutdownTimeout" lib env] assms(4,5) by simp
  note run = runs_on(1) [OF run this]
  have "control_step lib env ?c ?d"
    using control_step.closes [of ?c lib env] assms(3) by (simp add: exited_def)
  note run = runs_on(1) [OF run this]
  obtain srv where "socket (world ?d) = Some srv" "Conn srv \<noteq> None" using sock(2) by auto
  from control_step.loop_stops [OF _ _ _ last_read [OF this], where env = env and lib = lib] sock(1)
  have "control_step lib env ?d ?e" by (simp add: exited_def)
  note run = runs_on(1) [OF run this]
  have "control_step lib env ?e ?f" using control_step.run_returns [of ?e lib env] by (simp add: exited_def)
  note run = runs_on(1) [OF run this]
  have "control_step lib env ?f (?f\<lparr>main_at := Terminated\<rparr>)" using control_step.terminates [of ?f lib env] by simp
  note run = runs_on(1) [OF run this]
  have "main_at (?f\<lparr>main_at := Terminated\<rparr>) = Terminated \<and> handling (?f\<lparr>main_at := Terminated\<rparr>) = handling p" by simp
  with run show ?thesis by blast
qed

section \<open>A process\<close>

text \<open>The process once its socket is open, and once it has read a session report.\<close>

definition std_process_env :: process_env where
  "std_process_env = \<lparr>log_var = ''chatty'', ParseLevel = (\<lambda>_. None), pod_ip = ''10.42.0.1''\<rparr>"

definition opened :: "plain_msg process" where
  "opened = (process_init 0 0)\<lparr>main_at := Selects, run_at := AwaitsCancel, loop_at := LoopReading,
     listener_at := Binding, conn_open := True,
     world := addr_state.more_update (Run_listen (listenAddr std_dns ''10.42.0.1'' Map.empty)
       (Some \<lparr>LocalAddr = tx_text\<rparr>)) adapter_init\<rparr>"

definition reported :: "plain_msg process" where
  "reported = opened\<lparr>handling := [(std_req 7, upf_b)]\<rparr>"

lemma listen_anyway: "listenAddr L ip cache = listenAddr L ip Map.empty"
  by (simp add: listenAddr_def ResolveNodeIdToIp_def CPNodeID_def node_id_types)

lemma opened_reachable: "reachable wire_lib std_process_env opened"
proof -
  let ?step = "control_step wire_lib std_process_env"
  let ?p = "process_init 0 0 :: plain_msg process"
  let ?a = "?p\<lparr>main_at := Launches, atomicLevel := configuredLevel (ParseLevel std_process_env) (log_var std_process_env)
    (atomicLevel ?p)\<rparr>"
  let ?b = "?a\<lparr>main_at := Serves, run_at := Opening\<rparr>"
  let ?c = "?b\<lparr>main_at := Selects, listener_at := Binding\<rparr>"
  let ?d = "?c\<lparr>run_at := AwaitsCancel, loop_at := LoopReading, conn_open := True,
    world := addr_state.more_update (Run_listen (listenAddr std_dns (pod_ip std_process_env) (dnsHostIpCache (world ?c)))
      (Some \<lparr>LocalAddr = tx_text\<rparr>)) (world ?c)\<rparr>"
  have "?step ?p ?a" by (rule control_step.starts) (simp add: process_init_def)
  note run = runs_on(1) [OF runs_on(3) this]
  have "?step ?a ?b" by (rule control_step.launches) simp
  note run = runs_on(1) [OF run this]
  have "?step ?b ?c" by (rule control_step.serves) simp
  note run = runs_on(1) [OF run this]
  have "?step ?c ?d" by (rule control_step.opens) (simp_all add: exited_def)
  note run = runs_on(1) [OF run this]
  have "?d = opened"
    unfolding listen_anyway [of std_dns "pod_ip std_process_env" "dnsHostIpCache (world ?c)"]
    by (simp add: opened_def process_init_def std_process_env_def configuredLevel_def)
  with run show ?thesis by (auto simp: reachable_def)
qed

lemma listen_world:
  "addr_state.more_update (Run_listen a (Some c)) s
    = s\<lparr>addr_state.more := (rest_of s)\<lparr>Server := Some \<lparr>Addr = a, Conn = Some c\<rparr>, consumers := Map.empty\<rparr>\<rparr>"
  for s :: "'m adapter"
  by (cases s) (simp add: Run_listen_def)

lemma reported_reachable: "reachable wire_lib std_process_env reported"
proof -
  have "on_rest (readPfcpMessage wire_lib (Datagram [0, 7] upf_b)) (world opened)
    = ((Some (std_req 7, upf_b), None), world opened)"
    by (simp add: on_rest_def opened_def listen_world Run_listen_def readPfcpMessage_def wire_lib_def plain_lib_def PFCP_MAX_UDP_LEN_def
        findTransaction_def IsRequest_def IsResponse_def std_req_def ConsumerTable_Load_def Let_def)
  from work_step.reads [OF _ _ _ _ this] have "work_step wire_lib opened reported"
    by (simp add: reported_def) (simp add: opened_def exited_def process_init_def)
  from process_run.work [OF process_run.here this] reachable_more [OF opened_reachable] show ?thesis by blast
qed

text \<open>The same process when a signal has arrived.\<close>

lemma reported_places:
  "main_at reported = Selects" "run_at reported = AwaitsCancel" "requests reported = []" "replying reported = []"
  "handling reported = [(std_req 7, upf_b)]"
  by (simp_all add: reported_def opened_def process_init_def)

lemma signalled_reachable: "reachable wire_lib std_process_env (reported\<lparr>cancelled := True\<rparr>)"
proof -
  have "work_step wire_lib reported (reported\<lparr>cancelled := True\<rparr>)"
    by (rule work_step.signal) (simp_all add: exited_def reported_places)
  from process_run.work [OF process_run.here this] reachable_more [OF reported_reachable] show ?thesis by blast
qed

section \<open>Properties\<close>

text \<open>
  Property C20. A clean exit is the last thing that happens: when the main goroutine has returned
  after a signal, the PFCP socket is closed, the read loop and the goroutine of the socket have ended, the
  HTTP server has been told to stop, and nothing takes a step any more.
\<close>

theorem clean_exit_is_last:
  assumes "reachable lib env p" "main_at p = Terminated"
  shows "cancelled p \<and> stopping p \<and> \<not> conn_open p \<and> run_at p = RunReturned \<and> loop_at p \<noteq> LoopReading
    \<and> (\<forall>n q. process_run lib env n p q \<longrightarrow> q = p)"
proof -
  have "exited p" using assms(2) by (simp add: exited_def)
  then have "\<forall>n q. process_run lib env n p q \<longrightarrow> q = p" using exited_stays by blast
  with reachable_inv [OF assms(1)] assms(2) show ?thesis
    by (auto simp: process_inv_def places_inv_def socket_inv_def)
qed

theorem clean_exit_is_last_witness:
  "\<exists>q. reachable wire_lib std_process_env q \<and> main_at q = Terminated \<and> loop_at q \<noteq> LoopReading
    \<and> handling q = [(std_req 7, upf_b)]"
proof -
  obtain n q where q: "process_run wire_lib std_process_env n reported q" "main_at q = Terminated"
    "handling q = handling reported"
    using clean_shutdown [OF reachable_inv [OF reported_reachable] reported_places(1-4)] by blast
  have "reachable wire_lib std_process_env q" by (rule reachable_more [OF reported_reachable q(1)])
  from this clean_exit_is_last [OF this q(2)] q(2,3) show ?thesis by (auto simp: reported_places)
qed

text \<open>
  Property C8. Shutting down comes to an end: once a signal has cancelled the context, wherever
  the goroutines are, they can bring the process to its exit within five seconds by themselves,
  without anything being handled; and under every schedule they take at most fifteen more steps.
\<close>

theorem shutdown_completes:
  assumes "reachable lib env p" "cancelled p"
  shows "(\<exists>n q. process_run lib env n p q \<and> exited q \<and> clock q \<le> clock p + shutdownTimeout
      \<and> requests q = requests p \<and> replying q = replying p \<and> handling q = handling p)
    \<and> (\<forall>n q. process_run lib env n p q \<longrightarrow> n \<le> 15)"
proof
  have inv: "process_inv p" by (rule reachable_inv [OF assms(1)])
  then have "limit p \<le> clock p + shutdownTimeout"
    by (auto simp: limit_def process_inv_def places_inv_def shutdownTimeout_def secs_def split: main_pc.split)
  with cancelled_goes [OF inv assms(2), of lib env] show "\<exists>n q. process_run lib env n p q \<and> exited q
      \<and> clock q \<le> clock p + shutdownTimeout \<and> requests q = requests p \<and> replying q = replying p \<and> handling q = handling p"
    unfolding gone_by_def same_work_def by (meson order_trans)
  show "\<forall>n q. process_run lib env n p q \<longrightarrow> n \<le> 15"
    using run_rank_bound [OF _ inv] rank_le [of p] by (meson add_leD1 order_trans)
qed

theorem shutdown_completes_witness:
  "\<exists>n q. process_run wire_lib std_process_env n (reported\<lparr>cancelled := True\<rparr>) q \<and> exited q
    \<and> clock q \<le> secs 5 \<and> handling q = [(std_req 7, upf_b)]"
proof -
  have start: "clock (reported\<lparr>cancelled := True\<rparr>) = 0" by (simp add: reported_def opened_def process_init_def)
  from shutdown_completes [OF signalled_reachable] show ?thesis
    by (simp add: reported_places start [simplified] shutdownTimeout_def) blast
qed

text \<open>
  Property C21. While the process runs, whatever its goroutines do and in whatever order, every
  table of the adapter is consistent with the others, and no message that has been dispatched can
  block its handler on the delivery of an answer.
\<close>

theorem process_keeps_tables:
  assumes "reachable lib env p" "legal_orders (claim_orders e)"
  shows "adapter_inv (world p) \<and> Dispatch lib e ord now msg peer (world p) \<noteq> Blocked"
  using reachable_inv [OF assms(1)] dispatch_fine [OF _ assms(2), of "world p" lib ord now msg peer]
  by (auto simp: process_inv_def fine_def)

theorem process_keeps_tables_witness:
  "Dispatch wire_lib std_report_env sorted_list_of_set (secs 103) (std_req 7) (Some upf_b) (world reported) \<noteq> Blocked"
  using process_keeps_tables [OF reported_reachable, of std_report_env sorted_list_of_set "secs 103" "std_req 7" "Some upf_b"]
  by (simp add: std_report_env_def)

text \<open>
  A PFCP socket that cannot be opened goes unnoticed: the goroutine of the socket has
  returned, nothing has been cancelled, the main goroutine goes on serving, and every message of the SMF is
  answered at once without ever being sent.
\<close>

lemma lost_socket_unnoticed:
  assumes "reachable lib env p" "run_at p = RunReturned" "\<not> cancelled p" "legal_env (release e)"
    and "http_handler lib decode e req (world p) = Done (rs, s)"
  shows "Server (rest_of (world p)) = None \<and> main_at p \<noteq> Terminated \<and> Pending c \<notin> set rs"
proof -
  have inv: "adapter_inv (world p)" "socket (world p) = None" "main_at p \<noteq> Terminated"
    using reachable_inv [OF assms(1)] assms(2,3) by (auto simp: process_inv_def socket_inv_def places_inv_def)
  with no_socket_http [OF inv(1) assms(4) inv(2) assms(5), of c] show ?thesis by simp
qed

text \<open>
  Once the socket has been closed nothing more is read: every message that is handled
  after that was dispatched before, so a request of the SMF that is still in flight and whose
  answer has not been read never receives it, however long the HTTP server waits for the request.
\<close>

lemma nothing_read_after_close:
  assumes "reachable lib env p" "run_at p = AwaitsLoop" "process_run lib env n p q"
  shows "set (handling q) \<subseteq> set (handling p) \<and> \<not> conn_open q"
proof -
  have inv: "process_inv p" by (rule reachable_inv [OF assms(1)])
  have "closed q \<and> set (handling q) \<subseteq> set (handling p)"
    using closed_stays [OF assms(3) inv] assms(2) by (simp add: closed_def)
  moreover have "socket_inv q" using process_inv_run [OF assms(3) inv] by (simp add: process_inv_def)
  ultimately show ?thesis by (auto simp: closed_def socket_inv_def)
qed

text \<open>
  A clean exit waits for the read loop and not for what the loop has dispatched: as
  long as no HTTP request is in flight, a signal can bring the main goroutine to its clean exit with every
  message that was being handled still unhandled. A session report that has been read is then
  neither relayed nor refused.
\<close>

lemma exit_abandons_handlers:
  assumes "reachable lib env p" "main_at p = Selects" "run_at p = AwaitsCancel" "requests p = []" "replying p = []"
  shows "\<exists>n q. process_run lib env n p q \<and> main_at q = Terminated \<and> handling q = handling p"
  by (rule clean_shutdown [OF reachable_inv [OF assms(1)] assms(2-5)])

end
