(* ===== verification/Spec2Isabelle.thy ===== *)
theory Spec2Isabelle
  imports Relay_Properties Addr_Properties Tx_Properties Tx_Thread_Properties Handler_Properties Report_Threads
    Association_Threads Process_Properties
begin

text \<open>
  The UPF adapter stands between an SMF and its user planes on N4. The SMF sends PFCP messages to
  it over HTTP (\<^verbatim>\<open>upfadapter.go\<close>); the adapter forwards them to the user planes
  over UDP (\<^verbatim>\<open>pfcp/util.go\<close>, \<^verbatim>\<open>pfcp/message/send.go\<close>) and returns
  their responses (\<^verbatim>\<open>pfcp/handler/handler.go\<close>). The one message a user plane
  originates, the session report, goes the other way: it is renumbered, relayed to the SMF, and
  the answer of the SMF is returned to the user plane that raised it. The state of all this is in
  \<^verbatim>\<open>config/config.go\<close> (who the SMF is, which addresses are user planes, which
  reports are being relayed, which requests wait) and \<^verbatim>\<open>pfcp/udp\<close> (the
  transactions in flight).

  \<^bold>\<open>Theories and what they model.\<close>

  \<^item> \<open>Adapter_Prelude\<close>: machine integers, \<^verbatim>\<open>time.Time\<close> and
    \<^verbatim>\<open>Sub\<close> with its saturation, slices and strings, ranging over Go maps in an
    order the runtime chooses, and the contracts the components keep as locales:
    \<open>guarded_machine\<close> (atomic operations keep an invariant), \<open>tracked_machine\<close> (a
    fact survives the operations that spare it), \<open>refined_machine\<close> (operations implement
    a specification), \<open>guarded_steps\<close> and \<open>simulated_steps\<close> (the same for the steps of
    threads). \<open>Go_Net\<close>: what the sources use of \<^verbatim>\<open>net\<close>, that is
    IP addresses, their text form and its parsing, \<^verbatim>\<open>UDPAddr\<close>,
    \<^verbatim>\<open>SplitHostPort\<close>.
  \<^item> \<open>Relay_Table\<close>, \<open>Relay_Claims\<close>: the table of relayed session reports
    (\<^verbatim>\<open>RelayReportSequence\<close>, \<^verbatim>\<open>RenumberReportRelay\<close>,
    \<^verbatim>\<open>TakeReportRelay\<close>, \<^verbatim>\<open>ForgetReportRelay\<close>,
    \<^verbatim>\<open>ForgetRelaysForHost\<close>, \<^verbatim>\<open>RelayGeneration\<close> and what they
    call under \<^verbatim>\<open>reportRelayMutex\<close>). A record of the package's variables; each
    operation is one atomic step.
  \<^item> \<open>Node_Id\<close>: \<^verbatim>\<open>types/nodeid.go\<close>. \<open>Upf_Addrs\<close>: the SMF's
    address and the addresses of the user planes, with expiry and release. Resolution and commit
    of \<^verbatim>\<open>RecordUpfAddr\<close> are separate steps, because the lock covers the second
    only. The state extends that of the relay table, and the release hook acts on the extension.
  \<^item> \<open>Upf_Nodes\<close>, \<open>Upf_Txns\<close>: \<^verbatim>\<open>UpfCfg.UPFs\<close>, and
    \<^verbatim>\<open>UpfTxns\<close> with its channels of one place. \<open>Upf_Txns\<close> has the locale
    \<open>owned_table\<close>, which the transaction table meets as well.
  \<^item> \<open>Pfcp_Message\<close>, \<open>Tx_Table\<close>, \<open>Tx_Lifecycle\<close>,
    \<open>Udp_Server\<close>: message kinds, the tables of transactions over a store of references,
    the resend loop as a machine, and sending, reading and listening. \<open>Tx_Threads\<close>: the
    operations on the transaction tables again, as threads that take one operation of a
    \<^verbatim>\<open>sync.Map\<close>, or \<^verbatim>\<open>registerMu\<close>, at a time;
    \<open>Tx_Thread_Invariants\<close> has what every such step does, \<open>Tx_Thread_Properties\<close> what
    follows for whole runs.
  \<^item> \<open>Handler\<close>: every handler and the dispatcher, run in one piece.
    \<open>Report_Threads\<close>: the report handlers again, as threads that make one call into the
    shared tables at a time and interleave freely. \<open>Forward\<close>: the way of a message of the
    SMF, and the HTTP handler. \<open>Association_Threads\<close>: the forwarding of an association and
    the handler of its response as threads, with the lock of a user plane
    (\<^verbatim>\<open>UpfLock\<close>) as a lock that is taken, waited for and left held.
  \<^item> \<open>Adapter_System\<close>: the adapter as a machine whose events are what reaches it.
    \<open>Process\<close>: how \<^verbatim>\<open>main\<close>, \<^verbatim>\<open>serve\<close>, \<^verbatim>\<open>udp.Run\<close>, the read
    loop, \<^verbatim>\<open>ListenAndServe\<close> and the ticker of the name cache start, wait and stop
    around that machine.
  \<^item> \<open>Relay_Properties\<close>, \<open>Addr_Properties\<close>, \<open>Tx_Properties\<close>,
    \<open>Handler_Properties\<close>, \<open>Forward_Properties\<close>, \<open>Process_Properties\<close>: what holds of
    the theory each is named after. This theory: what holds of the whole, and across components.

  The state of the adapter is one record: the relay and address tables, extended by the
  transaction tables, extended by the user planes and the waiting requests. The state of the
  process is a record with the place of every long-lived goroutine, the requests and messages being
  handled, and that state of the adapter.

  \<^bold>\<open>What the theorems show.\<close>

  \<^item> Whole adapter: from the start on no goroutine blocks on delivering an answer and all
    tables stay consistent (\<open>adapter_always_consistent\<close>); the former also when the
    lookup of a waiting request and the send to it are steps of their own
    (\<open>answers_never_block\<close>).
  \<^item> Process: the tables stay consistent through starting, failing and stopping
    (\<open>process_keeps_tables\<close>); after a signal the goroutines can bring the process to
    its exit within five seconds by themselves, and take at most fifteen more steps under every
    schedule (\<open>shutdown_completes\<close>); a clean exit comes after the
    socket is closed and its reader gone, and nothing happens after it
    (\<open>clean_exit_is_last\<close>).
  \<^item> Associations: outside the window between marking and storing, a user plane that is marked
    as associated has its response stored (\<open>associated_means_stored\<close>); as a lemma, the
    threads compute what the handlers do (\<open>association_is_its_steps\<close>).
  \<^item> Session reports: at every moment of every interleaving a copy of a report is absorbed,
    unless its answer could not be sent or was taken away from outside
    (\<open>no_report_slips_through\<close>; \<open>report_absorbed\<close> and
    \<open>retransmission_absorbed\<close> say it of one handler and of the relay table); an answer goes
    back to its origin, once, and is registered before the claim ends
    (\<open>answer_goes_to_origin\<close>, \<open>report_taken_once\<close>); a report the
    SMF does not answer is refused (\<open>unanswered_report_is_refused\<close>); a source the SMF
    does not name has no effect (\<open>unknown_source_dropped\<close>). As a lemma, the threads
    compute what the handlers do (\<open>handler_is_its_steps\<close>).
  \<^item> Relay table: its invariant over runs in any order of operations and of their clock
    readings (\<open>relay_table_consistent\<close>), the search for a free number over an inclusive
    range (\<open>next_free_exact\<close>); as lemmas, claims, renumbering, release, the throttled sweep.
  \<^item> Addresses: the two tables are inverse to each other, a commit does and releases exactly
    what it should, the later resolution wins in either order, the SMF address is never erased
    (\<open>smf_address_never_erased\<close>);
    node ids are well formed and the name cache follows DNS.
  \<^item> Transactions: the tables refine one map (\<open>transaction_tables_refine\<close>), the
    resend loop ends and keeps its windows (\<open>timeouts_keep_their_time\<close>), a response finds
    its request, a retransmission is not dispatched. Under any interleaving of their steps, a
    registration and a lookup take effect at one moment (\<open>registration_is_atomic\<close>,
    \<open>lookup_is_atomic\<close>), an entry stays until its own end or a release of its host
    (\<open>registered_entry_stays\<close>), no thread is stuck (\<open>table_threads_finish\<close>). As lemmas,
    with nothing in between the steps are the operations that the other theories take as one
    (\<open>operations_are_their_steps\<close>), the read loop stops when the socket is
    closed, and a second round of \<^verbatim>\<open>PutTransaction\<close> is never reached.
  \<^item> Forwarding: a response that passes the tests of its handler reaches the request that waits,
    byte for byte, while its registration stands (\<open>forward_round_trip\<close>); a failed send
    leaves no registration; a user plane that moves is released at its old address; as lemmas, a
    repeated association is answered from the stored response with the right retention flag.
  \<^item> Where the code does not do what it means to: a delayed copy is relayed again
    (\<open>delayed_copy_relayed_again\<close>), an answer on its way outlives the release of its user
    plane (\<open>answer_outlives_release\<close>), a response that arrives as its transaction ends can end
    the process (\<open>late_response_ends_process\<close>), a duplicate number strands the first waiter, a heartbeat that times out is never reported, a
    swept release count admits a stale claim (\<open>swept_generation_admits_stale_claim\<close>); a
    request in the window of an association panics and leaves a lock held for ever
    (\<open>host_name_panics_in_window\<close>, \<open>user_plane_wedged\<close>), and one for an address
    that two nodes share panics without a window (\<open>shared_address_panics\<close>). As lemmas: a
    socket that cannot be opened is not noticed, requests in flight at the shutdown wait for answers
    that nobody reads (\<open>lost_socket_unnoticed\<close>, \<open>nothing_read_after_close\<close>),
    the panic on an IPv6 node id, the claim refused after a sweep, the third retransmission that is
    not answered, the tables of a peer with a zone that a release does not reach, the handlers a
    clean exit abandons, the claims of an SMF that are logged with every message.

  \<^bold>\<open>Bounds.\<close> Every loop of the sources is bounded or structural: three writes of a
  transaction (\<open>NumOfResend\<close>), three rounds of \<^verbatim>\<open>PutTransaction\<close> (one
  is always enough), four numbers for a report, one round per number of the search (counted with
  the wrap-around of 32 bits), eight rounds of the parser of an IPv6 text, each of which reads two
  of sixteen octets. The fuel of these loops is the count the code has. The read loop runs over the list of what
  the socket delivers.

  \<^bold>\<open>Parameters.\<close> The library go-pfcp is the record \<open>pfcp_lib\<close>; what is relied on
  is \<open>lib_laws\<close> (sequence numbers of three octets, setters that keep number and type), and
  that a message can be encoded where a property says so. DNS answers, the decoding of the HTTP
  body, the names of log levels, the readings of the clock, the orders of map iterations, what the
  socket delivers and the text of its own address are arguments. An accessor of a message
  element that fails and one whose element is missing have one outcome, the error path of the
  caller; what a method of go-pfcp does with a nil element belongs to the library and is not
  modelled. Clock readings are arguments of
  the steps that take them, so no property assumes that they grow unless it says so; the clock of
  the process does. Of \<^verbatim>\<open>net/http\<close> the process uses that \<^verbatim>\<open>Shutdown\<close>
  makes \<^verbatim>\<open>ListenAndServe\<close> return and returns itself when no request is in flight or
  its context has expired, and that the panic of a handler ends its request only; of a closed
  socket, that reading it reports \<^verbatim>\<open>net.ErrClosed\<close>.

  \<^bold>\<open>Not modelled.\<close> The configuration of zap in \<^verbatim>\<open>logger\<close> (encodings and
  output paths, without effect on the program; the level is modelled) and the text of log messages;
  \<^verbatim>\<open>udp.Message\<close>, \<^verbatim>\<open>udp.ServerStartTime\<close> and the
  \<^verbatim>\<open>Addr\<close> of a decoded request, which nothing reads. What a lock other than
  \<^verbatim>\<open>UpfLock\<close> protects is one step, however long it lasts
  (\<^verbatim>\<open>InsertUpfNode\<close> resolves a name inside it), and
  \<^verbatim>\<open>UpfLock\<close> is a lock in \<open>Association_Threads\<close> only: in
  \<open>Adapter_System\<close> a panic ends the run, and in \<open>Process\<close> that of an HTTP handler ends
  its request. What is one step elsewhere is several in \<open>Tx_Threads\<close> and
  \<open>Report_Threads\<close>; a response that is overtaken by the end of its transaction is followed in
  \<open>Tx_Threads\<close>, and \<open>Process\<close> has its outcome as one step. The data race on \<^verbatim>\<open>dnsHostIpCache\<close> is outside the model: its operations
  are atomic here.
\<close>

section \<open>The adapter as a whole\<close>

text \<open>
  Property C1. From its start on, whatever arrives from the user planes and the SMF and in whatever
  order, no goroutine of the adapter blocks on delivering an answer, and every table is consistent
  with the others for as long as no handler panics; a panic ends the run.
\<close>

theorem adapter_always_consistent:
  assumes "along (adapter_exec lib) adapter_legal evs (Done adapter_init)"
  shows "fold (adapter_exec lib) evs (Done adapter_init) \<noteq> Blocked
    \<and> (\<forall>s. fold (adapter_exec lib) evs (Done adapter_init) = Done s \<longrightarrow> adapter_inv s)"
  using adapter.run_inv [OF _ assms] adapter_init_inv by (simp add: fine_def)

theorem adapter_always_consistent_witness:
  "fold (adapter_exec wire_lib)
     [Listens tx_addr (Some \<lparr>LocalAddr = tx_text\<rparr>),
      FromSmf (\<lambda>_. Some \<lparr>SmfIp = ''10.42.0.9'', Msg_Body = [0, 9], UpNodeID = node_a\<rparr>) std_http
        \<lparr>req_body = [], read_failed = False\<rparr>,
      Reads (Datagram [0, 7] upf_b), FromUpf std_report_env sorted_list_of_set (secs 103) (std_req 7) (Some upf_b)]
     (Done adapter_init) \<noteq> Blocked"
proof (rule conjunct1 [OF adapter_always_consistent])
  have "chans (waiters (rest_of (adapter_init :: plain_msg adapter))) 3 = None"
    by (simp add: adapter_init_def addr_state.defs tx_state.defs)
  then show "along (adapter_exec wire_lib) adapter_legal
     [Listens tx_addr (Some \<lparr>LocalAddr = tx_text\<rparr>),
      FromSmf (\<lambda>_. Some \<lparr>SmfIp = ''10.42.0.9'', Msg_Body = [0, 9], UpNodeID = node_a\<rparr>) std_http
        \<lparr>req_body = [], read_failed = False\<rparr>,
      Reads (Datagram [0, 7] upf_b), FromUpf std_report_env sorted_list_of_set (secs 103) (std_req 7) (Some upf_b)]
     (Done adapter_init)"
    by (simp add: std_http_def std_fwd_def forward_env.defs std_report_env_def Run_listen_def)
qed

section \<open>An answer that outlives a release\<close>

text \<open>
  Property C11. An answer that is on its way when its user plane is released outlives the release.
  The release drops every transaction of the address; the handler that has taken the report sends
  the answer after that, and registers it for an address that no user plane is at. For as long as
  that answer is held, a report of whoever is given the address next, under the same number, is
  taken for a retransmission and not dispatched.
\<close>

theorem answer_outlives_release:
  assumes "adapter_inv s" "sending lib s" "legal_env e" "enumerates ord"
    and "th_pc th = Answering k rsp" "th_seq th \<le> seq_max" "MessageType lib rsp = MsgTypeSessionReportResponse"
    and "SplitHost (UDPAddr_String (th_addr th)) = Some a" "a \<in> deserted now ip node s"
    and "s' = commitUpfAddr e (release_hook ord) now ip node s" "thread_step lib th s' = (pc, s'')"
    and "Parse lib (take PFCP_MAX_UDP_LEN bytes) = Some copy" "IsRequest lib copy" "Sequence lib copy = th_seq th"
  shows "held (rest_of s') (UDPAddr_String (th_addr th), th_seq th) = None
    \<and> held (rest_of s'') (UDPAddr_String (th_addr th), th_seq th) \<noteq> None
    \<and> fst (readLoop lib [Datagram bytes (th_addr th)] (rest_of s'')) = ([], False)"
proof -
  let ?key = "(UDPAddr_String (th_addr th), th_seq th)"
  have inv: "addr_inv s" "tx_inv (rest_of s)" using assms(1) by (simp_all add: adapter_inv_def)
  have inv': "adapter_inv s'" using commit_adapter_inv(1) [OF assms(1,3,4)] assms(10) by simp
  have send': "sending lib s'"
    using assms(2) commit_socket [OF inv(1) assms(3)] assms(10) by (simp add: sending_def)
  obtain gone where gone: "set gone = deserted now ip node s" "released_exactly e (release_hook ord) gone s s'"
    using commit_releases [OF inv(1) assms(3)] assms(10) by blast
  have "socket s \<noteq> None" using assms(2) by (auto simp: sending_def)
  then have "held (rest_of s') = map_keep (\<lambda>k _. SplitHost (fst k) \<notin> Some ` set gone) (held (rest_of s))"
    using released_rest [OF inv(2) assms(4)] gone(2) by (simp add: released_exactly_def)
  then have free: "held (rest_of s') ?key = None" using gone(1) assms(8,9) by (auto simp: map_keep_None)
  let ?s = "snd (on_rest (SendPfcp lib (SetSequenceNumber lib (th_seq th) rsp) (th_addr th) (Some reportResponseEventData)) s')"
  have s'': "s'' = ?s" using assms(5,11) by (simp add: thread_step_def)
  have answer: "held (rest_of s'') ?key \<noteq> None"
    using response_answers [OF inv' _ assms(6,5) sending_not_unsent [OF inv' send'] assms(7)] send' s''
    by (simp add: answer_for_def sending_def)
  have "adapter_inv s''" unfolding s'' by (rule send_inv [OF inv'])
  then have tx: "tx_inv (rest_of s'')" by (simp only: adapter_inv_def)
  have "sending lib s''" unfolding s'' by (rule sending_send [OF inv' send'])
  then obtain srv where srv: "Server (rest_of s'') = Some srv" "Conn srv \<noteq> None" by (auto simp: sending_def)
  obtain x where "findTransaction lib copy (th_addr th) (rest_of s'') = Inr (Some x)"
    using find_refines(1) [OF tx _ assms(13), of "th_addr th"] srv(1) answer assms(14) by auto
  then have "fst (readLoop lib [Datagram bytes (th_addr th)] (rest_of s'')) = ([], False)"
    using srv assms(12,13) by (simp add: readPfcpMessage_def)
  with free answer show ?thesis by simp
qed

text \<open>
  The user plane at the first address moves to a second one while its report is being answered.
\<close>

theorem answer_outlives_release_witness:
  "\<exists>th s''. thread_step wire_lib th (commitUpfAddr std_env (release_hook sorted_list_of_set) (secs 200)
      (addr_IP upf_b) ''2/upf-a'' std_adapter) = (Releasing 0x800000, s'')
    \<and> fst (readLoop wire_lib [Datagram [0, 7] upf_a] (rest_of s'')) = ([], False)"
proof -
  let ?s = "commitUpfAddr std_env (release_hook sorted_list_of_set) (secs 200) (addr_IP upf_b) ''2/upf-a'' std_adapter"
  obtain th :: "plain_msg thread" where th: "th_pc th = Answering 0x800000 (std_rsp 0x800000)" "th_seq th = 7" "th_addr th = upf_a"
    by (metis thread.select_convs)
  obtain s'' where step: "thread_step wire_lib th ?s = (Releasing 0x800000, s'')"
    by (simp add: thread_step_def th(1))
  have out: "''10.42.0.184'' \<in> deserted (secs 200) (addr_IP upf_b) ''2/upf-a'' std_adapter"
    using upf_resolved
    by (simp add: deserted_def leaves_def at_a_addrs bucket_def named_def at_a_nodes upf_texts)
      (auto simp: secs_def)
  have up: "sending wire_lib std_adapter"
    using wire_lib_laws by (simp add: sending_def wire_lib_def plain_lib_def tx_init_server)
  have "UDPAddr_String upf_a = JoinHostPort ''10.42.0.184'' (Itoa 8805)"
    using upf_texts(1) by (simp add: UDPAddr_String_def upf_a_def)
  moreover have "SplitHost (JoinHostPort ''10.42.0.184'' (Itoa 8805)) = Some ''10.42.0.184''"
    by (rule SplitHost_JoinHostPort) simp_all
  ultimately have now: "th_seq th \<le> seq_max" "SplitHost (UDPAddr_String (th_addr th)) = Some ''10.42.0.184''"
    by (simp_all add: th seq_max_def)
  have seven: "Parse wire_lib (take PFCP_MAX_UDP_LEN [0, 7]) = Some (std_req 7)" "IsRequest wire_lib (std_req 7)"
    "Sequence wire_lib (std_req 7) = th_seq th" "MessageType wire_lib (std_rsp 0x800000) = MsgTypeSessionReportResponse"
    by (simp_all add: wire_lib_def plain_lib_def IsRequest_def PFCP_MAX_UDP_LEN_def std_req_def std_rsp_def th(2))
  have "fst (readLoop wire_lib [Datagram [0, 7] (th_addr th)] (rest_of s'')) = ([], False)"
    by (rule answer_outlives_release [where bytes = "[0, 7]", OF std_adapter_inv up std_env_legal enumerates_sorted
      th(1) now(1) seven(4) now(2) out refl step seven(1,2,3), THEN conjunct2, THEN conjunct2])
  with step show ?thesis unfolding th(3) by blast
qed

end
